(* ===== verification/Vssim_Prelude.thy ===== *)
theory Vssim_Prelude
  imports
    Complex_Main
    "HOL-Library.Word"
    "HOL-Library.Signed_Division"
    "HOL-Library.Monad_Syntax"
    "HOL-Library.While_Combinator"
begin

text \<open>
  The shared vocabulary of the development.

  \<^item> C integers. A signed value is an \<open>int\<close>; where the C code converts to
    \<open>unsigned int\<close> or back to \<open>int32_t\<close>, the model writes \<open>u32\<close> or \<open>i32\<close>.
    Division and remainder of C truncate: \<open>sdiv\<close> and \<open>smod\<close> of Signed_Division.
  \<^item> C arrays. A heap array is a list, read by \<open>aget\<close> and written by \<open>aset\<close>; an access
    outside the allocation is undefined behaviour in C and \<open>None\<close> here.
  \<^item> Computations. A C function that touches global state is a function from the state to
    an option: \<open>Some (r, s')\<close> when it returns \<open>r\<close> with the globals \<open>s'\<close>, \<open>None\<close> when
    it has no defined result (an access out of bounds, a NULL dereference, or a loop that
    never ends). \<open>returns m Q\<close> is total correctness: \<open>m\<close> has a result and it satisfies
    \<open>Q\<close>.
  \<^item> Loops. \<open>ofold f xs s\<close> runs the body \<open>f\<close> over the index list \<open>xs\<close>; a C loop
    \<^verbatim>\<open>for(i=0;i<n;i++)\<close> runs over \<open>[0..n-1]\<close>.
\<close>

named_theorems c_arith \<open>C arithmetic inside its range\<close>
named_theorems vc \<open>weakest precondition equations for option computations\<close>

section \<open>C integers\<close>

definition u32 :: "int \<Rightarrow> int" where
  "u32 x = x mod 4294967296"

definition i32 :: "int \<Rightarrow> int" where
  "i32 x = (x + 2147483648) mod 4294967296 - 2147483648"

lemma u32_id [c_arith]: "0 \<le> x \<Longrightarrow> x < 4294967296 \<Longrightarrow> u32 x = x"
  by (simp add: u32_def)

lemma i32_id [c_arith]: "- 2147483648 \<le> x \<Longrightarrow> x < 2147483648 \<Longrightarrow> i32 x = x"
  by (simp add: i32_def)

lemma u32_bounds: "0 \<le> u32 x" "u32 x < 4294967296"
  by (simp_all add: u32_def)

lemma sdiv_nonneg [c_arith]: "0 \<le> a \<Longrightarrow> 0 \<le> b \<Longrightarrow> a sdiv b = a div (b :: int)"
  by (cases "a = 0"; cases "b = 0") (simp_all add: signed_divide_int_def)

lemma smod_nonneg [c_arith]: "0 \<le> a \<Longrightarrow> 0 \<le> b \<Longrightarrow> a smod b = a mod (b :: int)"
  by (cases "a = 0") (simp_all add: signed_modulo_int_def)

lemma div_le_self: "0 \<le> a \<Longrightarrow> 0 < b \<Longrightarrow> a div b \<le> (a :: int)"
  using zdiv_mono2 [of a 1 b] by simp

lemma div_less_bound:
  assumes "0 < b" "a < n * b"
  shows "a div b < (n :: int)"
proof -
  have "(a div b) * b < n * b"
    using assms minus_mod_eq_div_mult [of a b] pos_mod_sign [of b a] by linarith
  then show ?thesis using assms(1) by (simp only: mult_less_cancel_right_pos)
qed

lemma word_less_inc: "w \<le> n \<Longrightarrow> n \<noteq> -1 \<Longrightarrow> w < n + (1 :: 32 word)"
proof -
  assume "w \<le> n" "n \<noteq> -1"
  then have "uint w \<le> uint n" "uint n < uint (-1 :: 32 word)"
    by (simp_all add: word_order.not_eq_extremum word_less_def word_le_def)
  then show ?thesis by (simp add: word_less_def uint_plus_if' unsigned_minus_1_eq_mask mask_eq_exp_minus_1)
qed

text \<open>Checked arithmetic: signed overflow and division by zero have no defined result.\<close>

definition in_int :: "int \<Rightarrow> bool" where
  "in_int x \<longleftrightarrow> - 2147483648 \<le> x \<and> x < 2147483648"

definition in_long :: "int \<Rightarrow> bool" where
  "in_long x \<longleftrightarrow> - 9223372036854775808 \<le> x \<and> x < 9223372036854775808"

definition imul :: "int \<Rightarrow> int \<Rightarrow> int option" where
  "imul a b = (if in_int (a * b) then Some (a * b) else None)"

definition lmul :: "int \<Rightarrow> int \<Rightarrow> int option" where
  "lmul a b = (if in_long (a * b) then Some (a * b) else None)"

definition cdiv :: "int \<Rightarrow> int \<Rightarrow> int option" where
  "cdiv a b = (if b = 0 then None else Some (a sdiv b))"

definition cmod :: "int \<Rightarrow> int \<Rightarrow> int option" where
  "cmod a b = (if b = 0 then None else Some (a smod b))"

section \<open>C arrays\<close>

definition aget :: "'a list \<Rightarrow> int \<Rightarrow> 'a option" where
  "aget xs i = (if 0 \<le> i \<and> i < int (length xs) then Some (xs ! nat i) else None)"

definition aset :: "'a list \<Rightarrow> int \<Rightarrow> 'a \<Rightarrow> 'a list option" where
  "aset xs i v = (if 0 \<le> i \<and> i < int (length xs) then Some (xs[nat i := v]) else None)"

lemma in_set_tl: "x \<in> set (tl xs) \<Longrightarrow> x \<in> set xs"
  by (cases xs) simp_all

text \<open>A ring buffer is an array that is read from some position on: a rotated list.\<close>

lemma rotate_update:
  assumes "i < length xs"
  shows "rotate m (xs[(m + i) mod length xs := v]) = (rotate m xs)[i := v]"
proof (intro nth_equalityI)
  fix j assume "j < length (rotate m (xs[(m + i) mod length xs := v]))"
  then have j: "j < length xs" by simp
  have "(m + i) mod length xs = (m + j) mod length xs \<longleftrightarrow> i = j"
  proof
    assume "(m + i) mod length xs = (m + j) mod length xs"
    then have "i mod length xs = j mod length xs" by (simp add: nat_mod_eq_iff mod_add_cong)
    then show "i = j" using assms j by simp
  qed simp
  moreover have "(m + j) mod length xs < length xs" using j by (intro mod_less_divisor) linarith
  ultimately show "rotate m (xs[(m + i) mod length xs := v]) ! j = (rotate m xs)[i := v] ! j"
    using assms j by (auto simp: nth_rotate nth_list_update)
qed simp

definition unrotate :: "nat \<Rightarrow> 'a list \<Rightarrow> 'a list" where
  "unrotate m xs = rotate (length xs - m mod length xs) xs"

lemma rotate_unrotate [simp]: "rotate m (unrotate m xs) = xs" "unrotate m (rotate m xs) = xs"
proof -
  have "xs \<noteq> [] \<Longrightarrow> (m + (length xs - m mod length xs)) mod length xs = 0"
  proof -
    assume "xs \<noteq> []"
    then have "m mod length xs < length xs" by simp
    then have "m + (length xs - m mod length xs) = length xs + m div length xs * length xs"
      using div_mult_mod_eq [of m "length xs"] by linarith
    then show ?thesis by simp
  qed
  then show "rotate m (unrotate m xs) = xs" "unrotate m (rotate m xs) = xs"
    by (cases "xs = []"; simp add: unrotate_def rotate_rotate rotate_id add.commute)+
qed

lemma length_unrotate [simp]: "length (unrotate m xs) = length xs"
  by (simp add: unrotate_def)

section \<open>Computations with a possibly undefined result\<close>

definition returns :: "'a option \<Rightarrow> ('a \<Rightarrow> bool) \<Rightarrow> bool" where
  "returns m Q \<longleftrightarrow> (\<exists>x. m = Some x \<and> Q x)"

primrec ofold :: "('a \<Rightarrow> 's \<Rightarrow> 's option) \<Rightarrow> 'a list \<Rightarrow> 's \<Rightarrow> 's option" where
  "ofold f [] s = Some s"
| "ofold f (x # xs) s = Option.bind (f x s) (ofold f xs)"

lemma ofold_Nil [simp]: "ofold f [] = Some"
  by (simp add: fun_eq_iff)

lemma returns_Some [simp, vc]: "returns (Some x) Q \<longleftrightarrow> Q x"
  by (simp add: returns_def)

lemma returns_None [simp, vc]: "\<not> returns None Q"
  by (simp add: returns_def)

lemma returns_bind [vc]: "returns (Option.bind m k) Q \<longleftrightarrow> returns m (\<lambda>x. returns (k x) Q)"
  by (cases m) simp_all

lemma returns_if [vc]:
  "returns (if b then m else n) Q \<longleftrightarrow> (b \<longrightarrow> returns m Q) \<and> (\<not> b \<longrightarrow> returns n Q)"
  by simp

lemma returns_case_prod [vc]:
  "returns (case p of (a, b) \<Rightarrow> f a b) Q \<longleftrightarrow> (case p of (a, b) \<Rightarrow> returns (f a b) Q)"
  by (cases p) simp

lemma returns_aget [vc]:
  "returns (aget xs i) Q \<longleftrightarrow> 0 \<le> i \<and> i < int (length xs) \<and> Q (xs ! nat i)"
  by (auto simp: aget_def returns_def)

lemma returns_aset [vc]:
  "returns (aset xs i v) Q \<longleftrightarrow> 0 \<le> i \<and> i < int (length xs) \<and> Q (xs[nat i := v])"
  by (auto simp: aset_def returns_def)

lemma returns_imul [vc]: "returns (imul a b) Q \<longleftrightarrow> in_int (a * b) \<and> Q (a * b)"
  by (auto simp: imul_def returns_def)

lemma returns_lmul [vc]: "returns (lmul a b) Q \<longleftrightarrow> in_long (a * b) \<and> Q (a * b)"
  by (auto simp: lmul_def returns_def)

lemma returns_cdiv [vc]: "returns (cdiv a b) Q \<longleftrightarrow> b \<noteq> 0 \<and> Q (a sdiv b)"
  by (auto simp: cdiv_def returns_def)

lemma returns_cmod [vc]: "returns (cmod a b) Q \<longleftrightarrow> b \<noteq> 0 \<and> Q (a smod b)"
  by (auto simp: cmod_def returns_def)

lemma returns_mono: "returns m Q \<Longrightarrow> (\<And>x. Q x \<Longrightarrow> R x) \<Longrightarrow> returns m R"
  by (auto simp: returns_def)

lemma returns_conj: "returns m Q \<Longrightarrow> returns m R \<Longrightarrow> returns m (\<lambda>x. Q x \<and> R x)"
  by (auto simp: returns_def)

lemma returnsE: "returns m Q \<Longrightarrow> (\<And>x. m = Some x \<Longrightarrow> Q x \<Longrightarrow> P) \<Longrightarrow> P"
  by (auto simp: returns_def)

lemma returns_SomeD: "returns m Q \<Longrightarrow> m = Some x \<Longrightarrow> Q x"
  by (simp add: returns_def)

text \<open>A loop over an index list keeps what every iteration keeps.\<close>

lemma ofold_inv:
  assumes "I s" and "\<And>x s. x \<in> set xs \<Longrightarrow> I s \<Longrightarrow> returns (f x s) I"
  shows "returns (ofold f xs s) I"
  using assms
proof (induction xs arbitrary: s)
  case (Cons x xs)
  have "returns (f x s) I" using Cons.prems by simp
  then show ?case
    unfolding ofold.simps returns_bind
    by (rule returns_mono) (use Cons in auto)
qed simp

text \<open>The same for \<^verbatim>\<open>for(i=0;i<n;i++)\<close>, with an invariant that knows the index.\<close>

lemma ofold_range_from:
  assumes "a \<le> b" and "I a s"
    and "\<And>i s. a \<le> i \<Longrightarrow> i < b \<Longrightarrow> I i s \<Longrightarrow> returns (f i s) (I (i + 1))"
  shows "returns (ofold f [a..b - 1] s) (I b)"
  using assms
proof (induction "nat (b - a)" arbitrary: a s)
  case 0
  then show ?case by simp
next
  case (Suc k)
  then have lt: "a < b" by simp
  then have split: "[a..b - 1] = a # [a + 1..b - 1]" by (simp add: upto_rec1)
  have "returns (f a s) (I (a + 1))" using Suc.prems lt by simp
  then show ?case
    unfolding split ofold.simps returns_bind
    by (rule returns_mono) (use Suc lt in auto)
qed

lemma ofold_range:
  assumes "0 \<le> n" and "I 0 s"
    and "\<And>i s. 0 \<le> i \<Longrightarrow> i < n \<Longrightarrow> I i s \<Longrightarrow> returns (f i s) (I (i + 1))"
  shows "returns (ofold f [0..n - 1] s) (I n)"
  using ofold_range_from [of 0 n I s f] assms by simp

lemma ofold_app: "ofold f (xs @ ys) s = Option.bind (ofold f xs s) (ofold f ys)"
proof (induction xs arbitrary: s)
  case (Cons x xs)
  then show ?case by (cases "f x s") simp_all
qed simp

lemma ofold_eq:
  assumes "\<And>x s. x \<in> set xs \<Longrightarrow> f x s = g x s"
  shows "ofold f xs s = ofold g xs s"
  using assms
proof (induction xs arbitrary: s)
  case (Cons x xs)
  then show ?case by (cases "g x s") simp_all
qed simp

text \<open>A loop with an invariant that knows which elements have been treated.\<close>

lemma ofold_done:
  assumes "I [] s" and "\<And>ys x s. set (ys @ [x]) \<subseteq> set xs \<Longrightarrow> I ys s \<Longrightarrow> returns (f x s) (I (ys @ [x]))"
  shows "returns (ofold f xs s) (I xs)"
proof -
  have "returns (ofold f xs s) (I (ys @ xs))" if "I ys s" "set ys \<subseteq> Z"
    "\<And>ys x s. set (ys @ [x]) \<subseteq> Z \<Longrightarrow> I ys s \<Longrightarrow> returns (f x s) (I (ys @ [x]))" "set xs \<subseteq> Z" for ys xs s Z
    using that
  proof (induction xs arbitrary: ys s)
    case (Cons x xs)
    have "returns (f x s) (I (ys @ [x]))" using Cons.prems by (intro Cons.prems(3)) auto
    then show ?case
      unfolding ofold.simps returns_bind
      by (rule returns_mono) (use Cons.IH [of "ys @ [x]"] Cons.prems in auto)
  qed simp
  from this [of "[]" s "set xs" xs] show ?thesis using assms by simp
qed

section \<open>Sequences of operations and their specification\<close>

text \<open>
  \<open>run_steps\<close> executes operations on a concrete state and collects their results,
  \<open>spec_steps\<close> does so on the abstract state of a specification, which always returns.
\<close>

primrec run_steps :: "('op \<Rightarrow> 's \<Rightarrow> ('r \<times> 's) option) \<Rightarrow> 'op list \<Rightarrow> 's \<Rightarrow> ('r list \<times> 's) option" where
  "run_steps step [] s = Some ([], s)"
| "run_steps step (x # xs) s =
     Option.bind (step x s) (\<lambda>(r, s). Option.bind (run_steps step xs s) (\<lambda>(rs, s). Some (r # rs, s)))"

primrec spec_steps :: "('op \<Rightarrow> 'a \<Rightarrow> 'r \<times> 'a) \<Rightarrow> 'op list \<Rightarrow> 'a \<Rightarrow> 'r list \<times> 'a" where
  "spec_steps spec [] a = ([], a)"
| "spec_steps spec (x # xs) a =
     (let (r, a) = spec x a; (rs, a) = spec_steps spec xs a in (r # rs, a))"

text \<open>
  The contract of a component: from a state that is ready for one more operation, every
  permitted operation returns, does what the specification says of the abstract state, and
  leaves a state that is ready for the rest.
\<close>

locale implements =
  fixes step :: "'op \<Rightarrow> 's \<Rightarrow> ('r \<times> 's) option"
    and spec :: "'op \<Rightarrow> 'a \<Rightarrow> 'r \<times> 'a"
    and abs :: "'s \<Rightarrow> 'a"
    and ready :: "nat \<Rightarrow> 's \<Rightarrow> bool"
    and permitted :: "'op \<Rightarrow> bool"
  assumes step_refines: "ready (Suc k) s \<Longrightarrow> permitted x \<Longrightarrow>
    returns (step x s) (\<lambda>(r, s'). ready k s' \<and> (r, abs s') = spec x (abs s))"
begin

lemma run_refines_more:
  assumes "ready (length xs + k) s" "\<forall>x\<in>set xs. permitted x"
  shows "returns (run_steps step xs s) (\<lambda>(rs, s'). ready k s' \<and> (rs, abs s') = spec_steps spec xs (abs s))"
  using assms
proof (induction xs arbitrary: s)
  case (Cons x xs)
  obtain r s1 where s1: "step x s = Some (r, s1)" "ready (length xs + k) s1" "spec x (abs s) = (r, abs s1)"
    using step_refines [of "length xs + k" s x] Cons.prems by (auto simp: returns_def)
  show ?case using Cons.IH [OF s1(2)] Cons.prems(2) s1 by (auto simp: returns_def split: prod.splits)
qed simp

lemmas run_refines = run_refines_more [where k = 0, simplified]

end

end
