(* ===== verification/Vssim_Config.thy ===== *)
theory Vssim_Config
  imports Vssim_Prelude
begin

text \<open>
  \<^verbatim>\<open>CONFIG/vssim_config_manager.c\<close> for the page-mapping build (\<^verbatim>\<open>PAGE_MAP\<close>): the
  globals as the record \<open>ssd_config\<close>, the reader of \<^verbatim>\<open>ssd.conf\<close> on its characters
  (\<open>scan_word\<close> and \<open>scan_int\<close> are the conversions \<^verbatim>\<open>%s\<close> and \<^verbatim>\<open>%d\<close> of
  \<^verbatim>\<open>fscanf\<close>), and the derived geometry. The flag \<open>fb\<close> stands for \<^verbatim>\<open>FIRM_IO_BUFFER\<close>.
  A \<^verbatim>\<open>double\<close> is a \<open>real\<close>.
\<close>

section \<open>The configuration globals\<close>

record ssd_config =
  SECTOR_SIZE :: int
  PAGE_SIZE :: int
  SECTOR_NB :: int
  PAGE_NB :: int
  FLASH_NB :: int
  BLOCK_NB :: int
  CHANNEL_NB :: int
  PLANES_PER_FLASH :: int
  SECTORS_PER_PAGE :: int
  PAGES_PER_FLASH :: int
  PAGES_IN_SSD :: int
  WAY_NB :: int
  OVP :: int
  DATA_BLOCK_NB :: int
  BLOCK_MAPPING_ENTRY_NB :: int
  PAGE_MAPPING_ENTRY_NB :: int
  EACH_EMPTY_TABLE_ENTRY_NB :: int
  EMPTY_TABLE_ENTRY_NB :: int
  VICTIM_TABLE_ENTRY_NB :: int
  REG_WRITE_DELAY :: int
  CELL_PROGRAM_DELAY :: int
  REG_READ_DELAY :: int
  CELL_READ_DELAY :: int
  BLOCK_ERASE_DELAY :: int
  CHANNEL_SWITCH_DELAY_W :: int
  CHANNEL_SWITCH_DELAY_R :: int
  DSM_TRIM_ENABLE :: int
  IO_PARALLELISM :: int
  GC_THRESHOLD :: real
  GC_THRESHOLD_HARD :: real
  GC_THRESHOLD_BLOCK_NB :: int
  GC_THRESHOLD_BLOCK_NB_HARD :: int
  GC_THRESHOLD_BLOCK_NB_EACH :: int
  GC_VICTIM_NB :: int
  WRITE_BUFFER_FRAME_NB :: int
  READ_BUFFER_FRAME_NB :: int
  FILE_NAME_HDA :: string
  FILE_NAME_HDB :: string

text \<open>Globals of C start out as zero.\<close>

definition zero_config :: ssd_config where
  "zero_config = \<lparr>SECTOR_SIZE = 0, PAGE_SIZE = 0, SECTOR_NB = 0, PAGE_NB = 0, FLASH_NB = 0,
     BLOCK_NB = 0, CHANNEL_NB = 0, PLANES_PER_FLASH = 0, SECTORS_PER_PAGE = 0,
     PAGES_PER_FLASH = 0, PAGES_IN_SSD = 0, WAY_NB = 0, OVP = 0, DATA_BLOCK_NB = 0,
     BLOCK_MAPPING_ENTRY_NB = 0, PAGE_MAPPING_ENTRY_NB = 0, EACH_EMPTY_TABLE_ENTRY_NB = 0,
     EMPTY_TABLE_ENTRY_NB = 0, VICTIM_TABLE_ENTRY_NB = 0, REG_WRITE_DELAY = 0,
     CELL_PROGRAM_DELAY = 0, REG_READ_DELAY = 0, CELL_READ_DELAY = 0, BLOCK_ERASE_DELAY = 0,
     CHANNEL_SWITCH_DELAY_W = 0, CHANNEL_SWITCH_DELAY_R = 0, DSM_TRIM_ENABLE = 0,
     IO_PARALLELISM = 0, GC_THRESHOLD = 0, GC_THRESHOLD_HARD = 0, GC_THRESHOLD_BLOCK_NB = 0,
     GC_THRESHOLD_BLOCK_NB_HARD = 0, GC_THRESHOLD_BLOCK_NB_EACH = 0, GC_VICTIM_NB = 0,
     WRITE_BUFFER_FRAME_NB = 0, READ_BUFFER_FRAME_NB = 0,
     FILE_NAME_HDA = [], FILE_NAME_HDB = []\<rparr>"

section \<open>Reading ssd.conf\<close>

definition is_space :: "char \<Rightarrow> bool" where
  "is_space ch \<longleftrightarrow> ch \<in> {CHR 0x20, CHR 0x09, CHR 0x0A, CHR 0x0B, CHR 0x0C, CHR 0x0D}"

definition is_digit :: "char \<Rightarrow> bool" where
  "is_digit ch \<longleftrightarrow> ch \<in> set ''0123456789''"

definition digit_val :: "char \<Rightarrow> int" where
  "digit_val ch = of_char ch - 48"

definition number :: "string \<Rightarrow> int" where
  "number ds = foldl (\<lambda>n d. n * 10 + digit_val d) 0 ds"

text \<open>
  \<^verbatim>\<open>fscanf(pfData, "%s", buf)\<close> with a 1024 byte buffer: the next word and the rest of the
  input; \<open>Some None\<close> at the end of the file, \<open>None\<close> when the word overruns the buffer.
\<close>

definition scan_word :: "string \<Rightarrow> (string \<times> string) option option" where
  "scan_word inp =
     (let r = dropWhile is_space inp; w = takeWhile (\<lambda>ch. \<not> is_space ch) r
      in if r = [] then Some None
         else if length w \<ge> 1024 then None
         else Some (Some (w, dropWhile (\<lambda>ch. \<not> is_space ch) r)))"

text \<open>
  \<^verbatim>\<open>fscanf(pfData, "%d", &x)\<close>: the value (or \<open>None\<close> for a matching failure, which leaves
  \<^verbatim>\<open>x\<close> unchanged) and the rest of the input; a number that is no \<^verbatim>\<open>int\<close> is undefined.
\<close>

definition scan_int :: "string \<Rightarrow> (int option \<times> string) option" where
  "scan_int inp =
     (let r = dropWhile is_space inp;
          neg = (r \<noteq> [] \<and> hd r = CHR ''-'');
          r1 = (if r \<noteq> [] \<and> (hd r = CHR ''-'' \<or> hd r = CHR ''+'') then tl r else r);
          ds = takeWhile is_digit r1;
          v = (if neg then - number ds else number ds)
      in if ds = [] then Some (None, r1)
         else if in_int v then Some (Some v, dropWhile is_digit r1)
         else None)"

text \<open>The keys whose value is read with \<^verbatim>\<open>%d\<close>, in the order of the comparisons.\<close>

definition int_key :: "bool \<Rightarrow> string \<Rightarrow> (int \<Rightarrow> ssd_config \<Rightarrow> ssd_config) option" where
  "int_key fb k =
     (if k = ''PAGE_SIZE'' then Some (\<lambda>v. PAGE_SIZE_update (\<lambda>_. v))
      else if k = ''PAGE_NB'' then Some (\<lambda>v. PAGE_NB_update (\<lambda>_. v))
      else if k = ''SECTOR_SIZE'' then Some (\<lambda>v. SECTOR_SIZE_update (\<lambda>_. v))
      else if k = ''FLASH_NB'' then Some (\<lambda>v. FLASH_NB_update (\<lambda>_. v))
      else if k = ''BLOCK_NB'' then Some (\<lambda>v. BLOCK_NB_update (\<lambda>_. v))
      else if k = ''PLANES_PER_FLASH'' then Some (\<lambda>v. PLANES_PER_FLASH_update (\<lambda>_. v))
      else if k = ''REG_WRITE_DELAY'' then Some (\<lambda>v. REG_WRITE_DELAY_update (\<lambda>_. v))
      else if k = ''CELL_PROGRAM_DELAY'' then Some (\<lambda>v. CELL_PROGRAM_DELAY_update (\<lambda>_. v))
      else if k = ''REG_READ_DELAY'' then Some (\<lambda>v. REG_READ_DELAY_update (\<lambda>_. v))
      else if k = ''CELL_READ_DELAY'' then Some (\<lambda>v. CELL_READ_DELAY_update (\<lambda>_. v))
      else if k = ''BLOCK_ERASE_DELAY'' then Some (\<lambda>v. BLOCK_ERASE_DELAY_update (\<lambda>_. v))
      else if k = ''CHANNEL_SWITCH_DELAY_R'' then Some (\<lambda>v. CHANNEL_SWITCH_DELAY_R_update (\<lambda>_. v))
      else if k = ''CHANNEL_SWITCH_DELAY_W'' then Some (\<lambda>v. CHANNEL_SWITCH_DELAY_W_update (\<lambda>_. v))
      else if k = ''DSM_TRIM_ENABLE'' then Some (\<lambda>v. DSM_TRIM_ENABLE_update (\<lambda>_. v))
      else if k = ''IO_PARALLELISM'' then Some (\<lambda>v. IO_PARALLELISM_update (\<lambda>_. v))
      else if k = ''CHANNEL_NB'' then Some (\<lambda>v. CHANNEL_NB_update (\<lambda>_. v))
      else if k = ''OVP'' then Some (\<lambda>v. OVP_update (\<lambda>_. v))
      else if fb \<and> k = ''WRITE_BUFFER_FRAME_NB'' then
        Some (\<lambda>v. WRITE_BUFFER_FRAME_NB_update (\<lambda>_. u32 v))
      else if fb \<and> k = ''READ_BUFFER_FRAME_NB'' then
        Some (\<lambda>v. READ_BUFFER_FRAME_NB_update (\<lambda>_. u32 v))
      else None)"

lemma scan_word_shorter: "scan_word inp = Some (Some (w, r)) \<Longrightarrow> length r < length inp"
proof -
  assume "scan_word inp = Some (Some (w, r))"
  then have r: "r = dropWhile (\<lambda>ch. \<not> is_space ch) (dropWhile is_space inp)"
    and ne: "dropWhile is_space inp \<noteq> []"
    by (auto simp: scan_word_def Let_def split: if_splits)
  from ne obtain x xs where x: "dropWhile is_space inp = x # xs" by (cases "dropWhile is_space inp") auto
  then have "\<not> is_space x" by (metis hd_dropWhile list.sel(1) ne)
  with x r have "length r \<le> length xs" by (simp add: length_dropWhile_le)
  also have "length xs < length inp"
    using x length_dropWhile_le [of is_space inp] by simp
  finally show ?thesis .
qed

lemma scan_int_shorter: "scan_int inp = Some (v, r) \<Longrightarrow> length r \<le> length inp"
proof -
  assume a: "scan_int inp = Some (v, r)"
  let ?d = "dropWhile is_space inp"
  let ?r1 = "if ?d \<noteq> [] \<and> (hd ?d = CHR ''-'' \<or> hd ?d = CHR ''+'') then tl ?d else ?d"
  have "length ?r1 \<le> length ?d" by (simp add: diff_le_self)
  moreover have "length ?d \<le> length inp" by (rule length_dropWhile_le)
  moreover have "length r \<le> length ?r1"
    using a by (auto simp: scan_int_def Let_def length_dropWhile_le simp del: length_tl
        split: if_splits)
  ultimately show ?thesis by linarith
qed

text \<open>The loop \<^verbatim>\<open>while(fscanf(pfData, "%s", szCommand) != EOF)\<close>.\<close>

function scan_conf :: "bool \<Rightarrow> string \<Rightarrow> ssd_config \<Rightarrow> ssd_config option" where
  "scan_conf fb inp c =
     (case scan_word inp of
        None \<Rightarrow> None
      | Some None \<Rightarrow> Some c
      | Some (Some (k, r)) \<Rightarrow>
          if k = ''FILE_NAME_HDA'' \<or> k = ''FILE_NAME_HDB'' then
            (case scan_word r of
               None \<Rightarrow> None
             | Some None \<Rightarrow> scan_conf fb r c
             | Some (Some (w, r')) \<Rightarrow>
                 scan_conf fb r' (if k = ''FILE_NAME_HDA'' then c\<lparr>FILE_NAME_HDA := w\<rparr>
                                  else c\<lparr>FILE_NAME_HDB := w\<rparr>))
          else
            (case int_key fb k of
               None \<Rightarrow> scan_conf fb r c
             | Some upd \<Rightarrow>
                 (case scan_int r of
                    None \<Rightarrow> None
                  | Some (None, r') \<Rightarrow> scan_conf fb r' c
                  | Some (Some v, r') \<Rightarrow> scan_conf fb r' (upd v c))))"
  by pat_completeness auto
termination
  by (relation "measure (\<lambda>(fb, inp, c). length inp)")
    (auto dest!: scan_word_shorter scan_int_shorter)

declare scan_conf.simps [simp del]

section \<open>The derived geometry\<close>

text \<open>Conversion of a \<^verbatim>\<open>double\<close> to \<^verbatim>\<open>int\<close> truncates.\<close>

definition ctrunc :: "real \<Rightarrow> int" where
  "ctrunc x = (if 0 \<le> x then \<lfloor>x\<rfloor> else \<lceil>x\<rceil>)"

definition gc_victim_count :: "ssd_config \<Rightarrow> int option" where
  "gc_victim_count c =
     (if OVP c \<noteq> 0 then do {
        a \<leftarrow> imul (FLASH_NB c) (BLOCK_NB c);
        b \<leftarrow> imul a (OVP c);
        Some ((b sdiv 100) sdiv 2)
      }
      else Some 20)"

text \<open>
  The second half of \<^verbatim>\<open>INIT_SSD_CONFIG\<close>. The two checks print an error and return with the
  derived globals as they are; the caller does not notice.
\<close>

definition derive_config :: "bool \<Rightarrow> ssd_config \<Rightarrow> ssd_config option" where
  "derive_config fb c =
     (if FLASH_NB c < CHANNEL_NB c then Some c
      else if PLANES_PER_FLASH c \<noteq> 1 \<and> PLANES_PER_FLASH c smod 2 \<noteq> 0 then Some c
      else if fb \<and> (WRITE_BUFFER_FRAME_NB c = 0 \<or> READ_BUFFER_FRAME_NB c = 0) then Some c
      else do {
        spp \<leftarrow> cdiv (PAGE_SIZE c) (SECTOR_SIZE c);
        ppf \<leftarrow> imul (PAGE_NB c) (BLOCK_NB c);
        s1 \<leftarrow> lmul spp (PAGE_NB c);
        s2 \<leftarrow> lmul s1 (BLOCK_NB c);
        sectors \<leftarrow> lmul s2 (FLASH_NB c);
        way \<leftarrow> cdiv (FLASH_NB c) (CHANNEL_NB c);
        blocks \<leftarrow> lmul (BLOCK_NB c) (FLASH_NB c);
        p1 \<leftarrow> lmul (PAGE_NB c) (BLOCK_NB c);
        pages \<leftarrow> lmul p1 (FLASH_NB c);
        each \<leftarrow> cdiv (BLOCK_NB c) (PLANES_PER_FLASH c);
        roots \<leftarrow> imul (FLASH_NB c) (PLANES_PER_FLASH c);
        victims \<leftarrow> gc_victim_count c;
        Some (c\<lparr>SECTORS_PER_PAGE := spp, PAGES_PER_FLASH := ppf, SECTOR_NB := sectors,
                WAY_NB := way, BLOCK_MAPPING_ENTRY_NB := blocks, PAGES_IN_SSD := pages,
                PAGE_MAPPING_ENTRY_NB := pages, EACH_EMPTY_TABLE_ENTRY_NB := each,
                EMPTY_TABLE_ENTRY_NB := roots, VICTIM_TABLE_ENTRY_NB := roots,
                DATA_BLOCK_NB := BLOCK_NB c,
                GC_THRESHOLD := 95 / 100, GC_THRESHOLD_HARD := 98 / 100,
                GC_THRESHOLD_BLOCK_NB := ctrunc ((1 - 95 / 100) * of_int blocks),
                GC_THRESHOLD_BLOCK_NB_HARD := ctrunc ((1 - 98 / 100) * of_int blocks),
                GC_THRESHOLD_BLOCK_NB_EACH := ctrunc ((1 - 95 / 100) * of_int each),
                GC_VICTIM_NB := victims\<rparr>)
      })"

text \<open>\<^verbatim>\<open>INIT_SSD_CONFIG\<close>: \<open>None\<close> for the file stands for a failed \<^verbatim>\<open>fopen\<close>.\<close>

definition INIT_SSD_CONFIG :: "bool \<Rightarrow> string option \<Rightarrow> ssd_config \<Rightarrow> ssd_config option" where
  "INIT_SSD_CONFIG fb conf_file c = do {
     c \<leftarrow> (case conf_file of None \<Rightarrow> Some c | Some inp \<Rightarrow> scan_conf fb inp c);
     derive_config fb c
   }"

end
