(* ===== verification/Vssim_Common.thy ===== *)
theory Vssim_Common
  imports Vssim_Config
begin

text \<open>
  The symbolic constants of \<^verbatim>\<open>FTL/COMMON/common.h\<close> as datatypes, the clock behind
  \<^verbatim>\<open>get_usec\<close>, and the arithmetic with which four loops of the code split a request
  of sectors into pages.
\<close>

section \<open>The constants of common.h\<close>

datatype status = SUCCESS | FAIL

datatype block_type = EMPTY_BLOCK | DATA_BLOCK

datatype victim_mode = VICTIM_OVERALL | VICTIM_INCHIP | VICTIM_NOPARAL

text \<open>The argument \<^verbatim>\<open>valid\<close> of \<^verbatim>\<open>UPDATE_BLOCK_STATE_ENTRY\<close>: \<^verbatim>\<open>VALID\<close>, \<^verbatim>\<open>INVALID\<close> or 0.\<close>

datatype page_mark = VALID | INVALID | ZERO

datatype perf_op = CH_OP | REG_OP | LATENCY_OP

datatype update_op = UPDATE_START_TIME | UPDATE_END_TIME

datatype io_op = NOOP | READ | WRITE | ERASE | GC_READ | GC_WRITE | SEQ_WRITE | RAN_WRITE
  | RAN_COLD_WRITE | RAN_HOT_WRITE | SEQ_MERGE_READ | RAN_MERGE_READ | SEQ_MERGE_WRITE
  | RAN_MERGE_WRITE | RAN_COLD_MERGE_READ | RAN_HOT_MERGE_READ | RAN_COLD_MERGE_WRITE
  | RAN_HOT_MERGE_WRITE | MAP_READ | MAP_WRITE

section \<open>The clock\<close>

text \<open>
  \<open>gt n\<close> is what the n-th call of \<^verbatim>\<open>gettimeofday\<close> stores in \<^verbatim>\<open>tv_sec\<close> and
  \<^verbatim>\<open>tv_usec\<close>. A clock advances when every moment is passed by some later call.
\<close>

type_synonym clock = "nat \<Rightarrow> int \<times> int"

definition usec_at :: "clock \<Rightarrow> nat \<Rightarrow> int" where
  "usec_at gt n = (case gt n of (sec, usec) \<Rightarrow> sec * 1000000 + usec)"

definition clock_advances :: "clock \<Rightarrow> bool" where
  "clock_advances gt \<longleftrightarrow> (\<forall>n t. \<exists>m\<ge>n. t \<le> usec_at gt m)"

section \<open>Splitting a request into pages\<close>

text \<open>
  All operands are converted to \<^verbatim>\<open>unsigned int\<close>. \<open>request_right_skip\<close> and
  \<open>request_sects\<close> are the two assignments at the head of the loops of
  \<^verbatim>\<open>_FTL_READ\<close>, \<^verbatim>\<open>_FTL_WRITE\<close> and \<^verbatim>\<open>ALLOC_IO_REQUEST\<close>.
\<close>

definition request_right_skip :: "int \<Rightarrow> int \<Rightarrow> int \<Rightarrow> int" where
  "request_right_skip spp remain left_skip =
     (if remain > u32 (spp - left_skip) then 0 else u32 (spp - left_skip - remain))"

definition request_sects :: "int \<Rightarrow> int \<Rightarrow> int \<Rightarrow> int" where
  "request_sects spp remain left_skip =
     u32 (spp - left_skip - request_right_skip spp remain left_skip)"

lemma request_sects_min:
  assumes "0 \<le> left_skip" "left_skip < spp" "spp < 4294967296" "0 \<le> remain" "remain < 4294967296"
  shows "request_sects spp remain left_skip = min remain (spp - left_skip)"
  using assms by (auto simp: request_sects_def request_right_skip_def c_arith)

lemma request_right_skip_eq:
  assumes "0 \<le> left_skip" "left_skip < spp" "spp < 4294967296" "0 \<le> remain" "remain < 4294967296"
  shows "request_right_skip spp remain left_skip = max 0 (spp - left_skip - remain)"
  using assms by (auto simp: request_right_skip_def c_arith)

text \<open>
  The number of pages that \<open>len\<close> sectors touch when the first of them has the offset
  \<open>skip\<close> in its page: what the loops count, and why they end.
\<close>

definition page_span :: "int \<Rightarrow> int \<Rightarrow> int \<Rightarrow> int" where
  "page_span spp skip len = (if len \<le> 0 then 0 else (skip + len + spp - 1) div spp)"

lemma page_span_step:
  assumes "0 \<le> skip" "skip < spp" "0 < len"
  shows "page_span spp skip len = 1 + page_span spp 0 (len - min len (spp - skip))"
proof (cases "len \<le> spp - skip")
  case True
  have "(skip + len + spp - 1) div spp = ((skip + len - 1) + 1 * spp) div spp" by (simp add: algebra_simps)
  also have "\<dots> = 1 + (skip + len - 1) div spp" using assms by (subst div_mult_self1) auto
  also have "(skip + len - 1) div spp = 0" using True assms by (intro div_pos_pos_trivial) auto
  finally show ?thesis using True assms by (simp add: page_span_def)
next
  case False
  have "(skip + len + spp - 1) div spp = ((skip + len - 1) + 1 * spp) div spp" by (simp add: algebra_simps)
  also have "\<dots> = 1 + (skip + len - 1) div spp" using assms by (subst div_mult_self1) auto
  finally show ?thesis using False assms by (simp add: page_span_def algebra_simps)
qed

lemma page_span_nonneg: "0 \<le> skip \<Longrightarrow> 0 < spp \<Longrightarrow> 0 \<le> page_span spp skip len"
  by (simp add: page_span_def pos_imp_zdiv_nonneg_iff)

lemma page_span_pos: "0 \<le> skip \<Longrightarrow> skip < spp \<Longrightarrow> 0 < len \<Longrightarrow> 0 < page_span spp skip len"
  using page_span_step [of skip spp len] page_span_nonneg [of 0 spp "len - min len (spp - skip)"]
  by simp

lemma page_span_le: "0 \<le> skip \<Longrightarrow> skip < spp \<Longrightarrow> page_span spp skip len \<le> max 0 len"
proof (induction "nat len" arbitrary: len skip rule: less_induct)
  case less
  show ?case
  proof (cases "0 < len")
    case True
    have "page_span spp 0 (len - min len (spp - skip)) \<le> max 0 (len - min len (spp - skip))"
      using less True by (intro less.hyps) auto
    then show ?thesis using True less.prems page_span_step [of skip spp len] by simp
  qed (simp add: page_span_def)
qed

section \<open>Well-formed configurations\<close>

text \<open>
  What the other components rely on: positive geometry, the derived globals as
  \<^verbatim>\<open>INIT_SSD_CONFIG\<close> computes them, the blocks of a chip divided evenly between its
  planes, and a device small enough for the \<^verbatim>\<open>int32_t\<close> sector and page numbers.
\<close>

definition wf_config :: "ssd_config \<Rightarrow> bool" where
  "wf_config c \<longleftrightarrow>
     0 < SECTORS_PER_PAGE c \<and> 0 < PAGE_NB c \<and> 0 < BLOCK_NB c \<and> 0 < FLASH_NB c \<and>
     0 < CHANNEL_NB c \<and> CHANNEL_NB c \<le> FLASH_NB c \<and> 0 < PLANES_PER_FLASH c \<and>
     PLANES_PER_FLASH c dvd BLOCK_NB c \<and>
     PAGES_PER_FLASH c = PAGE_NB c * BLOCK_NB c \<and>
     PAGES_IN_SSD c = PAGE_NB c * BLOCK_NB c * FLASH_NB c \<and>
     PAGE_MAPPING_ENTRY_NB c = PAGES_IN_SSD c \<and>
     BLOCK_MAPPING_ENTRY_NB c = BLOCK_NB c * FLASH_NB c \<and>
     SECTOR_NB c = SECTORS_PER_PAGE c * PAGES_IN_SSD c \<and>
     WAY_NB c = FLASH_NB c div CHANNEL_NB c \<and>
     EACH_EMPTY_TABLE_ENTRY_NB c = BLOCK_NB c div PLANES_PER_FLASH c \<and>
     EMPTY_TABLE_ENTRY_NB c = FLASH_NB c * PLANES_PER_FLASH c \<and>
     VICTIM_TABLE_ENTRY_NB c = FLASH_NB c * PLANES_PER_FLASH c \<and>
     SECTOR_NB c < 2147483648"

text \<open>One register, one empty list and one victim list for every plane of every chip.\<close>

abbreviation reg_count :: "ssd_config \<Rightarrow> nat" where
  "reg_count c \<equiv> nat (FLASH_NB c * PLANES_PER_FLASH c)"

lemma wf_configD:
  assumes "wf_config c"
  shows "0 < SECTORS_PER_PAGE c" "0 < PAGE_NB c" "0 < BLOCK_NB c" "0 < FLASH_NB c"
    "0 < CHANNEL_NB c" "0 < PLANES_PER_FLASH c" "PLANES_PER_FLASH c dvd BLOCK_NB c"
    "EMPTY_TABLE_ENTRY_NB c = int (reg_count c)" "VICTIM_TABLE_ENTRY_NB c = int (reg_count c)"
    "0 < reg_count c"
  using assms by (auto simp: wf_config_def)

section \<open>Configurations that INIT_SSD_CONFIG makes well formed\<close>

text \<open>What \<^verbatim>\<open>ssd.conf\<close> has to provide; only the third and fourth line are checked by the code.\<close>

definition valid_conf :: "ssd_config \<Rightarrow> bool" where
  "valid_conf c \<longleftrightarrow> 0 < SECTOR_SIZE c \<and> SECTOR_SIZE c \<le> PAGE_SIZE c \<and>
     0 < PAGE_NB c \<and> 0 < BLOCK_NB c \<and> 0 < FLASH_NB c \<and> 0 < CHANNEL_NB c \<and> 0 < PLANES_PER_FLASH c \<and>
     CHANNEL_NB c \<le> FLASH_NB c \<and>
     (PLANES_PER_FLASH c = 1 \<or> even (PLANES_PER_FLASH c)) \<and>
     PLANES_PER_FLASH c dvd BLOCK_NB c \<and>
     (PAGE_SIZE c div SECTOR_SIZE c) * (PAGE_NB c * BLOCK_NB c * FLASH_NB c) < 2147483648 \<and>
     in_int (FLASH_NB c * BLOCK_NB c * OVP c)"

lemma factor_le: "0 < a \<Longrightarrow> 0 < (b :: int) \<Longrightarrow> a \<le> a * b"
  using mult_left_mono [of 1 b a] by simp

lemma derive_config_wf:
  assumes v: "valid_conf c"
  shows "returns (derive_config False c) (\<lambda>c'. wf_config c' \<and> PAGE_NB c' = PAGE_NB c \<and> BLOCK_NB c' = BLOCK_NB c \<and>
    FLASH_NB c' = FLASH_NB c \<and> CHANNEL_NB c' = CHANNEL_NB c \<and> PLANES_PER_FLASH c' = PLANES_PER_FLASH c \<and>
    SECTORS_PER_PAGE c' = PAGE_SIZE c div SECTOR_SIZE c \<and>
    GC_VICTIM_NB c' = (if OVP c \<noteq> 0 then (FLASH_NB c * BLOCK_NB c * OVP c) sdiv 100 sdiv 2 else 20))"
proof -
  let ?S = "PAGE_SIZE c div SECTOR_SIZE c" and ?P = "PAGE_NB c" and ?B = "BLOCK_NB c" and ?F = "FLASH_NB c"
  have g: "0 < ?P" "0 < ?B" "0 < ?F" "0 < CHANNEL_NB c" "0 < PLANES_PER_FLASH c" "PLANES_PER_FLASH c dvd ?B"
    "?S * (?P * ?B * ?F) < 2147483648" "0 < SECTOR_SIZE c" "SECTOR_SIZE c \<le> PAGE_SIZE c"
    "CHANNEL_NB c \<le> ?F" "PLANES_PER_FLASH c = 1 \<or> even (PLANES_PER_FLASH c)" "in_int (?F * ?B * OVP c)"
    using v by (simp_all add: valid_conf_def)
  have S: "0 < ?S" using g(8,9) by (simp add: pos_imp_zdiv_pos_iff)
  have sd: "PAGE_SIZE c sdiv SECTOR_SIZE c = ?S" "?F sdiv CHANNEL_NB c = ?F div CHANNEL_NB c"
    "?B sdiv PLANES_PER_FLASH c = ?B div PLANES_PER_FLASH c"
    using g by (simp_all add: sdiv_nonneg)
  have PB: "0 < ?P * ?B" "0 < ?P * ?B * ?F" "0 < ?B * ?F" using g by simp_all
  have fit: "a < 2147483648" if "0 < a" "0 < b" "a * b = ?S * (?P * ?B * ?F)" for a b :: int
    using factor_le [OF that(1,2)] that(3) g(7) by simp
  have "?S * ?P < 2147483648" using g S PB by (intro fit [of _ "?B * ?F"]) (simp_all only: mult_ac mult_pos_pos)
  moreover have "?S * ?P * ?B < 2147483648" using g S by (intro fit [of _ ?F]) (simp_all only: mult_ac mult_pos_pos)
  moreover have "?P * ?B < 2147483648" using g S by (intro fit [of _ "?F * ?S"]) (simp_all only: mult_ac mult_pos_pos)
  moreover have "?B * ?F < 2147483648" using g S by (intro fit [of _ "?S * ?P"]) (simp_all only: mult_ac mult_pos_pos)
  moreover have "?P * ?B * ?F < 2147483648" using g S by (intro fit [of _ ?S]) (simp_all only: mult_ac mult_pos_pos)
  moreover have "?S * ?P * ?B * ?F < 2147483648" using g(7) by (simp only: mult_ac)
  ultimately have b: "?S * ?P < 2147483648" "?S * ?P * ?B < 2147483648" "?P * ?B < 2147483648" "?B * ?F < 2147483648"
    "?P * ?B * ?F < 2147483648" "?S * ?P * ?B * ?F < 2147483648" by - assumption+
  have "?F * PLANES_PER_FLASH c \<le> ?F * ?B" using g by (intro mult_left_mono zdvd_imp_le) simp_all
  then have b': "?F * PLANES_PER_FLASH c < 2147483648" "?F * ?B < 2147483648"
    using b(4) by (simp_all add: mult.commute)
  have pos: "0 < ?S * ?P" "0 < ?S * ?P * ?B" "0 < ?S * ?P * ?B * ?F" "0 < ?F * PLANES_PER_FLASH c" "0 < ?F * ?B"
    using g S by simp_all
  have i: "in_int (?P * ?B)" "in_int (?F * PLANES_PER_FLASH c)" "in_long (?S * ?P)" "in_long (?S * ?P * ?B)"
    "in_long (?S * ?P * ?B * ?F)" "in_long (?B * ?F)" "in_long (?P * ?B)" "in_long (?P * ?B * ?F)" "in_int (?F * ?B)"
    using b b' pos PB by (simp_all add: in_int_def in_long_def)
  have gv: "gc_victim_count c = Some (if OVP c \<noteq> 0 then (?F * ?B * OVP c) sdiv 100 sdiv 2 else 20)"
    using i(9) g(12) by (simp add: gc_victim_count_def imul_def)
  have ck: "\<not> ?F < CHANNEL_NB c" "\<not> (PLANES_PER_FLASH c \<noteq> 1 \<and> PLANES_PER_FLASH c smod 2 \<noteq> 0)"
    using g by (auto simp: smod_nonneg)
  have nz: "SECTOR_SIZE c \<noteq> 0" "CHANNEL_NB c \<noteq> 0" "PLANES_PER_FLASH c \<noteq> 0" using g by simp_all
  show ?thesis
    unfolding derive_config_def if_not_P [OF ck(1)] if_not_P [OF ck(2)] using i nz
    by (simp add: cdiv_def imul_def lmul_def sd gv) (use g S b in \<open>simp add: wf_config_def mult.assoc\<close>)
qed

end
