(* ===== verification/Perf_Manager.thy ===== *)
theory Perf_Manager
  imports Vssim_Common
begin

text \<open>
  \<^verbatim>\<open>FTL/COMMON/ftl_perf_manager.c\<close>: the pending I/O requests and the latency and
  bandwidth statistics.

  The linked list from \<^verbatim>\<open>io_request_start\<close> to \<^verbatim>\<open>io_request_end\<close> is the list
  \<open>io_requests\<close>; a pointer to one of its nodes is the node's position. Request numbers
  are 32-bit words, so the \<^verbatim>\<open>int\<close> sentinel -1 and the \<^verbatim>\<open>unsigned\<close> value
  \<^verbatim>\<open>0xffffffff\<close> are the same word, as in the C comparison. The 16-bit bit-fields of
  \<^verbatim>\<open>struct io_request\<close> are 16-bit words read with \<open>sint\<close>. The averages are \<open>real\<close>s.
\<close>

section \<open>State\<close>

record io_request =
  request_nb :: "32 word"
  request_type :: io_op
  request_size :: "16 word"
  start_count :: "16 word"
  end_count :: "16 word"
  start_time :: "int list"
  end_time :: "int list"

text \<open>The three globals \<^verbatim>\<open>avg_x_delay\<close>, \<^verbatim>\<open>total_x_count\<close> and \<^verbatim>\<open>total_x_delay\<close>.\<close>

record op_stat =
  avg_delay :: real
  total_count :: real
  total_delay :: real

record perf_state =
  ticks :: nat
  stat :: "io_op \<Rightarrow> op_stat"
  io_request_nb :: int
  io_request_seq_nb :: "32 word"
  io_requests :: "io_request list"
  read_latency_count :: real
  write_latency_count :: real
  avg_read_latency :: real
  avg_write_latency :: real
  ssd_util :: real
  written_page_nb :: int

definition zero_stat :: op_stat where
  "zero_stat = \<lparr>avg_delay = 0, total_count = 0, total_delay = 0\<rparr>"

definition INIT_PERF_CHECKER :: "'z perf_state_scheme \<Rightarrow> 'z perf_state_scheme" where
  "INIT_PERF_CHECKER s = s\<lparr>stat := (\<lambda>_. zero_stat), io_request_nb := 0,
     io_request_seq_nb := 0, io_requests := [], read_latency_count := 0,
     write_latency_count := 0, avg_read_latency := 0, avg_write_latency := 0,
     ssd_util := 0, written_page_nb := 0\<rparr>"

text \<open>\<^verbatim>\<open>get_usec\<close> of \<^verbatim>\<open>ssd_io_manager.c\<close>.\<close>

definition get_usec :: "clock \<Rightarrow> 'z perf_state_scheme \<Rightarrow> int \<times> 'z perf_state_scheme" where
  "get_usec gt s = (usec_at gt (ticks s), s\<lparr>ticks := ticks s + 1\<rparr>)"

section \<open>SEND_TO_PERF_CHECKER\<close>

text \<open>\<^verbatim>\<open>total_x_delay += delay;\<close>\<close>

definition add_delay :: "io_op \<Rightarrow> real \<Rightarrow> 'z perf_state_scheme \<Rightarrow> 'z perf_state_scheme" where
  "add_delay x delay s =
     s\<lparr>stat := (stat s)(x := (stat s x)\<lparr>total_delay := total_delay (stat s x) + delay\<rparr>)\<rparr>"

text \<open>\<^verbatim>\<open>total_x_count++; avg_x_delay = total_x_delay / total_x_count;\<close>\<close>

definition count_op :: "io_op \<Rightarrow> 'z perf_state_scheme \<Rightarrow> 'z perf_state_scheme" where
  "count_op x s =
     (let n = total_count (stat s x) + 1
      in s\<lparr>stat := (stat s)(x := (stat s x)\<lparr>total_count := n,
                                            avg_delay := total_delay (stat s x) / n\<rparr>)\<rparr>)"

definition add_written :: "int \<Rightarrow> 'z perf_state_scheme \<Rightarrow> 'z perf_state_scheme" where
  "add_written n s = s\<lparr>written_page_nb := written_page_nb s + n\<rparr>"

fun perf_ch_op :: "io_op \<Rightarrow> real \<Rightarrow> 'z perf_state_scheme \<Rightarrow> 'z perf_state_scheme" where
  "perf_ch_op READ delay s = count_op READ (add_delay READ delay s)"
| "perf_ch_op WRITE delay s = add_delay WRITE delay s"
| "perf_ch_op ERASE delay s = s"
| "perf_ch_op GC_READ delay s = add_delay GC_READ delay s"
| "perf_ch_op GC_WRITE delay s = add_delay GC_WRITE delay s"
| "perf_ch_op SEQ_WRITE delay s = add_delay SEQ_WRITE delay s"
| "perf_ch_op RAN_WRITE delay s = add_delay RAN_WRITE delay s"
| "perf_ch_op RAN_COLD_WRITE delay s = add_delay RAN_COLD_WRITE delay s"
| "perf_ch_op RAN_HOT_WRITE delay s = add_delay RAN_HOT_WRITE delay s"
| "perf_ch_op SEQ_MERGE_READ delay s = add_delay SEQ_MERGE_READ delay s"
| "perf_ch_op RAN_MERGE_READ delay s = add_delay RAN_MERGE_READ delay s"
| "perf_ch_op SEQ_MERGE_WRITE delay s = add_delay SEQ_MERGE_WRITE delay s"
| "perf_ch_op RAN_MERGE_WRITE delay s = add_delay RAN_MERGE_WRITE delay s"
| "perf_ch_op RAN_COLD_MERGE_WRITE delay s = add_delay RAN_COLD_MERGE_WRITE delay s"
| "perf_ch_op RAN_HOT_MERGE_WRITE delay s = add_delay RAN_HOT_MERGE_WRITE delay s"
| "perf_ch_op _ delay s = s"

text \<open>The hybrid-mapping writes also count as plain writes.\<close>

definition monitor_write :: "io_op \<Rightarrow> real \<Rightarrow> 'z perf_state_scheme \<Rightarrow> 'z perf_state_scheme" where
  "monitor_write x delay s =
     add_written 1 (count_op WRITE (add_delay WRITE delay (count_op x (add_delay x delay s))))"

fun perf_reg_op ::
  "ssd_config \<Rightarrow> io_op \<Rightarrow> real \<Rightarrow> 'z perf_state_scheme \<Rightarrow> 'z perf_state_scheme" where
  "perf_reg_op c READ delay s = add_delay READ delay s"
| "perf_reg_op c WRITE delay s = add_written 1 (count_op WRITE (add_delay WRITE delay s))"
| "perf_reg_op c ERASE delay s = add_written (- PAGE_NB c) s"
| "perf_reg_op c GC_READ delay s = count_op GC_READ (add_delay GC_READ delay s)"
| "perf_reg_op c GC_WRITE delay s = add_written 1 (count_op GC_WRITE (add_delay GC_WRITE delay s))"
| "perf_reg_op c SEQ_WRITE delay s = monitor_write SEQ_WRITE delay s"
| "perf_reg_op c RAN_WRITE delay s = monitor_write RAN_WRITE delay s"
| "perf_reg_op c RAN_COLD_WRITE delay s = monitor_write RAN_COLD_WRITE delay s"
| "perf_reg_op c RAN_HOT_WRITE delay s = monitor_write RAN_HOT_WRITE delay s"
| "perf_reg_op c SEQ_MERGE_READ delay s = count_op SEQ_MERGE_READ (add_delay SEQ_MERGE_READ delay s)"
| "perf_reg_op c RAN_MERGE_READ delay s = count_op RAN_MERGE_READ (add_delay RAN_MERGE_READ delay s)"
| "perf_reg_op c SEQ_MERGE_WRITE delay s =
     add_written 1 (count_op SEQ_MERGE_WRITE (add_delay SEQ_MERGE_WRITE delay s))"
| "perf_reg_op c RAN_MERGE_WRITE delay s =
     add_written 1 (count_op RAN_MERGE_WRITE (add_delay RAN_MERGE_WRITE delay s))"
| "perf_reg_op c RAN_COLD_MERGE_WRITE delay s =
     add_written 1 (count_op RAN_COLD_MERGE_WRITE (add_delay RAN_COLD_MERGE_WRITE delay s))"
| "perf_reg_op c RAN_HOT_MERGE_WRITE delay s =
     add_written 1 (count_op RAN_HOT_MERGE_WRITE (add_delay RAN_HOT_MERGE_WRITE delay s))"
| "perf_reg_op c _ delay s = s"

definition update_ssd_util :: "ssd_config \<Rightarrow> 'z perf_state_scheme \<Rightarrow> 'z perf_state_scheme" where
  "update_ssd_util c s =
     s\<lparr>ssd_util := of_int (written_page_nb s) / of_int (PAGES_IN_SSD c) * 100\<rparr>"

fun perf_latency_op :: "io_op \<Rightarrow> real \<Rightarrow> 'z perf_state_scheme \<Rightarrow> 'z perf_state_scheme" where
  "perf_latency_op READ delay s =
     s\<lparr>avg_read_latency := (avg_read_latency s * read_latency_count s + delay)
                            / (read_latency_count s + 1),
       read_latency_count := read_latency_count s + 1\<rparr>"
| "perf_latency_op WRITE delay s =
     s\<lparr>avg_write_latency := (avg_write_latency s * write_latency_count s + delay)
                             / (write_latency_count s + 1),
       write_latency_count := write_latency_count s + 1\<rparr>"
| "perf_latency_op _ delay s = s"

definition SEND_TO_PERF_CHECKER ::
  "ssd_config \<Rightarrow> io_op \<Rightarrow> int \<Rightarrow> perf_op \<Rightarrow> 'z perf_state_scheme \<Rightarrow> 'z perf_state_scheme" where
  "SEND_TO_PERF_CHECKER c op_type op_delay type s =
     (case type of
        CH_OP \<Rightarrow> perf_ch_op op_type (of_int op_delay) s
      | REG_OP \<Rightarrow> update_ssd_util c (perf_reg_op c op_type (of_int op_delay) s)
      | LATENCY_OP \<Rightarrow> perf_latency_op op_type (of_int op_delay) s)"

definition GET_IO_BANDWIDTH :: "ssd_config \<Rightarrow> real \<Rightarrow> real" where
  "GET_IO_BANDWIDTH c delay =
     (if delay \<noteq> 0 then (of_int (PAGE_SIZE c) * 1000000) / (delay * 1024 * 1024) else 0)"

section \<open>I/O requests\<close>

text \<open>
  The first loop of \<^verbatim>\<open>ALLOC_IO_REQUEST\<close>: the number of pages the request touches.
  Memory allocation is taken to succeed.
\<close>

definition count_pages :: "int \<Rightarrow> int \<Rightarrow> int \<Rightarrow> int option" where
  "count_pages spp len left_skip =
     map_option (\<lambda>(remain, left_skip, n). n)
       (while_option (\<lambda>(remain, left_skip, n). remain > 0)
          (\<lambda>(remain, left_skip, n). (u32 (remain - request_sects spp remain left_skip), 0, n + 1))
          (len, left_skip, 0))"

definition ALLOC_IO_REQUEST ::
  "clock \<Rightarrow> ssd_config \<Rightarrow> int \<Rightarrow> int \<Rightarrow> io_op \<Rightarrow> 'z perf_state_scheme
    \<Rightarrow> ((int \<times> int) \<times> 'z perf_state_scheme) option" where
  "ALLOC_IO_REQUEST gt c sector_nb len io_type s = do {
     let (start, s) = get_usec gt s;
     skip \<leftarrow> cmod sector_nb (SECTORS_PER_PAGE c);
     io_page_nb \<leftarrow> count_pages (SECTORS_PER_PAGE c) len (u32 skip);
     let req = \<lparr>request_nb = io_request_seq_nb s, request_type = io_type,
                request_size = word_of_int io_page_nb, start_count = 0, end_count = 0,
                start_time = replicate (nat io_page_nb) 0,
                end_time = replicate (nat io_page_nb) 0\<rparr>;
     reqs \<leftarrow> (if io_requests s = [] \<and> io_request_nb s = 0 then Some [req]
             else if io_requests s = [] then None
             else Some (io_requests s @ [req]));
     let s = s\<lparr>io_requests := reqs, io_request_nb := io_request_nb s + 1\<rparr>;
     let (end, s) = get_usec gt s;
     Some ((end - start, io_page_nb), s)
   }"

text \<open>
  \<^verbatim>\<open>LOOKUP_IO_REQUEST\<close> walks at most \<^verbatim>\<open>io_request_nb\<close> nodes and stops at a NULL
  \<^verbatim>\<open>next\<close>; the result is the position of the first node with that number.
\<close>

fun lookup_chain :: "32 word \<Rightarrow> nat \<Rightarrow> nat \<Rightarrow> io_request list \<Rightarrow> nat option" where
  "lookup_chain nb n i [] = None"
| "lookup_chain nb 0 i (q # qs) = None"
| "lookup_chain nb (Suc n) i (q # qs) =
     (if request_nb q = nb then Some i else lookup_chain nb n (Suc i) qs)"

definition LOOKUP_IO_REQUEST :: "32 word \<Rightarrow> 'z perf_state_scheme \<Rightarrow> nat option" where
  "LOOKUP_IO_REQUEST nb s = lookup_chain nb (nat (io_request_nb s)) 0 (io_requests s)"

text \<open>
  Unlinking a node: with one pending request both ends become NULL whatever the node is;
  otherwise the node is the head, or its predecessor is searched among the first
  \<^verbatim>\<open>io_request_nb - 1\<close> nodes.
\<close>

definition FREE_IO_REQUEST :: "nat \<Rightarrow> 'z perf_state_scheme \<Rightarrow> 'z perf_state_scheme" where
  "FREE_IO_REQUEST i s =
     (if io_request_nb s = 1 then s\<lparr>io_requests := [], io_request_nb := 0\<rparr>
      else if i = 0 then s\<lparr>io_requests := tl (io_requests s), io_request_nb := io_request_nb s - 1\<rparr>
      else if int i \<le> io_request_nb s - 1 then
        s\<lparr>io_requests := take i (io_requests s) @ drop (Suc i) (io_requests s),
          io_request_nb := io_request_nb s - 1\<rparr>
      else s)"

text \<open>
  The same for the request with the current number. When there is none, the code
  dereferences the NULL result of the lookup, unless the search for a predecessor comes
  first and fails.
\<close>

definition FREE_DUMMY_IO_REQUEST :: "'z perf_state_scheme \<Rightarrow> 'z perf_state_scheme option" where
  "FREE_DUMMY_IO_REQUEST s =
     (case LOOKUP_IO_REQUEST (io_request_seq_nb s) s of
        Some i \<Rightarrow> Some (FREE_IO_REQUEST i s)
      | None \<Rightarrow> if io_request_nb s = 1 \<or> io_requests s = [] then None else Some s)"

text \<open>The minimum of the start times and the maximum of the (completed) end times.\<close>

definition complete_end_time :: "ssd_config \<Rightarrow> io_request \<Rightarrow> int \<Rightarrow> int list \<Rightarrow> int list option" where
  "complete_end_time c q i ends = do {
     e \<leftarrow> aget ends i;
     if e = 0 then do {
       st \<leftarrow> aget (start_time q) i;
       if request_type q = READ then aset ends i (st + REG_READ_DELAY c + CELL_READ_DELAY c)
       else if request_type q = WRITE then aset ends i (st + REG_WRITE_DELAY c + CELL_PROGRAM_DELAY c)
       else Some ends
     }
     else Some ends
   }"

definition min_max_step ::
  "io_request \<Rightarrow> int list \<Rightarrow> int \<Rightarrow> int \<times> int \<Rightarrow> (int \<times> int) option" where
  "min_max_step q ends i = (\<lambda>(mn, mx). do {
     st \<leftarrow> aget (start_time q) i;
     e \<leftarrow> aget ends i;
     Some (if mn > st then st else mn, if mx < e then e else mx)
   })"

definition CALC_IO_LATENCY :: "ssd_config \<Rightarrow> io_request \<Rightarrow> int option" where
  "CALC_IO_LATENCY c q = do {
     let size = sint (request_size q);
     ends \<leftarrow> ofold (complete_end_time c q) [0..size - 1] (end_time q);
     mn \<leftarrow> aget (start_time q) 0;
     mx \<leftarrow> aget ends 0;
     (mn, mx) \<leftarrow> ofold (min_max_step q ends) [1..size - 1] (mn, mx);
     cdiv (mx - mn) size
   }"

definition stamp_request :: "int \<Rightarrow> int \<Rightarrow> update_op \<Rightarrow> io_request \<Rightarrow> io_request option" where
  "stamp_request off time type q =
     (case type of
        UPDATE_START_TIME \<Rightarrow> do {
          ts \<leftarrow> aset (start_time q) off time;
          Some (q\<lparr>start_time := ts, start_count := start_count q + 1\<rparr>)
        }
      | UPDATE_END_TIME \<Rightarrow> do {
          ts \<leftarrow> aset (end_time q) off time;
          Some (q\<lparr>end_time := ts, end_count := end_count q + 1\<rparr>)
        })"

definition UPDATE_IO_REQUEST ::
  "clock \<Rightarrow> ssd_config \<Rightarrow> 32 word \<Rightarrow> int \<Rightarrow> int \<Rightarrow> update_op \<Rightarrow> 'z perf_state_scheme
    \<Rightarrow> (int \<times> 'z perf_state_scheme) option" where
  "UPDATE_IO_REQUEST gt c nb off time type s = do {
     let (start, s) = get_usec gt s;
     if nb = -1 then Some (0, s)
     else case LOOKUP_IO_REQUEST nb s of
       None \<Rightarrow> Some (0, s)
     | Some i \<Rightarrow> do {
         q \<leftarrow> stamp_request off time type (io_requests s ! i);
         let s = s\<lparr>io_requests := (io_requests s)[i := q]\<rparr>;
         s \<leftarrow> (if start_count q = request_size q \<and> end_count q = request_size q then do {
                latency \<leftarrow> CALC_IO_LATENCY c q;
                Some (FREE_IO_REQUEST i (SEND_TO_PERF_CHECKER c (request_type q) latency LATENCY_OP s))
              }
              else Some s);
         let (end, s) = get_usec gt s;
         Some (end - start, s)
       }
   }"

definition INCREASE_IO_REQUEST_SEQ_NB :: "'z perf_state_scheme \<Rightarrow> 'z perf_state_scheme" where
  "INCREASE_IO_REQUEST_SEQ_NB s =
     (if io_request_seq_nb s = 0xffffffff then s\<lparr>io_request_seq_nb := 0\<rparr>
      else s\<lparr>io_request_seq_nb := io_request_seq_nb s + 1\<rparr>)"

section \<open>The request list stays well formed\<close>

text \<open>
  A request has as many time stamps as its size says, and at least one. \<open>off_ok nb off s\<close>:
  page \<open>off\<close> exists in every pending request with the number \<open>nb\<close>.
\<close>

definition req_ok :: "io_request \<Rightarrow> bool" where
  "req_ok q \<longleftrightarrow> 0 < sint (request_size q) \<and>
     length (start_time q) = nat (sint (request_size q)) \<and>
     length (end_time q) = nat (sint (request_size q))"

definition reqs_ok :: "'z perf_state_scheme \<Rightarrow> bool" where
  "reqs_ok s \<longleftrightarrow> io_request_nb s = int (length (io_requests s)) \<and> (\<forall>q\<in>set (io_requests s). req_ok q)"

definition off_ok :: "32 word \<Rightarrow> int \<Rightarrow> 'z perf_state_scheme \<Rightarrow> bool" where
  "off_ok nb off s \<longleftrightarrow>
     (\<forall>q\<in>set (io_requests s). request_nb q = nb \<longrightarrow> 0 \<le> off \<and> off < sint (request_size q))"

text \<open>The requests of \<open>s'\<close> are requests of \<open>s\<close>, up to their time stamps.\<close>

definition reqs_from :: "'z perf_state_scheme \<Rightarrow> 'y perf_state_scheme \<Rightarrow> bool" where
  "reqs_from s s' \<longleftrightarrow> (\<forall>q'\<in>set (io_requests s'). \<exists>q\<in>set (io_requests s).
     request_nb q' = request_nb q \<and> request_size q' = request_size q)"

lemma reqs_from_refl [simp]: "reqs_from s s"
  by (auto simp: reqs_from_def)

lemma reqs_from_trans: "reqs_from s t \<Longrightarrow> reqs_from t u \<Longrightarrow> reqs_from s u"
  unfolding reqs_from_def by metis

lemma off_ok_from: "off_ok nb off s \<Longrightarrow> reqs_from s s' \<Longrightarrow> off_ok nb off s'"
  unfolding off_ok_def reqs_from_def by metis

lemma lookup_chain_sound:
  "lookup_chain nb n i qs = Some j \<Longrightarrow>
     i \<le> j \<and> j - i < length qs \<and> j - i < n \<and> request_nb (qs ! (j - i)) = nb"
proof (induction nb n i qs rule: lookup_chain.induct)
  case (3 nb n i q qs)
  then show ?case
    by (cases "request_nb q = nb") (auto simp: Suc_diff_le nth_Cons' Suc_le_eq)
qed simp_all

lemma LOOKUP_sound:
  assumes "LOOKUP_IO_REQUEST nb s = Some i"
  shows "i < length (io_requests s)" "request_nb (io_requests s ! i) = nb" "int i < io_request_nb s"
  using lookup_chain_sound [OF assms [unfolded LOOKUP_IO_REQUEST_def]]
  by (simp_all add: zless_nat_eq_int_zless)

lemma lookup_chain_none:
  "lookup_chain nb n i qs = None \<longleftrightarrow> (\<forall>q\<in>set (take n qs). request_nb q \<noteq> nb)"
  by (induction nb n i qs rule: lookup_chain.induct) auto

lemma LOOKUP_none:
  assumes "reqs_ok s"
  shows "LOOKUP_IO_REQUEST nb s = None \<longleftrightarrow> (\<forall>q\<in>set (io_requests s). request_nb q \<noteq> nb)"
  using assms by (simp add: LOOKUP_IO_REQUEST_def lookup_chain_none reqs_ok_def)

lemma CALC_IO_LATENCY_returns:
  assumes q: "req_ok q"
  shows "returns (CALC_IO_LATENCY c q) (\<lambda>_. True)"
proof -
  let ?n = "sint (request_size q)"
  have n: "0 < ?n" "length (start_time q) = nat ?n" "length (end_time q) = nat ?n"
    using q by (simp_all add: req_ok_def)
  have ends: "returns (ofold (complete_end_time c q) [0..?n - 1] (end_time q)) (\<lambda>e. length e = nat ?n)"
    by (rule ofold_inv) (use n in \<open>auto simp: complete_end_time_def vc\<close>)
  have mm: "returns (ofold (min_max_step q ends) [1..?n - 1] p) (\<lambda>(mn, mx). ?n \<noteq> 0)"
    if "length ends = nat ?n" for ends p
    by (rule ofold_inv) (use n that in \<open>auto simp: min_max_step_def vc split: prod.splits\<close>)
  show ?thesis
    unfolding CALC_IO_LATENCY_def Let_def vc
    by (rule returns_mono [OF ends]) (use n mm in simp)
qed

lemma SEND_fields [simp]:
  "io_requests (SEND_TO_PERF_CHECKER c x d t s) = io_requests s"
  "io_request_nb (SEND_TO_PERF_CHECKER c x d t s) = io_request_nb s"
  "io_request_seq_nb (SEND_TO_PERF_CHECKER c x d t s) = io_request_seq_nb s"
  "ticks (SEND_TO_PERF_CHECKER c x d t s) = ticks s"
  "perf_state.more (SEND_TO_PERF_CHECKER c x d t s) = perf_state.more s"
  by (cases t; cases x; simp add: SEND_TO_PERF_CHECKER_def update_ssd_util_def add_delay_def
      count_op_def add_written_def monitor_write_def Let_def)+

lemma FREE_IO_REQUEST_eq:
  assumes "reqs_ok s" "i < length (io_requests s)"
  shows "FREE_IO_REQUEST i s = s\<lparr>io_requests := take i (io_requests s) @ drop (Suc i) (io_requests s),
    io_request_nb := io_request_nb s - 1\<rparr>"
proof (cases "io_request_nb s = 1")
  case True
  then have "i = 0" "length (io_requests s) = 1" using assms by (auto simp: reqs_ok_def)
  then show ?thesis using True by (simp add: FREE_IO_REQUEST_def)
next
  case False
  then show ?thesis
    using assms by (cases "i = 0") (auto simp: FREE_IO_REQUEST_def reqs_ok_def drop_Suc)
qed

lemma FREE_fields [simp]:
  "io_request_seq_nb (FREE_IO_REQUEST i s) = io_request_seq_nb s"
  "ticks (FREE_IO_REQUEST i s) = ticks s"
  "perf_state.more (FREE_IO_REQUEST i s) = perf_state.more s"
  by (simp_all add: FREE_IO_REQUEST_def)

lemma UPDATE_IO_REQUEST_returns:
  assumes s: "reqs_ok s" and off: "nb = -1 \<or> off_ok nb off s"
  shows "returns (UPDATE_IO_REQUEST gt c nb off t ty s) (\<lambda>(ov, s'). reqs_ok s' \<and> reqs_from s s' \<and>
    io_request_seq_nb s' = io_request_seq_nb s \<and> perf_state.more s' = perf_state.more s)"
proof (cases "nb = -1 \<or> LOOKUP_IO_REQUEST nb (s\<lparr>ticks := ticks s + 1\<rparr>) = None")
  case True
  then show ?thesis
    using s by (auto simp: UPDATE_IO_REQUEST_def get_usec_def reqs_ok_def reqs_from_def)
next
  case False
  then obtain i where l: "LOOKUP_IO_REQUEST nb (s\<lparr>ticks := ticks s + 1\<rparr>) = Some i" and nb: "nb \<noteq> -1"
    by auto
  let ?q = "io_requests s ! i"
  have i: "i < length (io_requests s)" "request_nb ?q = nb" using LOOKUP_sound [OF l] by simp_all
  then have q: "?q \<in> set (io_requests s)" by simp
  have o: "0 \<le> off" "off < sint (request_size ?q)" using off nb q i(2) by (auto simp: off_ok_def)
  have qok: "req_ok ?q" using s q by (simp add: reqs_ok_def)
  obtain q' where q': "stamp_request off t ty ?q = Some q'" "req_ok q'"
    "request_nb q' = nb" "request_size q' = request_size ?q" "request_type q' = request_type ?q"
    using o qok i(2) by (cases ty) (auto simp: stamp_request_def aset_def req_ok_def)
  let ?s = "s\<lparr>ticks := ticks s + 1, io_requests := (io_requests s)[i := q']\<rparr>"
  have upd: "\<forall>x\<in>set ((io_requests s)[i := q']). req_ok x \<and> (\<exists>q\<in>set (io_requests s).
      request_nb x = request_nb q \<and> request_size x = request_size q)"
  proof
    fix x
    assume "x \<in> set ((io_requests s)[i := q'])"
    then have "x = q' \<or> x \<in> set (io_requests s)"
      using set_update_subset_insert [of "io_requests s" i q'] by auto
    then show "req_ok x \<and> (\<exists>q\<in>set (io_requests s).
      request_nb x = request_nb q \<and> request_size x = request_size q)"
      using s q q' i(2) unfolding reqs_ok_def by metis
  qed
  have s1: "reqs_ok ?s" "reqs_from s ?s"
    using upd s by (auto simp: reqs_ok_def reqs_from_def)
  obtain l' where l': "CALC_IO_LATENCY c q' = Some l'"
    using CALC_IO_LATENCY_returns [OF q'(2)] by (auto simp: returns_def)
  let ?t = "SEND_TO_PERF_CHECKER c (request_type q') l' LATENCY_OP ?s"
  have t: "reqs_ok ?t" using s1 by (simp add: reqs_ok_def)
  have fr: "FREE_IO_REQUEST i ?t = ?t\<lparr>io_requests := take i (io_requests ?t) @ drop (Suc i) (io_requests ?t),
      io_request_nb := io_request_nb ?t - 1\<rparr>"
    by (rule FREE_IO_REQUEST_eq [OF t]) (simp add: i)
  have sub: "set (take i (io_requests ?t) @ drop (Suc i) (io_requests ?t)) \<subseteq> set (io_requests ?s)"
    by (auto dest: in_set_takeD in_set_dropD simp del: drop_update_cancel take_update_cancel)
  have len: "int (length (take i (io_requests ?t) @ drop (Suc i) (io_requests ?t))) = io_request_nb ?t - 1"
    using i(1) s by (auto simp: reqs_ok_def)
  have f: "reqs_ok (FREE_IO_REQUEST i ?t)" "reqs_from s (FREE_IO_REQUEST i ?t)"
    using len sub s1 unfolding fr reqs_ok_def reqs_from_def by auto
  show ?thesis
    using nb l q'(1) l' s1 f
    by (simp add: UPDATE_IO_REQUEST_def get_usec_def Let_def reqs_ok_def reqs_from_def)
qed

lemma count_pages_span:
  assumes "0 \<le> skip" "skip < spp" "spp < 4294967296" "0 \<le> len" "len < 4294967296"
  shows "count_pages spp len skip = Some (page_span spp skip len)"
proof -
  let ?I = "\<lambda>(r, k, n). 0 \<le> r \<and> r < 4294967296 \<and> 0 \<le> k \<and> k < spp \<and>
    n + page_span spp k r = page_span spp skip len"
  let ?b = "\<lambda>(r :: int, k :: int, n :: int). 0 < r"
  let ?f = "\<lambda>(r, k, n). (u32 (r - request_sects spp r k), 0, n + 1)"
  have step: "?I (?f x) \<and> nat (fst (?f x)) < nat (fst x)" if I: "?I x" and b: "?b x" for x
  proof -
    obtain r k n where x: "x = (r, k, n)" by (cases x)
    have b: "0 \<le> k" "k < spp" "0 < r" "r < 4294967296" using I b x by simp_all
    have sects: "request_sects spp r k = min r (spp - k)"
      using b assms by (intro request_sects_min) auto
    then have "u32 (r - request_sects spp r k) = r - min r (spp - k)"
      using b by (simp add: u32_id)
    then show ?thesis using I x b page_span_step [of k spp r] by simp
  qed
  have "\<exists>t. while_option ?b ?f (len, skip, 0) = Some t"
    by (rule measure_while_option_Some [where P = ?I and f = "\<lambda>x. nat (fst x)"])
      (use step assms in \<open>auto\<close>)
  then obtain r k n where w: "while_option ?b ?f (len, skip, 0) = Some (r, k, n)" by auto
  have "?I (r, k, n)"
    using while_option_rule [where P = ?I, OF _ w] step assms by auto
  moreover have "\<not> 0 < r" using while_option_stop [OF w] by simp
  ultimately have "n = page_span spp skip len" by (auto simp: page_span_def split: if_splits)
  then show ?thesis using w by (simp add: count_pages_def)
qed

text \<open>A new request: its number is the current sequence number, its size the page count.\<close>

lemma ALLOC_IO_REQUEST_returns:
  assumes s: "reqs_ok s" and spp: "0 < SECTORS_PER_PAGE c" "SECTORS_PER_PAGE c < 4294967296"
    and sec: "0 \<le> sector_nb" and len: "0 < len" "len < 4294967296"
    and small: "page_span (SECTORS_PER_PAGE c) (sector_nb mod SECTORS_PER_PAGE c) len < 32768"
  shows "returns (ALLOC_IO_REQUEST gt c sector_nb len ty s) (\<lambda>((ov, n), s').
    n = page_span (SECTORS_PER_PAGE c) (sector_nb mod SECTORS_PER_PAGE c) len \<and>
    reqs_ok s' \<and> io_request_seq_nb s' = io_request_seq_nb s \<and>
    perf_state.more s' = perf_state.more s \<and>
    (\<exists>q. io_requests s' = io_requests s @ [q] \<and> request_nb q = io_request_seq_nb s \<and>
       request_type q = ty \<and> sint (request_size q) = n))"
proof -
  let ?spp = "SECTORS_PER_PAGE c" and ?skip = "sector_nb mod SECTORS_PER_PAGE c"
  let ?n = "page_span ?spp ?skip len"
  have skip: "0 \<le> ?skip" "?skip < ?spp" using spp by simp_all
  have n: "0 < ?n" by (rule page_span_pos [OF skip len(1)])
  have sm: "sector_nb smod ?spp = ?skip" using sec spp by (simp add: smod_nonneg)
  have u: "u32 ?skip = ?skip" using skip spp by (intro u32_id) linarith+
  have cp: "count_pages ?spp len ?skip = Some ?n" using skip spp len by (intro count_pages_span) auto
  have sz: "sint (word_of_int ?n :: 16 word) = ?n"
    using n small by (simp add: signed_of_int signed_take_bit_int_eq_self)
  show ?thesis
    using s n spp
    by (auto simp: ALLOC_IO_REQUEST_def get_usec_def Let_def vc cmod_def sm u cp sz reqs_ok_def req_ok_def)
qed

section \<open>Latency of a request\<close>

text \<open>The end time of a page, or what the device would take for it if it was never stamped.\<close>

definition completed_ends :: "ssd_config \<Rightarrow> io_request \<Rightarrow> int list" where
  "completed_ends c q = map2 (\<lambda>st e. if e \<noteq> 0 then e
     else if request_type q = READ then st + REG_READ_DELAY c + CELL_READ_DELAY c
     else if request_type q = WRITE then st + REG_WRITE_DELAY c + CELL_PROGRAM_DELAY c
     else e) (start_time q) (end_time q)"

lemma complete_ends_loop:
  assumes q: "req_ok q"
  shows "ofold (complete_end_time c q) [0..sint (request_size q) - 1] (end_time q) = Some (completed_ends c q)"
proof -
  let ?n = "sint (request_size q)"
  have n: "0 < ?n" "length (start_time q) = nat ?n" "length (end_time q) = nat ?n"
    using q by (simp_all add: req_ok_def)
  have len: "length (completed_ends c q) = nat ?n" using n by (simp add: completed_ends_def)
  have nth: "completed_ends c q ! i = (if end_time q ! i \<noteq> 0 then end_time q ! i
     else if request_type q = READ then start_time q ! i + REG_READ_DELAY c + CELL_READ_DELAY c
     else if request_type q = WRITE then start_time q ! i + REG_WRITE_DELAY c + CELL_PROGRAM_DELAY c
     else end_time q ! i)" if "i < nat ?n" for i
    using that n by (simp add: completed_ends_def)
  have "returns (ofold (complete_end_time c q) [0..?n - 1] (end_time q))
      (\<lambda>e. e = take (nat ?n) (completed_ends c q) @ drop (nat ?n) (end_time q))"
  proof (rule ofold_range [where I = "\<lambda>i e. e = take (nat i) (completed_ends c q) @ drop (nat i) (end_time q)"])
    fix i e
    assume i: "0 \<le> i" "i < ?n" and e: "e = take (nat i) (completed_ends c q) @ drop (nat i) (end_time q)"
    have ni: "nat i < nat ?n" "nat (i + 1) = Suc (nat i)" using i by simp_all
    have el: "length e = nat ?n" "e ! nat i = end_time q ! nat i" using ni n len by (simp_all add: e nth_append)
    have upd: "e[nat i := x] = take (nat i) (completed_ends c q) @ x # drop (Suc (nat i)) (end_time q)" for x
      using ni n len by (simp add: e list_update_append Cons_nth_drop_Suc [symmetric])
    have same: "e = take (nat i) (completed_ends c q) @ end_time q ! nat i # drop (Suc (nat i)) (end_time q)"
      using ni n by (simp add: e Cons_nth_drop_Suc)
    have tk: "take (Suc (nat i)) (completed_ends c q) = take (nat i) (completed_ends c q) @ [completed_ends c q ! nat i]"
      using ni len by (simp add: take_Suc_conv_app_nth)
    show "returns (complete_end_time c q i e)
        (\<lambda>e. e = take (nat (i + 1)) (completed_ends c q) @ drop (nat (i + 1)) (end_time q))"
      unfolding ni(2) tk using i n el nth [OF ni(1)] upd same
      by (auto simp: complete_end_time_def vc)
  qed (use n in simp_all)
  then show ?thesis using len n by (simp add: returns_def)
qed

lemma min_max_loop:
  assumes "xs \<noteq> []" "length ys = length xs" "xs = start_time q"
  shows "ofold (min_max_step q ys) [1..int (length xs) - 1] (xs ! 0, ys ! 0) = Some (Min (set xs), Max (set ys))"
proof -
  let ?n = "int (length xs)"
  have tk: "set (take (nat (i + 1)) zs) = insert (zs ! nat i) (set (take (nat i) zs))"
    if "0 \<le> i" "nat i < length zs" for i :: int and zs :: "int list"
  proof -
    have "nat (i + 1) = Suc (nat i)" using that(1) by simp
    then show ?thesis using that(2) by (simp add: take_Suc_conv_app_nth)
  qed
  have "returns (ofold (min_max_step q ys) [1..?n - 1] (xs ! 0, ys ! 0))
      (\<lambda>p. p = (Min (set (take (nat ?n) xs)), Max (set (take (nat ?n) ys))))"
  proof (rule ofold_range_from [where I = "\<lambda>i p. p = (Min (set (take (nat i) xs)), Max (set (take (nat i) ys)))"])
    show "1 \<le> ?n" using assms(1) by (cases xs) auto
    show "(xs ! 0, ys ! 0) = (Min (set (take (nat 1) xs)), Max (set (take (nat 1) ys)))"
      using assms(1,2) by (cases xs; cases ys) auto
  next
    fix i p
    assume i: "1 \<le> i" "i < ?n" and p: "p = (Min (set (take (nat i) xs)), Max (set (take (nat i) ys)))"
    have ne: "take (nat i) xs \<noteq> []" "take (nat i) ys \<noteq> []" using i assms by auto
    have b: "0 \<le> i" "nat i < length xs" "nat i < length ys" using i assms(2) by simp_all
    define m M where "m = Min (set (take (nat i) xs))" and "M = Max (set (take (nat i) ys))"
    have "Min (insert (xs ! nat i) (set (take (nat i) xs))) = min (xs ! nat i) m"
      "Max (insert (ys ! nat i) (set (take (nat i) ys))) = max (ys ! nat i) M"
      unfolding m_def M_def using ne by (intro Min_insert Max_insert; simp)+
    then show "returns (min_max_step q ys i p) (\<lambda>p. p = (Min (set (take (nat (i + 1)) xs)), Max (set (take (nat (i + 1)) ys))))"
      unfolding p tk [OF b(1,2)] tk [OF b(1,3)] m_def [symmetric] M_def [symmetric] using b i assms(2,3)
      by (auto simp: min_max_step_def vc)
  qed
  then show ?thesis using assms by (simp add: returns_def)
qed

lemma CALC_IO_LATENCY_eq:
  assumes q: "req_ok q"
  shows "CALC_IO_LATENCY c q =
    Some ((Max (set (completed_ends c q)) - Min (set (start_time q))) sdiv sint (request_size q))"
proof -
  let ?n = "sint (request_size q)"
  have n: "0 < ?n" "length (start_time q) = nat ?n" "length (end_time q) = nat ?n"
    using q by (simp_all add: req_ok_def)
  have len: "length (completed_ends c q) = length (start_time q)" using n by (simp add: completed_ends_def)
  have ne: "start_time q \<noteq> []" using n by auto
  have eq: "int (length (start_time q)) = ?n" "completed_ends c q \<noteq> []" using n len by auto
  show ?thesis
    using min_max_loop [OF ne len refl] complete_ends_loop [OF q, of c] n len
    by (simp add: CALC_IO_LATENCY_def Let_def aget_def cdiv_def eq)
qed


section \<open>Life of a request\<close>

definition stamped :: "int \<Rightarrow> int \<Rightarrow> update_op \<Rightarrow> io_request \<Rightarrow> io_request" where
  "stamped off time type q = (case type of
     UPDATE_START_TIME \<Rightarrow> q\<lparr>start_time := (start_time q)[nat off := time], start_count := start_count q + 1\<rparr>
   | UPDATE_END_TIME \<Rightarrow> q\<lparr>end_time := (end_time q)[nat off := time], end_count := end_count q + 1\<rparr>)"

definition all_stamped :: "io_request \<Rightarrow> bool" where
  "all_stamped q \<longleftrightarrow> start_count q = request_size q \<and> end_count q = request_size q"

lemma stamped_fields [simp]:
  "request_nb (stamped off t ty q) = request_nb q" "request_size (stamped off t ty q) = request_size q"
  "request_type (stamped off t ty q) = request_type q" "req_ok (stamped off t ty q) = req_ok q"
  by (cases ty; simp add: stamped_def req_ok_def)+

lemma lookup_first:
  assumes "\<forall>p\<in>set pre. request_nb p \<noteq> nb" "request_nb q = nb" "length pre < n"
  shows "lookup_chain nb n i (pre @ q # post) = Some (i + length pre)"
  using assms
proof (induction pre arbitrary: n i)
  case Nil
  then show ?case by (cases n) simp_all
next
  case (Cons p pre)
  then show ?case by (cases n) simp_all
qed

text \<open>
  One stamp for page \<open>off\<close> of the first pending request with number \<open>nb\<close>: the request is
  updated, or, if that was the last stamp, reported and removed.
\<close>

definition latency_count :: "io_op \<Rightarrow> 'z perf_state_scheme \<Rightarrow> real" where
  "latency_count ty s = (if ty = READ then read_latency_count s else if ty = WRITE then write_latency_count s else 0)"

lemma UPDATE_IO_REQUEST_stamps:
  assumes s: "reqs_ok s" "io_requests s = pre @ q # post"
    and nb: "nb \<noteq> -1" "request_nb q = nb" "\<forall>p\<in>set pre. request_nb p \<noteq> nb"
    and off: "0 \<le> off" "off < sint (request_size q)"
  shows "returns (UPDATE_IO_REQUEST gt c nb off t ty s) (\<lambda>(ov, s'). reqs_ok s' \<and>
    (if all_stamped (stamped off t ty q)
     then io_requests s' = pre @ post \<and>
       (request_type q \<in> {READ, WRITE} \<longrightarrow> latency_count (request_type q) s' = latency_count (request_type q) s + 1)
     else io_requests s' = pre @ stamped off t ty q # post \<and>
       latency_count (request_type q) s' = latency_count (request_type q) s))"
proof -
  let ?q = "stamped off t ty q" and ?s = "s\<lparr>ticks := ticks s + 1\<rparr>"
  have n: "io_request_nb s = int (length (pre @ q # post))" and ok: "\<forall>x\<in>set (pre @ q # post). req_ok x"
    using s unfolding reqs_ok_def by auto
  have l: "LOOKUP_IO_REQUEST nb ?s = Some (length pre)"
    using lookup_first [OF nb(3,2), of "nat (io_request_nb s)" 0 post] n s(2) by (simp add: LOOKUP_IO_REQUEST_def)
  have st: "stamp_request off t ty q = Some ?q"
    using off ok by (cases ty) (auto simp: stamp_request_def stamped_def aset_def req_ok_def)
  let ?s1 = "?s\<lparr>io_requests := pre @ ?q # post\<rparr>"
  have s1: "reqs_ok ?s1" using n ok by (auto simp: reqs_ok_def)
  show ?thesis
  proof (cases "all_stamped ?q")
    case False
    then have "UPDATE_IO_REQUEST gt c nb off t ty s =
        Some (usec_at gt (ticks ?s1) - usec_at gt (ticks s), ?s1\<lparr>ticks := ticks ?s1 + 1\<rparr>)"
      using nb(1) l st s(2) by (auto simp: UPDATE_IO_REQUEST_def get_usec_def Let_def all_stamped_def)
    then show ?thesis using False s1 by (simp add: reqs_ok_def latency_count_def)
  next
    case True
    obtain l' where l': "CALC_IO_LATENCY c ?q = Some l'"
      using CALC_IO_LATENCY_returns [of ?q c] ok by (auto simp: returns_def)
    let ?s2 = "SEND_TO_PERF_CHECKER c (request_type q) l' LATENCY_OP ?s1"
    have s2: "reqs_ok ?s2" using s1 by (simp add: reqs_ok_def)
    have f: "FREE_IO_REQUEST (length pre) ?s2 = ?s2\<lparr>io_requests := pre @ post, io_request_nb := io_request_nb s - 1\<rparr>"
      using FREE_IO_REQUEST_eq [OF s2, of "length pre"] by simp
    have "UPDATE_IO_REQUEST gt c nb off t ty s = Some (usec_at gt (ticks ?s1) - usec_at gt (ticks s),
        ?s2\<lparr>io_requests := pre @ post, io_request_nb := io_request_nb s - 1, ticks := ticks ?s1 + 1\<rparr>)"
      using nb(1) l st s(2) True l' f
      by (simp add: UPDATE_IO_REQUEST_def get_usec_def Let_def all_stamped_def)
    moreover have "request_type q \<in> {READ, WRITE} \<longrightarrow>
        latency_count (request_type q) ?s2 = latency_count (request_type q) s + 1"
      by (auto simp: SEND_TO_PERF_CHECKER_def latency_count_def)
    ultimately show ?thesis using True n ok by (auto simp: reqs_ok_def latency_count_def)
  qed
qed


text \<open>
  A sequence of stamps \<open>(off, time, type)\<close> for the pages of one request, and how many of
  them are of one type.
\<close>

definition stamp_pages ::
  "clock \<Rightarrow> ssd_config \<Rightarrow> 32 word \<Rightarrow> (int \<times> int \<times> update_op) list \<Rightarrow> 'z perf_state_scheme \<Rightarrow> 'z perf_state_scheme option" where
  "stamp_pages gt c nb = ofold (\<lambda>(off, t, ty) s. map_option snd (UPDATE_IO_REQUEST gt c nb off t ty s))"

definition stamps_of :: "update_op \<Rightarrow> (int \<times> int \<times> update_op) list \<Rightarrow> nat" where
  "stamps_of ty xs = length (filter (\<lambda>(off, t, ty'). ty' = ty) xs)"

lemma stamps_of_simps [simp]:
  "stamps_of ty [] = 0"
  "stamps_of ty ((off, t, ty') # xs) = (if ty' = ty then Suc (stamps_of ty xs) else stamps_of ty xs)"
  by (simp_all add: stamps_of_def)

lemma count_word_eq: "a < 65536 \<Longrightarrow> b < 65536 \<Longrightarrow> (of_nat a = (of_nat b :: 16 word)) = (a = b)"
  by (auto dest!: arg_cong [where f = unat] simp: unsigned_of_nat take_bit_eq_mod)

lemma no_stamps: "stamps_of UPDATE_START_TIME xs = 0 \<Longrightarrow> stamps_of UPDATE_END_TIME xs = 0 \<Longrightarrow> xs = []"
proof (cases xs)
  case (Cons x xs')
  assume "stamps_of UPDATE_START_TIME xs = 0" "stamps_of UPDATE_END_TIME xs = 0"
  then show ?thesis using Cons by (cases x; cases "snd (snd x)") auto
qed

text \<open>\<open>counted q a b\<close>: \<open>a\<close> start and \<open>b\<close> end times of \<open>q\<close> have been stamped.\<close>

definition counted :: "io_request \<Rightarrow> nat \<Rightarrow> nat \<Rightarrow> bool" where
  "counted q a b \<longleftrightarrow> start_count q = of_nat a \<and> end_count q = of_nat b"

lemma all_stamped_counted:
  assumes "req_ok q" "counted q a b" "a \<le> nat (sint (request_size q))" "b \<le> nat (sint (request_size q))"
  shows "all_stamped q \<longleftrightarrow> a = nat (sint (request_size q)) \<and> b = nat (sint (request_size q))"
proof -
  let ?n = "nat (sint (request_size q))"
  have n: "?n < 32768" using sint_lt [of "request_size q"] by simp
  have "request_size q = of_nat ?n"
    using assms(1) by (simp add: req_ok_def)
  then show ?thesis
    using assms n count_word_eq [of a ?n] count_word_eq [of b ?n] by (auto simp: all_stamped_def counted_def)
qed

lemma stamped_counted:
  "counted q a b \<Longrightarrow> counted (stamped off t ty q)
     (if ty = UPDATE_START_TIME then Suc a else a) (if ty = UPDATE_END_TIME then Suc b else b)"
  by (cases ty) (simp_all add: counted_def stamped_def)

lemma stamp_pages_life:
  assumes "reqs_ok s" "io_requests s = pre @ q # post"
    and "nb \<noteq> -1" "request_nb q = nb" "\<forall>p\<in>set pre. request_nb p \<noteq> nb"
    and "n = nat (sint (request_size q))"
    and "\<forall>(off, t, ty)\<in>set xs. 0 \<le> off \<and> off < int n"
    and "counted q a b" "a + stamps_of UPDATE_START_TIME xs \<le> n" "b + stamps_of UPDATE_END_TIME xs \<le> n"
    and "\<not> (a = n \<and> b = n)"
  shows "returns (stamp_pages gt c nb xs s) (\<lambda>s'. reqs_ok s' \<and>
    (if a + stamps_of UPDATE_START_TIME xs = n \<and> b + stamps_of UPDATE_END_TIME xs = n
     then io_requests s' = pre @ post \<and>
       (request_type q \<in> {READ, WRITE} \<longrightarrow> latency_count (request_type q) s' = latency_count (request_type q) s + 1)
     else \<exists>q'. io_requests s' = pre @ q' # post \<and> request_nb q' = nb \<and> request_size q' = request_size q))"
  using assms
proof (induction xs arbitrary: s q a b)
  case Nil
  then show ?case by (auto simp: stamp_pages_def)
next
  case (Cons x xs)
  obtain off t ty where x: "x = (off, t, ty)" by (cases x)
  let ?q = "stamped off t ty q" and ?a = "if ty = UPDATE_START_TIME then Suc a else a"
    and ?b = "if ty = UPDATE_END_TIME then Suc b else b"
  have ok: "req_ok ?q" and off: "0 \<le> off" "off < sint (request_size q)"
    using Cons.prems by (auto simp: reqs_ok_def x split: if_splits)
  have all: "all_stamped ?q \<longleftrightarrow> ?a = n \<and> ?b = n"
    using all_stamped_counted [OF ok stamped_counted [OF Cons.prems(8)]] Cons.prems(6,9,10)
    by (cases ty) (auto simp: x)
  note step = UPDATE_IO_REQUEST_stamps [OF Cons.prems(1-5) off, of gt c t ty]
  show ?case
  proof (cases "all_stamped ?q")
    case True
    then have "xs = []" using Cons.prems(9,10) all
      by (intro no_stamps; cases ty) (auto simp: x)
    then show ?thesis using step True all
      by (auto simp: stamp_pages_def x returns_def)
  next
    case False
    obtain ov s1 where s1: "UPDATE_IO_REQUEST gt c nb off t ty s = Some (ov, s1)" "reqs_ok s1"
      "io_requests s1 = pre @ ?q # post" "latency_count (request_type q) s1 = latency_count (request_type q) s"
      using step False by (auto simp: returns_def)
    have "returns (stamp_pages gt c nb xs s1) (\<lambda>s'. reqs_ok s' \<and>
      (if ?a + stamps_of UPDATE_START_TIME xs = n \<and> ?b + stamps_of UPDATE_END_TIME xs = n
       then io_requests s' = pre @ post \<and>
         (request_type ?q \<in> {READ, WRITE} \<longrightarrow> latency_count (request_type ?q) s' = latency_count (request_type ?q) s1 + 1)
       else \<exists>q'. io_requests s' = pre @ q' # post \<and> request_nb q' = nb \<and> request_size q' = request_size ?q))"
    proof (rule Cons.IH [OF s1(2,3) Cons.prems(3)])
      show "counted ?q ?a ?b" by (rule stamped_counted [OF Cons.prems(8)])
      show "\<not> (?a = n \<and> ?b = n)" using False all by simp
    qed (use Cons.prems in \<open>simp_all add: x split: if_splits\<close>)
    note rest = this [unfolded stamped_fields s1(4)]
    have run: "stamp_pages gt c nb (x # xs) s = stamp_pages gt c nb xs s1"
      using s1(1) by (simp add: stamp_pages_def x)
    show ?thesis unfolding run by (rule returns_mono [OF rest]) (cases ty; auto simp: x)
  qed
qed



section \<open>The average latency\<close>

definition avg_latency :: "io_op \<Rightarrow> 'z perf_state_scheme \<Rightarrow> real" where
  "avg_latency ty s = (if ty = READ then avg_read_latency s else if ty = WRITE then avg_write_latency s else 0)"

definition report_latencies :: "ssd_config \<Rightarrow> (io_op \<times> int) list \<Rightarrow> 'z perf_state_scheme \<Rightarrow> 'z perf_state_scheme" where
  "report_latencies c = fold (\<lambda>(ty, l). SEND_TO_PERF_CHECKER c ty l LATENCY_OP)"

definition latencies_of :: "io_op \<Rightarrow> (io_op \<times> int) list \<Rightarrow> int list" where
  "latencies_of ty rs = map snd (filter (\<lambda>r. fst r = ty) rs)"

lemma report_latencies_sums:
  assumes "ty \<in> {READ, WRITE}" "0 \<le> latency_count ty s"
  shows "latency_count ty (report_latencies c rs s) = latency_count ty s + length (latencies_of ty rs) \<and>
    avg_latency ty (report_latencies c rs s) * latency_count ty (report_latencies c rs s) =
       avg_latency ty s * latency_count ty s + of_int (sum_list (latencies_of ty rs))"
  using assms(2)
proof (induction rs arbitrary: s)
  case Nil
  show ?case by (simp add: report_latencies_def latencies_of_def)
next
  case (Cons r rs)
  obtain ty' l where r: "r = (ty', l)" by (cases r)
  let ?s = "SEND_TO_PERF_CHECKER c ty' l LATENCY_OP s"
  have run: "report_latencies c (r # rs) s = report_latencies c rs ?s" by (simp add: report_latencies_def r)
  have n: "latency_count ty ?s = latency_count ty s + (if ty' = ty then 1 else 0)"
    using assms(1) by (cases ty') (auto simp: SEND_TO_PERF_CHECKER_def latency_count_def)
  have a: "avg_latency ty ?s * latency_count ty ?s =
      avg_latency ty s * latency_count ty s + (if ty' = ty then of_int l else 0)"
    using assms(1) Cons.prems
    by (cases ty') (auto simp: SEND_TO_PERF_CHECKER_def latency_count_def avg_latency_def)
  have l: "latencies_of ty (r # rs) = (if ty' = ty then [l] else []) @ latencies_of ty rs"
    by (simp add: latencies_of_def r)
  have "0 \<le> latency_count ty ?s" using Cons.prems n by simp
  note IH = Cons.IH [OF this, unfolded a]
  show ?case unfolding run l IH [THEN conjunct2] unfolding IH [THEN conjunct1] n by simp
qed

end
