(* ===== verification/Io_Manager.thy ===== *)
theory Io_Manager
  imports Perf_Manager
begin

text \<open>
  \<^verbatim>\<open>SSD_MODULE/ssd_io_manager.c\<close> as built by \<^verbatim>\<open>LOCAL/makefile\<close> (\<^verbatim>\<open>VSSIM_BENCH\<close>, so no
  correction for QEMU): the registers of the flash chips, the channels they share, and the
  waiting that simulates their latency. The per-register C arrays are lists of length
  \<^verbatim>\<open>FLASH_NB * PLANES_PER_FLASH\<close>. Time stamps do not overflow \<^verbatim>\<open>int64_t\<close>.
\<close>

section \<open>State\<close>

record io_state = perf_state +
  reg_io_cmd :: "io_op list"
  reg_io_type :: "io_op list"
  reg_io_time :: "int list"
  cell_io_time :: "int list"
  access_nb :: "(32 word \<times> int) list"
  io_overhead :: "int list"
  old_channel_nb :: int
  old_channel_cmd :: io_op
  old_channel_time :: int
  init_diff_reg :: int
  io_alloc_overhead :: int
  io_update_overhead :: int

definition SSD_IO_INIT :: "ssd_config \<Rightarrow> io_state \<Rightarrow> io_state" where
  "SSD_IO_INIT c s = s\<lparr>old_channel_nb := CHANNEL_NB c, old_channel_cmd := NOOP,
     old_channel_time := 0,
     reg_io_cmd := replicate (reg_count c) NOOP,
     reg_io_type := replicate (reg_count c) NOOP,
     reg_io_time := replicate (reg_count c) (-1),
     cell_io_time := replicate (reg_count c) (-1),
     access_nb := replicate (reg_count c) (-1, -1),
     io_overhead := replicate (reg_count c) 0\<rparr>"

section \<open>Array stores\<close>

definition set_reg_cmd :: "int \<Rightarrow> io_op \<Rightarrow> io_state \<Rightarrow> io_state option" where
  "set_reg_cmd r v s = do { xs \<leftarrow> aset (reg_io_cmd s) r v; Some (s\<lparr>reg_io_cmd := xs\<rparr>) }"

definition set_reg_type :: "int \<Rightarrow> io_op \<Rightarrow> io_state \<Rightarrow> io_state option" where
  "set_reg_type r v s = do { xs \<leftarrow> aset (reg_io_type s) r v; Some (s\<lparr>reg_io_type := xs\<rparr>) }"

definition set_reg_time :: "int \<Rightarrow> int \<Rightarrow> io_state \<Rightarrow> io_state option" where
  "set_reg_time r v s = do { xs \<leftarrow> aset (reg_io_time s) r v; Some (s\<lparr>reg_io_time := xs\<rparr>) }"

definition set_cell_time :: "int \<Rightarrow> int \<Rightarrow> io_state \<Rightarrow> io_state option" where
  "set_cell_time r v s = do { xs \<leftarrow> aset (cell_io_time s) r v; Some (s\<lparr>cell_io_time := xs\<rparr>) }"

definition set_access_nb :: "int \<Rightarrow> 32 word \<times> int \<Rightarrow> io_state \<Rightarrow> io_state option" where
  "set_access_nb r v s = do { xs \<leftarrow> aset (access_nb s) r v; Some (s\<lparr>access_nb := xs\<rparr>) }"

definition set_io_overhead :: "int \<Rightarrow> int \<Rightarrow> io_state \<Rightarrow> io_state option" where
  "set_io_overhead r v s = do { xs \<leftarrow> aset (io_overhead s) r v; Some (s\<lparr>io_overhead := xs\<rparr>) }"

section \<open>Waiting\<close>

text \<open>
  \<^verbatim>\<open>while(diff < delay) diff = get_usec() - time_stamp + overhead;\<close> The loop reads the
  clock until the delay has passed; \<open>None\<close> if it never does.
\<close>

definition busy_wait :: "clock \<Rightarrow> int \<Rightarrow> int \<Rightarrow> int \<Rightarrow> int \<Rightarrow> io_state \<Rightarrow> io_state option" where
  "busy_wait gt time_stamp overhead delay diff s =
     map_option (\<lambda>(d, n). s\<lparr>ticks := n\<rparr>)
       (while_option (\<lambda>(d, n). d < delay)
          (\<lambda>(d, n). (usec_at gt n - time_stamp + overhead, n + 1))
          (diff, ticks s))"

definition SSD_UPDATE_IO_OVERHEAD :: "int \<Rightarrow> int \<Rightarrow> io_state \<Rightarrow> io_state option" where
  "SSD_UPDATE_IO_OVERHEAD reg overhead_time s = do {
     v \<leftarrow> aget (io_overhead s) reg;
     s \<leftarrow> set_io_overhead reg (v + overhead_time) s;
     Some (s\<lparr>io_alloc_overhead := 0, io_update_overhead := 0\<rparr>)
   }"

definition SSD_UPDATE_IO_REQUEST :: "clock \<Rightarrow> ssd_config \<Rightarrow> int \<Rightarrow> io_state \<Rightarrow> io_state option" where
  "SSD_UPDATE_IO_REQUEST gt c reg s = do {
     let (curr_time, s) = get_usec gt s;
     (nb, off) \<leftarrow> aget (access_nb s) reg;
     (ov, s) \<leftarrow> UPDATE_IO_REQUEST gt c nb off (if init_diff_reg s \<noteq> 0 then curr_time else 0)
                  UPDATE_END_TIME s;
     let s = s\<lparr>io_update_overhead := ov\<rparr>;
     s \<leftarrow> SSD_UPDATE_IO_OVERHEAD reg ov s;
     (nb, off) \<leftarrow> aget (access_nb s) reg;
     set_access_nb reg (-1, off) s
   }"

definition SSD_CH_SWITCH_DELAY :: "clock \<Rightarrow> ssd_config \<Rightarrow> io_state \<Rightarrow> (int \<times> io_state) option" where
  "SSD_CH_SWITCH_DELAY gt c s =
     (let wait = (\<lambda>switch_delay. do {
            let (start, s) = get_usec gt s;
            let diff = start - old_channel_time s;
            s \<leftarrow> (if diff < switch_delay
                  then busy_wait gt (old_channel_time s) 0 switch_delay diff s
                  else Some s);
            let (end, s) = get_usec gt s;
            Some (end - start, s)
          })
      in if old_channel_cmd s = READ then wait (CHANNEL_SWITCH_DELAY_R c)
         else if old_channel_cmd s = WRITE then wait (CHANNEL_SWITCH_DELAY_W c)
         else Some (0, s))"

definition SSD_REG_WRITE_DELAY ::
  "clock \<Rightarrow> ssd_config \<Rightarrow> int \<Rightarrow> io_state \<Rightarrow> (int \<times> io_state) option" where
  "SSD_REG_WRITE_DELAY gt c reg s = do {
     time_stamp \<leftarrow> aget (reg_io_time s) reg;
     if time_stamp = -1 then Some (0, s)
     else do {
       let (start, s) = get_usec gt s;
       let diff = start - time_stamp;
       (ret, s) \<leftarrow> (if diff < REG_WRITE_DELAY c then do {
                      s \<leftarrow> busy_wait gt time_stamp 0 (REG_WRITE_DELAY c) diff s;
                      Some (1, s)
                    }
                    else Some (0, s));
       let (end, s) = get_usec gt s;
       op \<leftarrow> aget (reg_io_type s) reg;
       let s = SEND_TO_PERF_CHECKER c op (end - start) CH_OP s;
       s \<leftarrow> set_reg_time reg (-1) s;
       Some (ret, s)
     }
   }"

definition SSD_REG_READ_DELAY ::
  "clock \<Rightarrow> ssd_config \<Rightarrow> int \<Rightarrow> io_state \<Rightarrow> (int \<times> io_state) option" where
  "SSD_REG_READ_DELAY gt c reg s = do {
     time_stamp \<leftarrow> aget (reg_io_time s) reg;
     if time_stamp = -1 then Some (0, s)
     else do {
       let (start, s) = get_usec gt s;
       let diff = start - time_stamp;
       (ret, s) \<leftarrow> (if diff < REG_READ_DELAY c then do {
                      s \<leftarrow> busy_wait gt time_stamp 0 (REG_READ_DELAY c) diff s;
                      Some (1, s)
                    }
                    else Some (0, s));
       let (end, s) = get_usec gt s;
       op \<leftarrow> aget (reg_io_type s) reg;
       let s = SEND_TO_PERF_CHECKER c op (end - start) CH_OP s;
       s \<leftarrow> SSD_UPDATE_IO_REQUEST gt c reg s;
       s \<leftarrow> set_reg_time reg (-1) s;
       s \<leftarrow> set_reg_cmd reg NOOP s;
       s \<leftarrow> set_reg_type reg NOOP s;
       Some (ret, s)
     }
   }"

definition SSD_CELL_WRITE_DELAY ::
  "clock \<Rightarrow> ssd_config \<Rightarrow> int \<Rightarrow> io_state \<Rightarrow> (int \<times> io_state) option" where
  "SSD_CELL_WRITE_DELAY gt c reg s = do {
     time_stamp \<leftarrow> aget (cell_io_time s) reg;
     if time_stamp = -1 then Some (0, s)
     else do {
       let (start, s) = get_usec gt s;
       ov \<leftarrow> aget (io_overhead s) reg;
       let diff = start - time_stamp + ov;
       (ret, s) \<leftarrow> (if diff < CELL_PROGRAM_DELAY c then do {
                      s \<leftarrow> busy_wait gt time_stamp ov (CELL_PROGRAM_DELAY c) diff
                             (s\<lparr>init_diff_reg := diff\<rparr>);
                      Some (1, s)
                    }
                    else Some (0, s));
       let (end, s) = get_usec gt s;
       op \<leftarrow> aget (reg_io_type s) reg;
       let s = SEND_TO_PERF_CHECKER c op (end - start) REG_OP s;
       s \<leftarrow> SSD_UPDATE_IO_REQUEST gt c reg s;
       s \<leftarrow> set_cell_time reg (-1) s;
       s \<leftarrow> set_reg_cmd reg NOOP s;
       s \<leftarrow> set_reg_type reg NOOP s;
       s \<leftarrow> set_io_overhead reg 0 s;
       Some (ret, s)
     }
   }"

definition SSD_CELL_READ_DELAY ::
  "clock \<Rightarrow> ssd_config \<Rightarrow> int \<Rightarrow> io_state \<Rightarrow> (int \<times> io_state) option" where
  "SSD_CELL_READ_DELAY gt c reg s = do {
     time_stamp \<leftarrow> aget (cell_io_time s) reg;
     if time_stamp = -1 then Some (0, s)
     else do {
       let (start, s) = get_usec gt s;
       ov \<leftarrow> aget (io_overhead s) reg;
       let diff = start - time_stamp + ov;
       (ret, s) \<leftarrow> (if diff < CELL_READ_DELAY c then do {
                      s \<leftarrow> busy_wait gt time_stamp ov (CELL_READ_DELAY c) diff
                             (s\<lparr>init_diff_reg := diff\<rparr>);
                      Some (1, s)
                    }
                    else Some (0, s));
       let (end, s) = get_usec gt s;
       op \<leftarrow> aget (reg_io_type s) reg;
       let s = SEND_TO_PERF_CHECKER c op (end - start) REG_OP s;
       s \<leftarrow> set_cell_time reg (-1) s;
       s \<leftarrow> set_io_overhead reg 0 s;
       Some (ret, s)
     }
   }"

definition SSD_BLOCK_ERASE_DELAY ::
  "clock \<Rightarrow> ssd_config \<Rightarrow> int \<Rightarrow> io_state \<Rightarrow> (int \<times> io_state) option" where
  "SSD_BLOCK_ERASE_DELAY gt c reg s = do {
     time_stamp \<leftarrow> aget (cell_io_time s) reg;
     if time_stamp = -1 then Some (0, s)
     else do {
       let (start, s) = get_usec gt s;
       let (now, s) = get_usec gt s;
       let diff = now - time_stamp;
       (ret, s) \<leftarrow> (if diff < BLOCK_ERASE_DELAY c then do {
                      s \<leftarrow> busy_wait gt time_stamp 0 (BLOCK_ERASE_DELAY c) diff s;
                      Some (1, s)
                    }
                    else Some (0, s));
       let (end, s) = get_usec gt s;
       op \<leftarrow> aget (reg_io_type s) reg;
       let s = SEND_TO_PERF_CHECKER c op (end - start) REG_OP s;
       s \<leftarrow> set_cell_time reg (-1) s;
       s \<leftarrow> set_reg_cmd reg NOOP s;
       s \<leftarrow> set_reg_type reg NOOP s;
       Some (ret, s)
     }
   }"

section \<open>Register, flash and channel access\<close>

definition SSD_REG_ACCESS ::
  "clock \<Rightarrow> ssd_config \<Rightarrow> int \<Rightarrow> io_state \<Rightarrow> (int \<times> io_state) option" where
  "SSD_REG_ACCESS gt c reg s = do {
     reg_cmd \<leftarrow> aget (reg_io_cmd s) reg;
     if reg_cmd = NOOP then Some (0, s)
     else if reg_cmd = READ then do {
       (ret, s) \<leftarrow> SSD_CELL_READ_DELAY gt c reg s;
       SSD_REG_READ_DELAY gt c reg s
     }
     else if reg_cmd = WRITE then do {
       (ret, s) \<leftarrow> SSD_REG_WRITE_DELAY gt c reg s;
       SSD_CELL_WRITE_DELAY gt c reg s
     }
     else if reg_cmd = ERASE then SSD_BLOCK_ERASE_DELAY gt c reg s
     else Some (0, s)
   }"

definition SSD_REMAIN_IO_DELAY :: "clock \<Rightarrow> ssd_config \<Rightarrow> int \<Rightarrow> io_state \<Rightarrow> io_state option" where
  "SSD_REMAIN_IO_DELAY gt c reg s = map_option snd (SSD_REG_ACCESS gt c reg s)"

text \<open>One round of the loop over the planes of a chip.\<close>

definition flash_access_plane ::
  "clock \<Rightarrow> ssd_config \<Rightarrow> int \<Rightarrow> int \<Rightarrow> int \<times> io_state \<Rightarrow> (int \<times> io_state) option" where
  "flash_access_plane gt c reg r_num = (\<lambda>(ret, s). do {
     (nb, off) \<leftarrow> aget (access_nb s) r_num;
     if r_num \<noteq> reg \<and> nb = io_request_seq_nb s then Some (ret, s)
     else SSD_REG_ACCESS gt c r_num s
   })"

definition SSD_FLASH_ACCESS ::
  "clock \<Rightarrow> ssd_config \<Rightarrow> int \<Rightarrow> int \<Rightarrow> io_state \<Rightarrow> (int \<times> io_state) option" where
  "SSD_FLASH_ACCESS gt c flash_nb reg s =
     ofold (\<lambda>i. flash_access_plane gt c reg (flash_nb * PLANES_PER_FLASH c + i))
       [0..PLANES_PER_FLASH c - 1] (0, s)"

definition SSD_CH_ENABLE :: "clock \<Rightarrow> ssd_config \<Rightarrow> int \<Rightarrow> io_state \<Rightarrow> io_state option" where
  "SSD_CH_ENABLE gt c channel s =
     (if CHANNEL_SWITCH_DELAY_R c = 0 \<and> CHANNEL_SWITCH_DELAY_W c = 0 then Some s
      else if old_channel_nb s \<noteq> channel then map_option snd (SSD_CH_SWITCH_DELAY gt c s)
      else Some s)"

text \<open>The registers a channel serves, in the order of the nested loops over ways and planes.\<close>

definition ch_regs :: "ssd_config \<Rightarrow> int \<Rightarrow> int list" where
  "ch_regs c channel =
     concat (map (\<lambda>i. map (\<lambda>j. channel * PLANES_PER_FLASH c
                                 + i * CHANNEL_NB c * PLANES_PER_FLASH c + j)
                       [0..PLANES_PER_FLASH c - 1])
              [0..WAY_NB c - 1])"

definition ch_access_reg ::
  "clock \<Rightarrow> ssd_config \<Rightarrow> int \<Rightarrow> status \<times> io_state \<Rightarrow> (status \<times> io_state) option" where
  "ch_access_reg gt c r_num = (\<lambda>(ret, s). do {
     t \<leftarrow> aget (reg_io_time s) r_num;
     let (now, s) = get_usec gt s;
     if t \<le> now \<and> t \<noteq> -1 then do {
       cmd \<leftarrow> aget (reg_io_cmd s) r_num;
       if cmd = READ then do {
         (x, s) \<leftarrow> SSD_CELL_READ_DELAY gt c r_num s;
         (x, s) \<leftarrow> SSD_REG_READ_DELAY gt c r_num s;
         Some (FAIL, s)
       }
       else if cmd = WRITE then do {
         (x, s) \<leftarrow> SSD_REG_WRITE_DELAY gt c r_num s;
         Some (FAIL, s)
       }
       else Some (ret, s)
     }
     else Some (ret, s)
   })"

definition SSD_CH_ACCESS ::
  "clock \<Rightarrow> ssd_config \<Rightarrow> int \<Rightarrow> io_state \<Rightarrow> (status \<times> io_state) option" where
  "SSD_CH_ACCESS gt c channel s = ofold (ch_access_reg gt c) (ch_regs c channel) (SUCCESS, s)"

text \<open>\<^verbatim>\<open>while(ret == FAIL) ret = SSD_CH_ACCESS(channel);\<close>\<close>

partial_function (option) ch_access_loop ::
  "clock \<Rightarrow> ssd_config \<Rightarrow> int \<Rightarrow> status \<Rightarrow> io_state \<Rightarrow> (status \<times> io_state) option" where
  "ch_access_loop gt c channel ret s =
     (if ret = FAIL
      then Option.bind (SSD_CH_ACCESS gt c channel s)
             (\<lambda>(ret', s'). ch_access_loop gt c channel ret' s')
      else Some (ret, s))"

section \<open>Time stamps\<close>

definition SSD_CH_RECORD ::
  "clock \<Rightarrow> ssd_config \<Rightarrow> int \<Rightarrow> io_op \<Rightarrow> int \<Rightarrow> int \<Rightarrow> io_state \<Rightarrow> io_state" where
  "SSD_CH_RECORD gt c channel cmd off ret s =
     (let s = s\<lparr>old_channel_nb := channel, old_channel_cmd := cmd\<rparr>
      in if cmd = READ \<and> off \<noteq> 0 \<and> ret = 0
         then s\<lparr>old_channel_time := old_channel_time s + CHANNEL_SWITCH_DELAY_R c\<rparr>
         else if cmd = WRITE \<and> off \<noteq> 0 \<and> ret = 0
         then s\<lparr>old_channel_time := old_channel_time s + CHANNEL_SWITCH_DELAY_W c\<rparr>
         else let (now, s) = get_usec gt s in s\<lparr>old_channel_time := now\<rparr>)"

definition later_end ::
  "ssd_config \<Rightarrow> io_state \<Rightarrow> int \<Rightarrow> int \<Rightarrow> int option" where
  "later_end c s r_num latest_time = do {
     cmd \<leftarrow> aget (reg_io_cmd s) r_num;
     t \<leftarrow> aget (reg_io_time s) r_num;
     let temp_time = (if cmd = READ then t + REG_READ_DELAY c
                      else if cmd = WRITE then t + REG_WRITE_DELAY c else 0);
     Some (if temp_time > latest_time then temp_time else latest_time)
   }"

definition SSD_GET_CH_ACCESS_TIME_FOR_READ ::
  "ssd_config \<Rightarrow> int \<Rightarrow> int \<Rightarrow> io_state \<Rightarrow> int option" where
  "SSD_GET_CH_ACCESS_TIME_FOR_READ c channel reg s = do {
     t \<leftarrow> aget (cell_io_time s) reg;
     ofold (later_end c s) (ch_regs c channel) (t + CELL_READ_DELAY c)
   }"

definition push_back_read :: "ssd_config \<Rightarrow> int \<Rightarrow> int \<Rightarrow> io_state \<Rightarrow> io_state option" where
  "push_back_read c current_time r_num s = do {
     cmd \<leftarrow> aget (reg_io_cmd s) r_num;
     t \<leftarrow> aget (reg_io_time s) r_num;
     if cmd = READ \<and> t > current_time then set_reg_time r_num (t + REG_WRITE_DELAY c) s
     else Some s
   }"

definition SSD_UPDATE_CH_ACCESS_TIME ::
  "ssd_config \<Rightarrow> int \<Rightarrow> int \<Rightarrow> io_state \<Rightarrow> io_state option" where
  "SSD_UPDATE_CH_ACCESS_TIME c channel current_time s =
     ofold (push_back_read c current_time) (ch_regs c channel) s"

text \<open>The bookkeeping of a host request: the register serves page \<open>off\<close> of the current one.\<close>

definition record_request_start ::
  "clock \<Rightarrow> ssd_config \<Rightarrow> int \<Rightarrow> int \<Rightarrow> io_state \<Rightarrow> io_state option" where
  "record_request_start gt c reg off s = do {
     s \<leftarrow> set_access_nb reg (io_request_seq_nb s, off) s;
     (ov, s) \<leftarrow> UPDATE_IO_REQUEST gt c (io_request_seq_nb s) off (old_channel_time s)
                  UPDATE_START_TIME s;
     SSD_UPDATE_IO_OVERHEAD reg ov (s\<lparr>io_update_overhead := ov\<rparr>)
   }"

definition SSD_REG_RECORD ::
  "clock \<Rightarrow> ssd_config \<Rightarrow> int \<Rightarrow> io_op \<Rightarrow> io_op \<Rightarrow> int \<Rightarrow> int \<Rightarrow> io_state \<Rightarrow> io_state option" where
  "SSD_REG_RECORD gt c reg cmd type off channel s = do {
     s \<leftarrow> set_reg_cmd reg cmd s;
     s \<leftarrow> set_reg_type reg type s;
     if cmd = WRITE then do {
       s \<leftarrow> set_reg_time reg (old_channel_time s + CHANNEL_SWITCH_DELAY_W c) s;
       t \<leftarrow> aget (reg_io_time s) reg;
       s \<leftarrow> SSD_UPDATE_CH_ACCESS_TIME c channel t s;
       if type = WRITE \<or> type = SEQ_WRITE \<or> type = RAN_WRITE \<or> type = RAN_COLD_WRITE
          \<or> type = RAN_HOT_WRITE
       then record_request_start gt c reg off s
       else set_access_nb reg (-1, -1) s
     }
     else if cmd = READ then do {
       t \<leftarrow> SSD_GET_CH_ACCESS_TIME_FOR_READ c channel reg s;
       s \<leftarrow> set_reg_time reg t s;
       if type = READ then record_request_start gt c reg off s
       else set_access_nb reg (-1, -1) s
     }
     else if cmd = ERASE then set_access_nb reg (-1, -1) s
     else Some s
   }"

definition SSD_CELL_RECORD ::
  "clock \<Rightarrow> ssd_config \<Rightarrow> int \<Rightarrow> io_op \<Rightarrow> io_state \<Rightarrow> io_state option" where
  "SSD_CELL_RECORD gt c reg cmd s =
     (if cmd = WRITE then do {
        t \<leftarrow> aget (reg_io_time s) reg;
        set_cell_time reg (t + REG_WRITE_DELAY c) s
      }
      else if cmd = READ then set_cell_time reg (old_channel_time s + CHANNEL_SWITCH_DELAY_R c) s
      else if cmd = ERASE then (let (now, s) = get_usec gt s in set_cell_time reg now s)
      else Some s)"

section \<open>The operations the FTL calls\<close>

definition chip_access ::
  "clock \<Rightarrow> ssd_config \<Rightarrow> int \<Rightarrow> int \<Rightarrow> io_state \<Rightarrow> (int \<times> io_state) option" where
  "chip_access gt c flash_nb reg s =
     (if IO_PARALLELISM c = 0 then SSD_FLASH_ACCESS gt c flash_nb reg s
      else SSD_REG_ACCESS gt c reg s)"

abbreviation channel_of :: "ssd_config \<Rightarrow> int \<Rightarrow> int" where
  "channel_of c flash_nb \<equiv> flash_nb mod CHANNEL_NB c"

abbreviation reg_of :: "ssd_config \<Rightarrow> int \<Rightarrow> int \<Rightarrow> int" where
  "reg_of c flash_nb block_nb \<equiv>
     flash_nb * PLANES_PER_FLASH c + block_nb mod PLANES_PER_FLASH c"

definition SSD_PAGE_WRITE ::
  "clock \<Rightarrow> ssd_config \<Rightarrow> int \<Rightarrow> int \<Rightarrow> int \<Rightarrow> io_op \<Rightarrow> io_state \<Rightarrow> (status \<times> io_state) option" where
  "SSD_PAGE_WRITE gt c flash_nb block_nb off type s = do {
     let channel = channel_of c flash_nb;
     let reg = reg_of c flash_nb block_nb;
     s \<leftarrow> SSD_CH_ENABLE gt c channel s;
     (delay_ret, s) \<leftarrow> chip_access gt c flash_nb reg s;
     (ret, s) \<leftarrow> ch_access_loop gt c channel FAIL s;
     let s = SSD_CH_RECORD gt c channel WRITE off delay_ret s;
     s \<leftarrow> SSD_REG_RECORD gt c reg WRITE type off channel s;
     s \<leftarrow> SSD_CELL_RECORD gt c reg WRITE s;
     Some (SUCCESS, s)
   }"

definition SSD_PAGE_PARTIAL_WRITE ::
  "clock \<Rightarrow> ssd_config \<Rightarrow> int \<Rightarrow> int \<Rightarrow> int \<Rightarrow> int \<Rightarrow> int \<Rightarrow> io_op \<Rightarrow> io_state
    \<Rightarrow> (status \<times> io_state) option" where
  "SSD_PAGE_PARTIAL_WRITE gt c old_flash_nb old_block_nb new_flash_nb new_block_nb off type s = do {
     let channel = channel_of c old_flash_nb;
     let reg = reg_of c old_flash_nb old_block_nb;
     s \<leftarrow> SSD_CH_ENABLE gt c channel s;
     (delay_ret, s) \<leftarrow> chip_access gt c old_flash_nb reg s;
     (ret, s) \<leftarrow> ch_access_loop gt c channel FAIL s;
     let s = SSD_CH_RECORD gt c channel READ off delay_ret s;
     s \<leftarrow> SSD_REG_RECORD gt c reg READ type off channel s;
     s \<leftarrow> SSD_CELL_RECORD gt c reg READ s;
     s \<leftarrow> SSD_REMAIN_IO_DELAY gt c reg s;
     let channel = channel_of c new_flash_nb;
     let reg = reg_of c new_flash_nb new_block_nb;
     s \<leftarrow> SSD_CH_ENABLE gt c channel s;
     (delay_ret, s) \<leftarrow> chip_access gt c new_flash_nb reg s;
     (ret, s) \<leftarrow> ch_access_loop gt c channel ret s;
     let s = SSD_CH_RECORD gt c channel WRITE off delay_ret s;
     s \<leftarrow> SSD_REG_RECORD gt c reg WRITE type off channel s;
     s \<leftarrow> SSD_CELL_RECORD gt c reg WRITE s;
     Some (SUCCESS, s)
   }"

definition SSD_PAGE_READ ::
  "clock \<Rightarrow> ssd_config \<Rightarrow> int \<Rightarrow> int \<Rightarrow> int \<Rightarrow> io_op \<Rightarrow> io_state \<Rightarrow> (status \<times> io_state) option" where
  "SSD_PAGE_READ gt c flash_nb block_nb off type s = do {
     let channel = channel_of c flash_nb;
     let reg = reg_of c flash_nb block_nb;
     s \<leftarrow> SSD_CH_ENABLE gt c channel s;
     (delay_ret, s) \<leftarrow> chip_access gt c flash_nb reg s;
     let s = SSD_CH_RECORD gt c channel READ off delay_ret s;
     s \<leftarrow> SSD_CELL_RECORD gt c reg READ s;
     s \<leftarrow> SSD_REG_RECORD gt c reg READ type off channel s;
     Some (SUCCESS, s)
   }"

definition SSD_BLOCK_ERASE ::
  "clock \<Rightarrow> ssd_config \<Rightarrow> int \<Rightarrow> int \<Rightarrow> io_state \<Rightarrow> (status \<times> io_state) option" where
  "SSD_BLOCK_ERASE gt c flash_nb block_nb s = do {
     let channel = channel_of c flash_nb;
     let reg = reg_of c flash_nb block_nb;
     (delay_ret, s) \<leftarrow> chip_access gt c flash_nb reg s;
     s \<leftarrow> SSD_REG_RECORD gt c reg ERASE ERASE (-1) channel s;
     s \<leftarrow> SSD_CELL_RECORD gt c reg ERASE s;
     Some (SUCCESS, s)
   }"

section \<open>The invariant of the device\<close>

text \<open>
  All per-register arrays have their length, the request list is well formed, and a register
  that serves page \<open>off\<close> of request \<open>nb\<close> finds that page in the request.
\<close>

definition io_inv :: "ssd_config \<Rightarrow> io_state \<Rightarrow> bool" where
  "io_inv c s \<longleftrightarrow>
     length (reg_io_cmd s) = reg_count c \<and> length (reg_io_type s) = reg_count c \<and>
     length (reg_io_time s) = reg_count c \<and> length (cell_io_time s) = reg_count c \<and>
     length (access_nb s) = reg_count c \<and> length (io_overhead s) = reg_count c \<and>
     reqs_ok s \<and>
     (\<forall>r<reg_count c. fst (access_nb s ! r) = -1 \<or>
        off_ok (fst (access_nb s ! r)) (snd (access_nb s ! r)) s)"

text \<open>
  \<open>io_good c off s\<^sub>0 s\<close>: the invariant holds in \<open>s\<close>, and since \<open>s\<^sub>0\<close> requests were at
  most stamped or completed, while registers only let go of their request or took page
  \<open>off\<close> of the current one.
\<close>

definition io_good :: "ssd_config \<Rightarrow> int \<Rightarrow> io_state \<Rightarrow> io_state \<Rightarrow> bool" where
  "io_good c off s0 s \<longleftrightarrow> io_inv c s \<and> reqs_from s0 s \<and>
     io_request_seq_nb s = io_request_seq_nb s0 \<and>
     (\<forall>r<reg_count c. fst (access_nb s ! r) = -1 \<or> access_nb s ! r = access_nb s0 ! r \<or>
        access_nb s ! r = (io_request_seq_nb s0, off))"

lemma io_good_refl: "io_inv c s \<Longrightarrow> io_good c off s s"
  by (simp add: io_good_def)

lemma io_good_lengths:
  assumes "io_good c off s0 s"
  shows "length (reg_io_cmd s) = reg_count c" "length (reg_io_type s) = reg_count c"
    "length (reg_io_time s) = reg_count c" "length (cell_io_time s) = reg_count c"
    "length (access_nb s) = reg_count c" "length (io_overhead s) = reg_count c"
  using assms by (simp_all add: io_good_def io_inv_def)

lemma io_more:
  assumes "perf_state.more s' = perf_state.more (s :: 'z io_state_scheme)"
  shows "reg_io_cmd s' = reg_io_cmd s" "reg_io_type s' = reg_io_type s"
    "reg_io_time s' = reg_io_time s" "cell_io_time s' = cell_io_time s"
    "access_nb s' = access_nb s" "io_overhead s' = io_overhead s"
    "old_channel_nb s' = old_channel_nb s" "old_channel_cmd s' = old_channel_cmd s"
    "old_channel_time s' = old_channel_time s" "init_diff_reg s' = init_diff_reg s"
  using assms by (cases s; cases s'; simp)+

lemma SEND_io_fields [simp]:
  "reg_io_cmd (SEND_TO_PERF_CHECKER c x d t s) = reg_io_cmd s"
  "reg_io_type (SEND_TO_PERF_CHECKER c x d t s) = reg_io_type s"
  "reg_io_time (SEND_TO_PERF_CHECKER c x d t s) = reg_io_time s"
  "cell_io_time (SEND_TO_PERF_CHECKER c x d t s) = cell_io_time s"
  "access_nb (SEND_TO_PERF_CHECKER c x d t s) = access_nb s"
  "io_overhead (SEND_TO_PERF_CHECKER c x d t s) = io_overhead s"
  "old_channel_time (SEND_TO_PERF_CHECKER c x d t s) = old_channel_time s"
  by (simp_all add: io_more [OF SEND_fields(5)])

lemma io_good_irrelevant [simp]:
  "io_good c off s0 (s\<lparr>ticks := n\<rparr>) = io_good c off s0 s"
  "io_good c off s0 (s\<lparr>old_channel_nb := x\<rparr>) = io_good c off s0 s"
  "io_good c off s0 (s\<lparr>old_channel_cmd := cmd\<rparr>) = io_good c off s0 s"
  "io_good c off s0 (s\<lparr>old_channel_time := x\<rparr>) = io_good c off s0 s"
  "io_good c off s0 (s\<lparr>init_diff_reg := x\<rparr>) = io_good c off s0 s"
  "io_good c off s0 (s\<lparr>io_alloc_overhead := x\<rparr>) = io_good c off s0 s"
  "io_good c off s0 (s\<lparr>io_update_overhead := x\<rparr>) = io_good c off s0 s"
  "io_good c off s0 (SEND_TO_PERF_CHECKER c' y d t s) = io_good c off s0 s"
  by (simp_all add: io_good_def io_inv_def reqs_ok_def off_ok_def reqs_from_def)

lemma io_good_array [simp]:
  "length cs = length (reg_io_cmd s) \<Longrightarrow> io_good c off s0 (s\<lparr>reg_io_cmd := cs\<rparr>) = io_good c off s0 s"
  "length cs = length (reg_io_type s) \<Longrightarrow> io_good c off s0 (s\<lparr>reg_io_type := cs\<rparr>) = io_good c off s0 s"
  "length ts = length (reg_io_time s) \<Longrightarrow> io_good c off s0 (s\<lparr>reg_io_time := ts\<rparr>) = io_good c off s0 s"
  "length ts = length (cell_io_time s) \<Longrightarrow> io_good c off s0 (s\<lparr>cell_io_time := ts\<rparr>) = io_good c off s0 s"
  "length ts = length (io_overhead s) \<Longrightarrow> io_good c off s0 (s\<lparr>io_overhead := ts\<rparr>) = io_good c off s0 s"
  by (simp_all add: io_good_def io_inv_def reqs_ok_def off_ok_def reqs_from_def)

lemma io_good_access:
  assumes "io_good c off s0 s" "r < reg_count c"
    and "nb = -1 \<or> (nb = io_request_seq_nb s0 \<and> k = off \<and> off_ok nb off s)"
  shows "io_good c off s0 (s\<lparr>access_nb := (access_nb s)[r := (nb, k)]\<rparr>)"
  using assms by (auto simp: io_good_def io_inv_def reqs_ok_def off_ok_def reqs_from_def nth_list_update)

lemma io_good_UPDATE:
  assumes g: "io_good c off s0 s" and nb: "nb = -1 \<or> off_ok nb k s"
  shows "returns (UPDATE_IO_REQUEST gt c nb k t ty s)
    (\<lambda>(ov, s'). io_good c off s0 s' \<and> perf_state.more s' = perf_state.more s)"
proof -
  have ok: "reqs_ok s" using g by (simp add: io_good_def io_inv_def)
  obtain ov s' where u: "UPDATE_IO_REQUEST gt c nb k t ty s = Some (ov, s')" "reqs_ok s'"
    "reqs_from s s'" "io_request_seq_nb s' = io_request_seq_nb s"
    "perf_state.more s' = perf_state.more s"
    using UPDATE_IO_REQUEST_returns [OF ok nb] by (fastforce simp: returns_def)
  have "io_good c off s0 s'"
    using g u(2-4) io_more [OF u(5)] reqs_from_trans [of s0 s s'] off_ok_from [OF _ u(3)]
    by (auto simp: io_good_def io_inv_def)
  then show ?thesis using u by simp
qed

section \<open>Waiting ends\<close>

lemma busy_wait_result:
  assumes "clock_advances gt"
  obtains n where "busy_wait gt t0 ov delay diff s = Some (s\<lparr>ticks := n\<rparr>)" "ticks s \<le> n"
    "diff < delay \<Longrightarrow> ticks s < n \<and> delay \<le> usec_at gt (n - 1) - t0 + ov"
proof -
  obtain m where m: "ticks s \<le> m" "delay + t0 - ov \<le> usec_at gt m"
    using assms unfolding clock_advances_def by blast
  let ?b = "\<lambda>(d, n). d < delay" and ?f = "\<lambda>(d, n). (usec_at gt n - t0 + ov, n + 1)"
  let ?P = "\<lambda>(d, n). ticks s \<le> n \<and> (n \<le> m \<or> delay \<le> d) \<and>
    (n = ticks s \<and> d = diff \<or> ticks s < n \<and> d = usec_at gt (n - 1) - t0 + ov)"
  have last: "Suc n \<le> m \<or> delay \<le> usec_at gt n - t0 + ov" if "n \<le> m" for n
    using that m by (cases "n = m") auto
  have step: "?P (?f x) \<and> Suc m - snd (?f x) < Suc m - snd x" if "?P x" "?b x" for x
    using that m last by (auto split: prod.splits)
  have "\<exists>t. while_option ?b ?f (diff, ticks s) = Some t"
    by (rule measure_while_option_Some [where P = ?P and f = "\<lambda>x. Suc m - snd x"])
      (use step m in auto)
  then obtain d n where w: "while_option ?b ?f (diff, ticks s) = Some (d, n)" by auto
  have "?P (d, n)" using while_option_rule [where P = ?P, OF _ w] step m by auto
  moreover have "delay \<le> d" using while_option_stop [OF w] by simp
  ultimately show ?thesis using that [of n] w by (auto simp: busy_wait_def)
qed

lemma busy_wait_returns:
  assumes "clock_advances gt" "\<And>n. Q (s\<lparr>ticks := n\<rparr>)"
  shows "returns (busy_wait gt t0 ov delay diff s) Q"
  using busy_wait_result [OF assms(1), of t0 ov delay diff s] assms(2) by (metis returns_Some)

section \<open>The delays keep the invariant\<close>

definition reg_in :: "ssd_config \<Rightarrow> int \<Rightarrow> bool" where
  "reg_in c r \<longleftrightarrow> 0 \<le> r \<and> r < int (reg_count c)"

lemma io_good_arrays:
  assumes "io_good c off s0 s" "reg_in c r"
  shows "0 \<le> r" "r < int (length (reg_io_cmd s))" "r < int (length (reg_io_type s))"
    "r < int (length (reg_io_time s))" "r < int (length (cell_io_time s))"
    "r < int (length (access_nb s))" "r < int (length (io_overhead s))" "nat r < reg_count c"
  using assms(2) io_good_lengths [OF assms(1)] unfolding reg_in_def by linarith+

lemmas io_stores = set_reg_cmd_def set_reg_type_def set_reg_time_def set_cell_time_def
  set_access_nb_def set_io_overhead_def

lemma SSD_UPDATE_IO_REQUEST_good:
  assumes g: "io_good c off s0 s" and r: "reg_in c r"
  shows "returns (SSD_UPDATE_IO_REQUEST gt c r s)
    (\<lambda>s'. io_good c off s0 s' \<and> reg_io_time s' = reg_io_time s \<and> cell_io_time s' = cell_io_time s \<and>
       reg_io_cmd s' = reg_io_cmd s \<and> reg_io_type s' = reg_io_type s \<and>
       length (io_overhead s') = length (io_overhead s))"
proof -
  note b = io_good_arrays [OF g r]
  let ?s = "s\<lparr>ticks := ticks s + 1\<rparr>"
  obtain nb k where a: "access_nb s ! nat r = (nb, k)" by (cases "access_nb s ! nat r")
  have "fst (access_nb s ! nat r) = -1 \<or> off_ok (fst (access_nb s ! nat r)) (snd (access_nb s ! nat r)) s"
    using g b(8) unfolding io_good_def io_inv_def by blast
  then have nb: "nb = -1 \<or> off_ok nb k ?s" using a by (simp add: off_ok_def)
  have g1: "io_good c off s0 ?s" using g by simp
  obtain ov s' where u: "UPDATE_IO_REQUEST gt c nb k (if init_diff_reg s \<noteq> 0 then usec_at gt (ticks s) else 0)
      UPDATE_END_TIME ?s = Some (ov, s')" "io_good c off s0 s'" "perf_state.more s' = perf_state.more ?s"
    using io_good_UPDATE [OF g1 nb, of gt "if init_diff_reg s \<noteq> 0 then usec_at gt (ticks s) else 0"
        UPDATE_END_TIME] by (auto elim!: returnsE)
  note m = io_more [OF u(3)]
  let ?t = "s'\<lparr>io_update_overhead := 0, io_overhead := (io_overhead s')[nat r := io_overhead s' ! nat r + ov],
    io_alloc_overhead := 0\<rparr>"
  have "SSD_UPDATE_IO_REQUEST gt c r s = Some (?t\<lparr>access_nb := (access_nb ?t)[nat r := (-1, k)]\<rparr>)"
    using b a u(1) m
    by (simp add: SSD_UPDATE_IO_REQUEST_def get_usec_def SSD_UPDATE_IO_OVERHEAD_def io_stores
        aget_def aset_def)
  moreover have "io_good c off s0 (?t\<lparr>access_nb := (access_nb ?t)[nat r := (-1, k)]\<rparr>)"
    by (rule io_good_access) (use u(2) b(8) in simp_all)
  ultimately show ?thesis using m by simp
qed

lemma SSD_CH_SWITCH_DELAY_good:
  assumes clk: "clock_advances gt" and g: "io_good c off s0 s"
  shows "returns (SSD_CH_SWITCH_DELAY gt c s)
    (\<lambda>(x, s'). io_good c off s0 s' \<and> reg_io_time s' = reg_io_time s)"
  using g by (auto simp: SSD_CH_SWITCH_DELAY_def get_usec_def Let_def vc
      intro!: busy_wait_returns [OF clk])

lemma SSD_REG_WRITE_DELAY_good:
  assumes clk: "clock_advances gt" and g: "io_good c off s0 s" and r: "reg_in c r"
  shows "returns (SSD_REG_WRITE_DELAY gt c r s)
    (\<lambda>(x, s'). io_good c off s0 s' \<and> reg_io_time s' = (reg_io_time s)[nat r := -1])"
proof (cases "reg_io_time s ! nat r = -1")
  case True
  then have "(reg_io_time s)[nat r := -1] = reg_io_time s" using list_update_id [of "reg_io_time s" "nat r"] by simp
  then show ?thesis using True g io_good_arrays [OF g r] by (simp add: SSD_REG_WRITE_DELAY_def vc)
next
  case False
  then show ?thesis
    using g io_good_arrays [OF g r]
    by (simp add: SSD_REG_WRITE_DELAY_def get_usec_def Let_def vc io_stores busy_wait_returns [OF clk])
qed

lemma SSD_UPDATE_IO_REQUEST_rule:
  assumes "io_good c off s0 s" "reg_in c r"
    and "\<And>s'. io_good c off s0 s' \<Longrightarrow> reg_io_time s' = reg_io_time s \<Longrightarrow>
      cell_io_time s' = cell_io_time s \<Longrightarrow> reg_io_cmd s' = reg_io_cmd s \<Longrightarrow>
      reg_io_type s' = reg_io_type s \<Longrightarrow>
      length (io_overhead s') = length (io_overhead s) \<Longrightarrow> Q s'"
  shows "returns (SSD_UPDATE_IO_REQUEST gt c r s) Q"
  using SSD_UPDATE_IO_REQUEST_good [OF assms(1,2)] by (rule returns_mono) (simp add: assms(3))

lemma SSD_REG_READ_DELAY_good:
  assumes clk: "clock_advances gt" and g: "io_good c off s0 s" and r: "reg_in c r"
  shows "returns (SSD_REG_READ_DELAY gt c r s)
    (\<lambda>(x, s'). io_good c off s0 s' \<and> reg_io_time s' = (reg_io_time s)[nat r := -1])"
proof (cases "reg_io_time s ! nat r = -1")
  case True
  then have "(reg_io_time s)[nat r := -1] = reg_io_time s" using list_update_id [of "reg_io_time s" "nat r"] by simp
  then show ?thesis using True g io_good_arrays [OF g r] by (simp add: SSD_REG_READ_DELAY_def vc)
next
  case False
  then show ?thesis
    using g r io_good_arrays [OF g r]
    by (auto simp: SSD_REG_READ_DELAY_def get_usec_def Let_def vc io_stores
        intro!: busy_wait_returns [OF clk] SSD_UPDATE_IO_REQUEST_rule [of c off s0])
qed

lemma SSD_CELL_WRITE_DELAY_good:
  assumes clk: "clock_advances gt" and g: "io_good c off s0 s" and r: "reg_in c r"
  shows "returns (SSD_CELL_WRITE_DELAY gt c r s)
    (\<lambda>(x, s'). io_good c off s0 s' \<and> reg_io_time s' = reg_io_time s)"
  using g r io_good_arrays [OF g r]
  by (auto simp: SSD_CELL_WRITE_DELAY_def get_usec_def Let_def vc io_stores
      intro!: busy_wait_returns [OF clk] SSD_UPDATE_IO_REQUEST_rule [of c off s0])

lemma SSD_CELL_READ_DELAY_good:
  assumes clk: "clock_advances gt" and g: "io_good c off s0 s" and r: "reg_in c r"
  shows "returns (SSD_CELL_READ_DELAY gt c r s)
    (\<lambda>(x, s'). io_good c off s0 s' \<and> reg_io_time s' = reg_io_time s)"
  using g io_good_arrays [OF g r]
  by (simp add: SSD_CELL_READ_DELAY_def get_usec_def Let_def vc io_stores busy_wait_returns [OF clk])

lemma SSD_BLOCK_ERASE_DELAY_good:
  assumes clk: "clock_advances gt" and g: "io_good c off s0 s" and r: "reg_in c r"
  shows "returns (SSD_BLOCK_ERASE_DELAY gt c r s)
    (\<lambda>(x, s'). io_good c off s0 s' \<and> reg_io_time s' = reg_io_time s)"
  using g io_good_arrays [OF g r]
  by (simp add: SSD_BLOCK_ERASE_DELAY_def get_usec_def Let_def vc io_stores busy_wait_returns [OF clk])


text \<open>
  The contract of an operation on one register, and what follows for two operations in
  sequence and for a loop over registers.
\<close>

locale register_op =
  fixes op :: "clock \<Rightarrow> ssd_config \<Rightarrow> int \<Rightarrow> io_state \<Rightarrow> (int \<times> io_state) option"
  assumes keeps: "clock_advances gt \<Longrightarrow> io_good c off s0 s \<Longrightarrow> reg_in c r \<Longrightarrow>
    returns (op gt c r s) (\<lambda>(x, s'). io_good c off s0 s')"
begin

lemma then_keeps:
  assumes "clock_advances gt" "io_good c off s0 s" "reg_in c r"
    and "\<And>x t. io_good c off s0 t \<Longrightarrow> returns (k x t) (\<lambda>(y, u). io_good c off s0 u)"
  shows "returns (Option.bind (op gt c r s) (\<lambda>(x, t). k x t)) (\<lambda>(y, u). io_good c off s0 u)"
  unfolding returns_bind
  by (rule returns_mono [OF keeps [OF assms(1-3)]]) (auto simp: assms(4))

end

locale register_seq = one: register_op op + two: register_op op'
  for op op' :: "clock \<Rightarrow> ssd_config \<Rightarrow> int \<Rightarrow> io_state \<Rightarrow> (int \<times> io_state) option"
begin

lemma seq_keeps:
  assumes "clock_advances gt" "io_good c off s0 s" "reg_in c r"
  shows "returns (Option.bind (op gt c r s) (\<lambda>(x, t). op' gt c r t)) (\<lambda>(y, u). io_good c off s0 u)"
  by (rule one.then_keeps [OF assms]) (rule two.keeps [OF assms(1) _ assms(3)])

end

interpretation reg_write: register_op SSD_REG_WRITE_DELAY
  by unfold_locales (rule returns_mono [OF SSD_REG_WRITE_DELAY_good]; auto)

interpretation reg_read: register_op SSD_REG_READ_DELAY
  by unfold_locales (rule returns_mono [OF SSD_REG_READ_DELAY_good]; auto)

interpretation cell_write: register_op SSD_CELL_WRITE_DELAY
  by unfold_locales (rule returns_mono [OF SSD_CELL_WRITE_DELAY_good]; auto)

interpretation cell_read: register_op SSD_CELL_READ_DELAY
  by unfold_locales (rule returns_mono [OF SSD_CELL_READ_DELAY_good]; auto)

interpretation block_erase: register_op SSD_BLOCK_ERASE_DELAY
  by unfold_locales (rule returns_mono [OF SSD_BLOCK_ERASE_DELAY_good]; auto)

interpretation read_out: register_seq SSD_CELL_READ_DELAY SSD_REG_READ_DELAY
  by unfold_locales

interpretation write_in: register_seq SSD_REG_WRITE_DELAY SSD_CELL_WRITE_DELAY
  by unfold_locales

lemma SSD_REG_ACCESS_good:
  assumes "clock_advances gt" "io_good c off s0 s" "reg_in c r"
  shows "returns (SSD_REG_ACCESS gt c r s) (\<lambda>(x, s'). io_good c off s0 s')"
  using assms(2) io_good_arrays [OF assms(2,3)] read_out.seq_keeps [OF assms]
    write_in.seq_keeps [OF assms] block_erase.keeps [OF assms]
  by (simp add: SSD_REG_ACCESS_def returns_if returns_aget returns_bind [of "aget _ _"])

interpretation reg_access: register_op SSD_REG_ACCESS
  by unfold_locales (rule SSD_REG_ACCESS_good)

lemma chip_regs:
  assumes "wf_config c" "0 \<le> f" "f < FLASH_NB c" "0 \<le> i" "i < PLANES_PER_FLASH c"
  shows "reg_in c (f * PLANES_PER_FLASH c + i)"
proof -
  have "f * PLANES_PER_FLASH c \<le> (FLASH_NB c - 1) * PLANES_PER_FLASH c"
    using assms by (intro mult_right_mono) auto
  then have "f * PLANES_PER_FLASH c + i < FLASH_NB c * PLANES_PER_FLASH c"
    using assms(5) by (simp add: algebra_simps)
  moreover have "0 \<le> FLASH_NB c * PLANES_PER_FLASH c" using wf_configD(4,6) [OF assms(1)] by simp
  ultimately show ?thesis using assms by (simp add: reg_in_def)
qed

lemma SSD_FLASH_ACCESS_good:
  assumes wf: "wf_config c" "0 \<le> f" "f < FLASH_NB c" and clk: "clock_advances gt"
    and g: "io_good c off s0 s"
  shows "returns (SSD_FLASH_ACCESS gt c f r s) (\<lambda>(x, s'). io_good c off s0 s')"
  unfolding SSD_FLASH_ACCESS_def
proof (rule ofold_inv)
  fix i :: int and p :: "int \<times> io_state"
  assume i: "i \<in> set [0..PLANES_PER_FLASH c - 1]" and p: "case p of (x, s') \<Rightarrow> io_good c off s0 s'"
  obtain x t where pt: "p = (x, t)" "io_good c off s0 t" using p by (cases p) auto
  have r: "reg_in c (f * PLANES_PER_FLASH c + i)" using chip_regs [OF wf] i by simp
  show "returns (flash_access_plane gt c r (f * PLANES_PER_FLASH c + i) p) (\<lambda>(x, s'). io_good c off s0 s')"
    using pt io_good_arrays [OF pt(2) r] reg_access.keeps [OF clk pt(2) r]
    by (simp add: flash_access_plane_def vc split: prod.splits)
qed (simp add: g)

lemma chip_access_good:
  assumes "wf_config c" "0 \<le> f" "f < FLASH_NB c" "clock_advances gt" "io_good c off s0 s" "reg_in c r"
  shows "returns (chip_access gt c f r s) (\<lambda>(x, s'). io_good c off s0 s')"
  using SSD_FLASH_ACCESS_good [OF assms(1-5)] reg_access.keeps [OF assms(4-6)]
  by (simp add: chip_access_def)


section \<open>A channel becomes free\<close>

lemma ch_regs_in:
  assumes wf: "wf_config c" and ch: "0 \<le> channel" "channel < CHANNEL_NB c" and r: "r \<in> set (ch_regs c channel)"
  shows "reg_in c r"
proof -
  obtain i j where "i \<in> {0..WAY_NB c - 1}" "j \<in> {0..PLANES_PER_FLASH c - 1}"
    and req': "r = channel * PLANES_PER_FLASH c + i * CHANNEL_NB c * PLANES_PER_FLASH c + j"
    using r unfolding ch_regs_def set_concat image_image set_map set_upto UN_iff image_iff by blast
  then have ij: "0 \<le> i" "i < WAY_NB c" "0 \<le> j" "j < PLANES_PER_FLASH c" by auto
  have req: "r = (channel + i * CHANNEL_NB c) * PLANES_PER_FLASH c + j"
    using req' by (simp add: algebra_simps)
  have C: "0 < CHANNEL_NB c" and W: "WAY_NB c = FLASH_NB c div CHANNEL_NB c"
    using wf by (simp_all add: wf_config_def)
  have "i * CHANNEL_NB c \<le> (WAY_NB c - 1) * CHANNEL_NB c" using ij C by (intro mult_right_mono) auto
  moreover have "WAY_NB c * CHANNEL_NB c \<le> FLASH_NB c"
    using C unfolding W minus_mod_eq_div_mult [symmetric] by simp
  ultimately have "channel + i * CHANNEL_NB c < FLASH_NB c" using ch by (simp add: algebra_simps)
  then show ?thesis unfolding req using ch ij C by (intro chip_regs [OF wf]) auto
qed

text \<open>The registers with a transfer that nobody has waited for yet.\<close>

definition busy_regs :: "io_state \<Rightarrow> nat set" where
  "busy_regs s = {r. r < length (reg_io_time s) \<and> reg_io_time s ! r \<noteq> -1}"

lemma busy_regs_cleared:
  assumes "reg_io_time s' = (reg_io_time s)[r := -1]"
  shows "busy_regs s' = busy_regs s - {r}"
  using assms by (cases "r < length (reg_io_time s)")
    (auto simp: busy_regs_def nth_list_update list_update_beyond)

lemma finite_busy_regs [simp]: "finite (busy_regs s)"
  by (simp add: busy_regs_def)

definition ch_progress ::
  "ssd_config \<Rightarrow> int \<Rightarrow> io_state \<Rightarrow> nat \<Rightarrow> status \<times> io_state \<Rightarrow> bool" where
  "ch_progress c off s0 n = (\<lambda>(ret, s). io_good c off s0 s \<and> card (busy_regs s) \<le> n \<and>
     (ret = FAIL \<longrightarrow> card (busy_regs s) < n))"

lemma ch_access_reg_progress:
  assumes clk: "clock_advances gt" and r: "reg_in c r" and p: "ch_progress c off s0 n (ret, s)"
  shows "returns (ch_access_reg gt c r (ret, s)) (ch_progress c off s0 n)"
proof -
  let ?s = "s\<lparr>ticks := Suc (ticks s)\<rparr>"
  have g: "io_good c off s0 s" "io_good c off s0 ?s" using p by (simp_all add: ch_progress_def)
  note b = io_good_arrays [OF g(1) r]
  have clear: "ch_progress c off s0 n (FAIL, u)"
    if "reg_io_time s ! nat r \<noteq> -1" "io_good c off s0 u" "reg_io_time u = (reg_io_time s)[nat r := -1]" for u
  proof -
    have "nat r \<in> busy_regs s" using that(1) b by (simp add: busy_regs_def nat_less_iff)
    then have "card (busy_regs u) < card (busy_regs s)"
      unfolding busy_regs_cleared [OF that(3)] by (rule card_Diff1_less [OF finite_busy_regs])
    then show ?thesis using that(2) p by (simp add: ch_progress_def)
  qed
  have same: "ch_progress c off s0 n (ret, ?s)" using p by (simp add: ch_progress_def busy_regs_def)
  have w: "returns (SSD_REG_WRITE_DELAY gt c r ?s)
      (\<lambda>(x, u). io_good c off s0 u \<and> reg_io_time u = (reg_io_time s)[nat r := -1])"
    using SSD_REG_WRITE_DELAY_good [OF clk g(2) r] by simp
  have rd: "returns (SSD_CELL_READ_DELAY gt c r ?s) (\<lambda>(x, t). returns (SSD_REG_READ_DELAY gt c r t)
      (\<lambda>(x, u). io_good c off s0 u \<and> reg_io_time u = (reg_io_time s)[nat r := -1]))"
    using SSD_CELL_READ_DELAY_good [OF clk g(2) r]
    by (rule returns_mono) (auto dest: SSD_REG_READ_DELAY_good [OF clk _ r])
  show ?thesis
  proof (cases "reg_io_time s ! nat r \<le> usec_at gt (ticks s) \<and> reg_io_time s ! nat r \<noteq> -1")
    case False
    then show ?thesis using b same by (auto simp: ch_access_reg_def get_usec_def vc)
  next
    case True
    have w': "returns (SSD_REG_WRITE_DELAY gt c r ?s) (\<lambda>(x, u). ch_progress c off s0 n (FAIL, u))"
      by (rule returns_mono [OF w]) (use True clear in auto)
    have rd': "returns (SSD_CELL_READ_DELAY gt c r ?s) (\<lambda>(x, t). returns (SSD_REG_READ_DELAY gt c r t)
        (\<lambda>(x, u). ch_progress c off s0 n (FAIL, u)))"
      by (rule returns_mono [OF rd]) (use True clear in \<open>auto elim!: returns_mono\<close>)
    show ?thesis
      using True b same w' rd' by (simp add: ch_access_reg_def get_usec_def vc)
  qed
qed

lemma SSD_CH_ACCESS_progress:
  assumes wf: "wf_config c" and ch: "0 \<le> channel" "channel < CHANNEL_NB c"
    and clk: "clock_advances gt" and g: "io_good c off s0 s"
  shows "returns (SSD_CH_ACCESS gt c channel s) (ch_progress c off s0 (card (busy_regs s)))"
  unfolding SSD_CH_ACCESS_def
proof (rule ofold_inv)
  show "ch_progress c off s0 (card (busy_regs s)) (SUCCESS, s)" using g by (simp add: ch_progress_def)
next
  fix r and p :: "status \<times> io_state"
  assume "r \<in> set (ch_regs c channel)" "ch_progress c off s0 (card (busy_regs s)) p"
  then show "returns (ch_access_reg gt c r p) (ch_progress c off s0 (card (busy_regs s)))"
    using ch_access_reg_progress [OF clk ch_regs_in [OF wf ch]] by (cases p) simp
qed

lemma ch_access_loop_good:
  assumes wf: "wf_config c" and ch: "0 \<le> channel" "channel < CHANNEL_NB c"
    and clk: "clock_advances gt" and g: "io_good c off s0 s"
  shows "returns (ch_access_loop gt c channel ret s) (\<lambda>(ret', s'). ret' = SUCCESS \<and> io_good c off s0 s')"
  using g
proof (induction "card (busy_regs s)" arbitrary: s ret rule: less_induct)
  case less
  show ?case
  proof (cases "ret = FAIL")
    case False
    then show ?thesis
      using less.prems by (subst ch_access_loop.simps) (cases ret; simp)
  next
    case True
    obtain ret' s' where a: "SSD_CH_ACCESS gt c channel s = Some (ret', s')"
      "ch_progress c off s0 (card (busy_regs s)) (ret', s')"
      using SSD_CH_ACCESS_progress [OF wf ch clk less.prems] by (auto simp: returns_def)
    have "returns (ch_access_loop gt c channel ret' s') (\<lambda>(r, u). r = SUCCESS \<and> io_good c off s0 u)"
    proof (cases ret')
      case SUCCESS
      then show ?thesis using a(2) by (subst ch_access_loop.simps) (simp add: ch_progress_def)
    next
      case FAIL
      then show ?thesis using a(2) less.hyps [of s' FAIL] by (simp add: ch_progress_def)
    qed
    then show ?thesis using True a(1) by (subst ch_access_loop.simps) simp
  qed
qed


section \<open>Recording keeps the invariant\<close>

lemma SSD_CH_ENABLE_good:
  assumes clk: "clock_advances gt" and g: "io_good c off s0 s"
  shows "returns (SSD_CH_ENABLE gt c channel s) (io_good c off s0)"
  using g SSD_CH_SWITCH_DELAY_good [OF clk g] by (auto simp: SSD_CH_ENABLE_def returns_def)

lemma SSD_CH_RECORD_good [simp]:
  "io_good c off s0 (SSD_CH_RECORD gt c ch cmd k ret s) = io_good c off s0 s"
  by (simp add: SSD_CH_RECORD_def Let_def get_usec_def)

lemma SSD_CELL_RECORD_good:
  assumes g: "io_good c off s0 s" and r: "reg_in c r"
  shows "returns (SSD_CELL_RECORD gt c r cmd s) (io_good c off s0)"
  using g io_good_arrays [OF g r]
  by (simp add: SSD_CELL_RECORD_def get_usec_def Let_def vc io_stores)

lemma SSD_UPDATE_CH_ACCESS_TIME_good:
  assumes wf: "wf_config c" and ch: "0 \<le> channel" "channel < CHANNEL_NB c" and g: "io_good c off s0 s"
  shows "returns (SSD_UPDATE_CH_ACCESS_TIME c channel t s) (io_good c off s0)"
  unfolding SSD_UPDATE_CH_ACCESS_TIME_def
proof (rule ofold_inv)
  fix r u
  assume r: "r \<in> set (ch_regs c channel)" and u: "io_good c off s0 u"
  show "returns (push_back_read c t r u) (io_good c off s0)"
    using u io_good_arrays [OF u ch_regs_in [OF wf ch r]]
    by (simp add: push_back_read_def vc io_stores)
qed (rule g)

lemma SSD_GET_CH_ACCESS_TIME_FOR_READ_returns:
  assumes wf: "wf_config c" and ch: "0 \<le> channel" "channel < CHANNEL_NB c"
    and g: "io_good c off s0 s" and r: "reg_in c r"
  shows "returns (SSD_GET_CH_ACCESS_TIME_FOR_READ c channel r s) (\<lambda>_. True)"
proof -
  have "returns (ofold (later_end c s) (ch_regs c channel) t) (\<lambda>_. True)" for t
  proof (rule ofold_inv)
    fix k t
    assume k: "k \<in> set (ch_regs c channel)"
    show "returns (later_end c s k t) (\<lambda>_. True)"
      using io_good_arrays [OF g ch_regs_in [OF wf ch k]] by (simp add: later_end_def vc Let_def)
  qed simp
  then show ?thesis
    using io_good_arrays [OF g r] by (simp add: SSD_GET_CH_ACCESS_TIME_FOR_READ_def vc)
qed

lemma record_request_start_good:
  assumes g: "io_good c off s0 s" and r: "reg_in c r" and o: "off_ok (io_request_seq_nb s0) off s0"
  shows "returns (record_request_start gt c r off s) (io_good c off s0)"
proof -
  note b = io_good_arrays [OF g r]
  have seq: "io_request_seq_nb s = io_request_seq_nb s0" and fr: "reqs_from s0 s"
    using g by (simp_all add: io_good_def)
  have os: "off_ok (io_request_seq_nb s) off s" using off_ok_from [OF o fr] seq by simp
  let ?s = "s\<lparr>access_nb := (access_nb s)[nat r := (io_request_seq_nb s, off)]\<rparr>"
  have g1: "io_good c off s0 ?s" by (rule io_good_access [OF g b(8)]) (simp add: seq os [unfolded seq])
  have o1: "io_request_seq_nb s = -1 \<or> off_ok (io_request_seq_nb s) off ?s"
    using os by (simp add: off_ok_def)
  obtain ov s' where u: "UPDATE_IO_REQUEST gt c (io_request_seq_nb s) off (old_channel_time s)
      UPDATE_START_TIME ?s = Some (ov, s')" "io_good c off s0 s'" "perf_state.more s' = perf_state.more ?s"
    using io_good_UPDATE [OF g1 o1, of gt "old_channel_time s" UPDATE_START_TIME]
    by (auto elim!: returnsE)
  show ?thesis
    using b u(1,2) io_more [OF u(3)]
    by (simp add: record_request_start_def SSD_UPDATE_IO_OVERHEAD_def io_stores aget_def aset_def)
qed

lemma SSD_REG_RECORD_good:
  assumes wf: "wf_config c" and ch: "0 \<le> channel" "channel < CHANNEL_NB c"
    and g: "io_good c off s0 s" and r: "reg_in c r"
    and h: "type \<in> {GC_READ, GC_WRITE, ERASE} \<or> off = k \<and> off_ok (io_request_seq_nb s0) off s0"
  shows "returns (SSD_REG_RECORD gt c r cmd type k channel s) (io_good c off s0)"
proof -
  note b = io_good_arrays [OF g r]
  let ?s = "s\<lparr>reg_io_cmd := (reg_io_cmd s)[nat r := cmd], reg_io_type := (reg_io_type s)[nat r := type]\<rparr>"
  have g1: "io_good c off s0 ?s" using g by simp
  have none: "io_good c off s0 t \<Longrightarrow> returns (set_access_nb r (-1, -1) t) (io_good c off s0)" for t
    using io_good_arrays [of c off s0 t r] r by (auto simp: io_stores vc intro: io_good_access)
  let ?S = "\<lambda>x y. s\<lparr>reg_io_cmd := (reg_io_cmd s)[nat r := x], reg_io_type := (reg_io_type s)[nat r := y]\<rparr>"
  have e: "set_reg_cmd r x s = Some (s\<lparr>reg_io_cmd := (reg_io_cmd s)[nat r := x]\<rparr>)"
    "set_reg_type r y (s\<lparr>reg_io_cmd := (reg_io_cmd s)[nat r := x]\<rparr>) = Some (?S x y)" for x y
    using b by (simp_all add: io_stores aset_def)
  have t: "set_reg_time r v (?S x y) = Some (?S x y\<lparr>reg_io_time := (reg_io_time s)[nat r := v]\<rparr>)"
    "aget ((reg_io_time s)[nat r := v]) r = Some v" for v x y
    using b by (simp_all add: io_stores aset_def aget_def)
  have gt: "io_good c off s0 (?s\<lparr>reg_io_time := (reg_io_time s)[nat r := v]\<rparr>)" for v using g by simp
  consider "cmd = WRITE" | "cmd = READ" | "cmd = ERASE" | "cmd \<notin> {WRITE, READ, ERASE}" by auto
  then show ?thesis
  proof cases
    case 1
    let ?t = "old_channel_time s + CHANNEL_SWITCH_DELAY_W c"
    obtain v where v: "SSD_UPDATE_CH_ACCESS_TIME c channel ?t
        (?s\<lparr>reg_io_time := (reg_io_time s)[nat r := ?t]\<rparr>) = Some v" "io_good c off s0 v"
      using SSD_UPDATE_CH_ACCESS_TIME_good [OF wf ch gt] by (auto elim!: returnsE)
    show ?thesis
      using h none [OF v(2)] record_request_start_good [OF v(2) r] 1 v(1)
      by (auto simp: SSD_REG_RECORD_def e t)
  next
    case 2
    obtain v where v: "SSD_GET_CH_ACCESS_TIME_FOR_READ c channel r ?s = Some v"
      using SSD_GET_CH_ACCESS_TIME_FOR_READ_returns [OF wf ch g1 r] by (auto simp: returns_def)
    show ?thesis
      using h none [OF gt] record_request_start_good [OF gt r] 2 v
      by (auto simp: SSD_REG_RECORD_def e t)
  next
    case 3
    then show ?thesis using none [OF g1] by (simp add: SSD_REG_RECORD_def e)
  next
    case 4
    then show ?thesis using g1 by (simp add: SSD_REG_RECORD_def e)
  qed
qed


section \<open>The operations the FTL calls return\<close>

lemma channel_of_range:
  assumes "wf_config c"
  shows "0 \<le> channel_of c f" "channel_of c f < CHANNEL_NB c"
  using wf_configD(5) [OF assms] by simp_all

lemma reg_of_in:
  assumes "wf_config c" "0 \<le> f" "f < FLASH_NB c"
  shows "reg_in c (reg_of c f b)"
  using wf_configD(6) [OF assms(1)] by (intro chip_regs [OF assms]) simp_all

text \<open>Enabling the channel and waiting for the chip.\<close>

lemma enter_chip:
  assumes wf: "wf_config c" "0 \<le> f" "f < FLASH_NB c" and clk: "clock_advances gt"
    and g: "io_good c off s0 s"
  obtains s1 x s2 where "SSD_CH_ENABLE gt c (channel_of c f) s = Some s1"
    "chip_access gt c f (reg_of c f b) s1 = Some (x, s2)" "io_good c off s0 s2"
proof -
  obtain s1 where s1: "SSD_CH_ENABLE gt c (channel_of c f) s = Some s1" "io_good c off s0 s1"
    using SSD_CH_ENABLE_good [OF clk g] by (auto elim!: returnsE)
  obtain x s2 where "chip_access gt c f (reg_of c f b) s1 = Some (x, s2)" "io_good c off s0 s2"
    using chip_access_good [OF wf clk s1(2) reg_of_in [OF wf, of b]] by (auto elim!: returnsE)
  then show ?thesis using that s1(1) by blast
qed

lemma enter_channel:
  assumes wf: "wf_config c" and clk: "clock_advances gt" and g: "io_good c off s0 s"
  obtains s1 where "ch_access_loop gt c (channel_of c f) ret s = Some (SUCCESS, s1)" "io_good c off s0 s1"
  using ch_access_loop_good [OF wf channel_of_range [OF wf] clk g] by (auto elim!: returnsE)

text \<open>Recording a write on a chip, the common end of two operations.\<close>

lemma record_write_good:
  assumes wf: "wf_config c" "0 \<le> f" "f < FLASH_NB c" and g: "io_good c off s0 s"
    and h: "type \<in> {GC_READ, GC_WRITE, ERASE} \<or> off = k \<and> off_ok (io_request_seq_nb s0) off s0"
  shows "returns (Option.bind (SSD_REG_RECORD gt c (reg_of c f b) WRITE type k (channel_of c f) s)
      (\<lambda>s. Option.bind (SSD_CELL_RECORD gt c (reg_of c f b) WRITE s) (\<lambda>s. Some (SUCCESS, s))))
    (\<lambda>(r, s'). r = SUCCESS \<and> io_good c off s0 s')"
proof -
  obtain s1 where 1: "SSD_REG_RECORD gt c (reg_of c f b) WRITE type k (channel_of c f) s = Some s1"
    "io_good c off s0 s1"
    using SSD_REG_RECORD_good [OF wf(1) channel_of_range [OF wf(1), of f] g reg_of_in [OF wf, of b],
        where type = type and k = k and gt = gt and cmd = WRITE] h unfolding returns_def by blast
  obtain s2 where "SSD_CELL_RECORD gt c (reg_of c f b) WRITE s1 = Some s2" "io_good c off s0 s2"
    using SSD_CELL_RECORD_good [OF 1(2) reg_of_in [OF wf, of b], of gt WRITE] unfolding returns_def by blast
  then show ?thesis using 1(1) by simp
qed

lemma SSD_PAGE_WRITE_good:
  assumes wf: "wf_config c" "0 \<le> f" "f < FLASH_NB c" and clk: "clock_advances gt" and s: "io_inv c s"
    and h: "type \<in> {GC_READ, GC_WRITE, ERASE} \<or> off = k \<and> off_ok (io_request_seq_nb s) off s"
  shows "returns (SSD_PAGE_WRITE gt c f b k type s) (\<lambda>(r, s'). r = SUCCESS \<and> io_good c off s s')"
proof -
  obtain s1 x s2 where 1: "SSD_CH_ENABLE gt c (channel_of c f) s = Some s1"
    "chip_access gt c f (reg_of c f b) s1 = Some (x, s2)" "io_good c off s s2"
    using enter_chip [OF wf clk io_good_refl [OF s]] by metis
  obtain s3 where 2: "ch_access_loop gt c (channel_of c f) FAIL s2 = Some (SUCCESS, s3)" "io_good c off s s3"
    using enter_channel [OF wf(1) clk 1(3)] by metis
  have "io_good c off s (SSD_CH_RECORD gt c (channel_of c f) WRITE k x s3)" using 2(2) by simp
  from record_write_good [OF wf this h] show ?thesis
    using 1 2 by (simp add: SSD_PAGE_WRITE_def Let_def)
qed

lemma SSD_PAGE_READ_good:
  assumes wf: "wf_config c" "0 \<le> f" "f < FLASH_NB c" and clk: "clock_advances gt" and s: "io_inv c s"
    and h: "type \<in> {GC_READ, GC_WRITE, ERASE} \<or> off = k \<and> off_ok (io_request_seq_nb s) off s"
  shows "returns (SSD_PAGE_READ gt c f b k type s) (\<lambda>(r, s'). r = SUCCESS \<and> io_good c off s s')"
proof -
  let ?reg = "reg_of c f b" and ?ch = "channel_of c f"
  note r = reg_of_in [OF wf, of b]
  obtain s1 x s2 where 1: "SSD_CH_ENABLE gt c ?ch s = Some s1"
    "chip_access gt c f ?reg s1 = Some (x, s2)" "io_good c off s s2"
    using enter_chip [OF wf clk io_good_refl [OF s]] by metis
  have "io_good c off s (SSD_CH_RECORD gt c ?ch READ k x s2)" using 1(3) by simp
  then obtain s3 where 2: "SSD_CELL_RECORD gt c ?reg READ (SSD_CH_RECORD gt c ?ch READ k x s2) = Some s3"
    "io_good c off s s3" using SSD_CELL_RECORD_good [OF _ r, where gt = gt and cmd = READ] unfolding returns_def by blast
  obtain s4 where "SSD_REG_RECORD gt c ?reg READ type k ?ch s3 = Some s4" "io_good c off s s4"
    using SSD_REG_RECORD_good [OF wf(1) channel_of_range [OF wf(1), of f] 2(2) r,
        where type = type and k = k and gt = gt and cmd = READ] h unfolding returns_def by blast
  then show ?thesis using 1 2 by (simp add: SSD_PAGE_READ_def Let_def)
qed

lemma SSD_PAGE_PARTIAL_WRITE_good:
  assumes wf: "wf_config c" "0 \<le> f" "f < FLASH_NB c" and wf': "0 \<le> f'" "f' < FLASH_NB c"
    and clk: "clock_advances gt" and s: "io_inv c s"
    and h: "type \<in> {GC_READ, GC_WRITE, ERASE} \<or> off = k \<and> off_ok (io_request_seq_nb s) off s"
  shows "returns (SSD_PAGE_PARTIAL_WRITE gt c f b f' b' k type s)
    (\<lambda>(r, s'). r = SUCCESS \<and> io_good c off s s')"
proof -
  let ?reg = "reg_of c f b" and ?ch = "channel_of c f"
  note r = reg_of_in [OF wf, of b]
  obtain s1 x s2 where 1: "SSD_CH_ENABLE gt c ?ch s = Some s1"
    "chip_access gt c f ?reg s1 = Some (x, s2)" "io_good c off s s2"
    using enter_chip [OF wf clk io_good_refl [OF s]] by metis
  obtain s3 where 2: "ch_access_loop gt c ?ch FAIL s2 = Some (SUCCESS, s3)" "io_good c off s s3"
    using enter_channel [OF wf(1) clk 1(3)] by metis
  let ?s3 = "SSD_CH_RECORD gt c ?ch READ k x s3"
  have 3: "io_good c off s ?s3" using 2(2) by simp
  obtain s4 where 4: "SSD_REG_RECORD gt c ?reg READ type k ?ch ?s3 = Some s4" "io_good c off s s4"
    using SSD_REG_RECORD_good [OF wf(1) channel_of_range [OF wf(1), of f] 3 r,
        where type = type and k = k and gt = gt and cmd = READ] h unfolding returns_def by blast
  obtain s5 where 5: "SSD_CELL_RECORD gt c ?reg READ s4 = Some s5" "io_good c off s s5"
    using SSD_CELL_RECORD_good [OF 4(2) r, of gt READ] unfolding returns_def by blast
  obtain y s6 where 6: "SSD_REG_ACCESS gt c ?reg s5 = Some (y, s6)" "io_good c off s s6"
    using SSD_REG_ACCESS_good [OF clk 5(2) r] by (auto elim!: returnsE)
  obtain s7 z s8 where 7: "SSD_CH_ENABLE gt c (channel_of c f') s6 = Some s7"
    "chip_access gt c f' (reg_of c f' b') s7 = Some (z, s8)" "io_good c off s s8"
    using enter_chip [OF wf(1) wf' clk 6(2)] by metis
  obtain s9 where 8: "ch_access_loop gt c (channel_of c f') SUCCESS s8 = Some (SUCCESS, s9)" "io_good c off s s9"
    using enter_channel [OF wf(1) clk 7(3)] by metis
  have "io_good c off s (SSD_CH_RECORD gt c (channel_of c f') WRITE k z s9)" using 8(2) by simp
  from record_write_good [OF wf(1) wf' this h] show ?thesis
    using 1 2 4 5 6 7 8 by (simp add: SSD_PAGE_PARTIAL_WRITE_def SSD_REMAIN_IO_DELAY_def Let_def)
qed

lemma SSD_BLOCK_ERASE_good:
  assumes wf: "wf_config c" "0 \<le> f" "f < FLASH_NB c" and clk: "clock_advances gt" and s: "io_inv c s"
  shows "returns (SSD_BLOCK_ERASE gt c f b s) (\<lambda>(r, s'). r = SUCCESS \<and> io_good c off s s')"
proof -
  let ?reg = "reg_of c f b" and ?ch = "channel_of c f"
  note r = reg_of_in [OF wf, of b]
  obtain x s1 where 1: "chip_access gt c f ?reg s = Some (x, s1)" "io_good c off s s1"
    using chip_access_good [OF wf clk io_good_refl [OF s, of off] r] by (auto elim!: returnsE)
  obtain s2 where 2: "SSD_REG_RECORD gt c ?reg ERASE ERASE (-1) ?ch s1 = Some s2" "io_good c off s s2"
    using SSD_REG_RECORD_good [OF wf(1) channel_of_range [OF wf(1), of f] 1(2) r,
        where type = ERASE and k = "-1" and gt = gt and cmd = ERASE] unfolding returns_def by blast
  obtain s3 where "SSD_CELL_RECORD gt c ?reg ERASE s2 = Some s3" "io_good c off s s3"
    using SSD_CELL_RECORD_good [OF 2(2) r, of gt ERASE] unfolding returns_def by blast
  then show ?thesis using 1 2 by (simp add: SSD_BLOCK_ERASE_def Let_def)
qed

text \<open>
  What garbage collection does to the device: registers only let go of their request.
\<close>

definition io_quiet :: "ssd_config \<Rightarrow> io_state \<Rightarrow> io_state \<Rightarrow> bool" where
  "io_quiet c s0 s \<longleftrightarrow> io_inv c s \<and> reqs_from s0 s \<and>
     io_request_seq_nb s = io_request_seq_nb s0 \<and>
     (\<forall>r<reg_count c. fst (access_nb s ! r) = -1 \<or> access_nb s ! r = access_nb s0 ! r)"

lemma io_quietI: "io_good c 0 s0 s \<Longrightarrow> io_good c 1 s0 s \<Longrightarrow> io_quiet c s0 s"
  unfolding io_good_def io_quiet_def by (metis prod.inject zero_neq_one)

lemma io_quiet_refl: "io_inv c s \<Longrightarrow> io_quiet c s s"
  by (simp add: io_quiet_def)

lemma io_quiet_trans: "io_quiet c s t \<Longrightarrow> io_quiet c t u \<Longrightarrow> io_quiet c s u"
  unfolding io_quiet_def using reqs_from_trans by metis

lemma returns_quiet:
  assumes "\<And>off. returns m (\<lambda>(r, s'). r = SUCCESS \<and> io_good c off s s')"
  shows "returns m (\<lambda>(r, s'). r = SUCCESS \<and> io_quiet c s s')"
  using returns_conj [OF assms [of 0] assms [of 1]] by (rule returns_mono) (auto intro: io_quietI)

lemma gc_ops_quiet:
  assumes wf: "wf_config c" "0 \<le> f" "f < FLASH_NB c" and clk: "clock_advances gt" and s: "io_inv c s"
  shows "returns (SSD_PAGE_READ gt c f b k GC_READ s) (\<lambda>(r, s'). r = SUCCESS \<and> io_quiet c s s')"
    "returns (SSD_PAGE_WRITE gt c f b k GC_WRITE s) (\<lambda>(r, s'). r = SUCCESS \<and> io_quiet c s s')"
    "returns (SSD_BLOCK_ERASE gt c f b s) (\<lambda>(r, s'). r = SUCCESS \<and> io_quiet c s s')"
  by (rule returns_quiet, rule SSD_PAGE_READ_good [OF assms], simp,
      rule returns_quiet, rule SSD_PAGE_WRITE_good [OF assms], simp,
      rule returns_quiet, rule SSD_BLOCK_ERASE_good [OF assms])

section \<open>The channel during a read and a partial write\<close>

text \<open>When the register \<open>r\<close> stops using the channel, 0 for an idle one.\<close>

definition channel_end :: "ssd_config \<Rightarrow> io_state \<Rightarrow> int \<Rightarrow> int" where
  "channel_end c s r = (let t = reg_io_time s ! nat r in
     if reg_io_cmd s ! nat r = READ then t + REG_READ_DELAY c
     else if reg_io_cmd s ! nat r = WRITE then t + REG_WRITE_DELAY c else 0)"

lemma SSD_GET_CH_ACCESS_TIME_FOR_READ_max:
  assumes wf: "wf_config c" and ch: "0 \<le> channel" "channel < CHANNEL_NB c"
    and s: "io_inv c s" and r: "reg_in c r"
  shows "SSD_GET_CH_ACCESS_TIME_FOR_READ c channel r s =
    Some (Max (insert (cell_io_time s ! nat r + CELL_READ_DELAY c) (channel_end c s ` set (ch_regs c channel))))"
proof -
  let ?t0 = "cell_io_time s ! nat r + CELL_READ_DELAY c"
  have step: "later_end c s q t = Some (max (channel_end c s q) t)" if "q \<in> set (ch_regs c channel)" for q t
    using ch_regs_in [OF wf ch that] s
    by (auto simp: later_end_def channel_end_def reg_in_def aget_def io_inv_def Let_def max_def)
  have "ofold (later_end c s) qs t = Some (Max (insert t (channel_end c s ` set qs)))"
    if "set qs \<subseteq> set (ch_regs c channel)" for qs t
    using that
  proof (induction qs arbitrary: t)
    case (Cons q qs)
    have "Max (insert (max (channel_end c s q) t) (channel_end c s ` set qs)) =
        Max (insert t (channel_end c s ` set (q # qs)))"
    proof (cases "qs = []")
      case False
      then show ?thesis by (simp add: max.assoc max.left_commute)
    qed (simp add: max.commute)
    then show ?case using Cons step by simp
  qed simp
  then show ?thesis
    using r s by (simp add: SSD_GET_CH_ACCESS_TIME_FOR_READ_def aget_def reg_in_def io_inv_def)
qed

lemma ch_access_loop_success:
  assumes "ch_access_loop gt c channel ret s = Some (ret', s')"
  shows "ret' = SUCCESS"
proof -
  have "fst (ret', s') = SUCCESS"
    by (rule ch_access_loop.raw_induct [where P = "\<lambda>gt c channel ret s r. fst r = SUCCESS", OF _ assms])
      (auto simp: bind_eq_Some_conv split: if_splits prod.splits intro: status.exhaust)
  then show ?thesis by simp
qed

lemma ch_access_loop_skipped [simp]: "ch_access_loop gt c channel SUCCESS s = Some (SUCCESS, s)"
  by (simp add: ch_access_loop.simps)

text \<open>A partial write that waits for the channel of the page it reads only.\<close>

definition partial_write_one_wait ::
  "clock \<Rightarrow> ssd_config \<Rightarrow> int \<Rightarrow> int \<Rightarrow> int \<Rightarrow> int \<Rightarrow> int \<Rightarrow> io_op \<Rightarrow> io_state
    \<Rightarrow> (status \<times> io_state) option" where
  "partial_write_one_wait gt c old_flash_nb old_block_nb new_flash_nb new_block_nb off type s = do {
     let channel = channel_of c old_flash_nb;
     let reg = reg_of c old_flash_nb old_block_nb;
     s \<leftarrow> SSD_CH_ENABLE gt c channel s;
     (delay_ret, s) \<leftarrow> chip_access gt c old_flash_nb reg s;
     (ret, s) \<leftarrow> ch_access_loop gt c channel FAIL s;
     let s = SSD_CH_RECORD gt c channel READ off delay_ret s;
     s \<leftarrow> SSD_REG_RECORD gt c reg READ type off channel s;
     s \<leftarrow> SSD_CELL_RECORD gt c reg READ s;
     s \<leftarrow> SSD_REMAIN_IO_DELAY gt c reg s;
     let channel = channel_of c new_flash_nb;
     let reg = reg_of c new_flash_nb new_block_nb;
     s \<leftarrow> SSD_CH_ENABLE gt c channel s;
     (delay_ret, s) \<leftarrow> chip_access gt c new_flash_nb reg s;
     let s = SSD_CH_RECORD gt c channel WRITE off delay_ret s;
     s \<leftarrow> SSD_REG_RECORD gt c reg WRITE type off channel s;
     s \<leftarrow> SSD_CELL_RECORD gt c reg WRITE s;
     Some (SUCCESS, s)
   }"

lemma bind_ch_access_loop:
  "Option.bind (ch_access_loop gt c channel FAIL s) (\<lambda>(ret, s). k ret s) =
   Option.bind (ch_access_loop gt c channel FAIL s) (\<lambda>(ret, s). k SUCCESS s)"
  by (cases "ch_access_loop gt c channel FAIL s") (auto dest: ch_access_loop_success)

lemma SSD_PAGE_PARTIAL_WRITE_one_wait:
  "SSD_PAGE_PARTIAL_WRITE = partial_write_one_wait"
  unfolding fun_eq_iff SSD_PAGE_PARTIAL_WRITE_def partial_write_one_wait_def Let_def
  by (subst bind_ch_access_loop) simp

end
