(* ===== verification/Qemu_Overhead.thy ===== *)
theory Qemu_Overhead
  imports Io_Manager
begin

text \<open>
  \<^verbatim>\<open>SSD_UPDATE_QEMU_OVERHEAD\<close> of \<^verbatim>\<open>ssd_io_manager.c\<close>, compiled without \<^verbatim>\<open>VSSIM_BENCH\<close>: time that the
  emulator has spent is taken off the time stamps. The global \<^verbatim>\<open>qemu_overhead\<close>, which QEMU sets, is
  the first component of the state. The lemmas show what it does to all time stamps, those of
  idle registers included.
\<close>

definition shift_times :: "int \<Rightarrow> int \<Rightarrow> io_state \<Rightarrow> io_state option" where
  "shift_times diff i s = do {
     t \<leftarrow> aget (cell_io_time s) i;
     s \<leftarrow> set_cell_time i (t - diff) s;
     t \<leftarrow> aget (reg_io_time s) i;
     set_reg_time i (t - diff) s
   }"

definition SSD_UPDATE_QEMU_OVERHEAD :: "ssd_config \<Rightarrow> int \<Rightarrow> int \<times> io_state \<Rightarrow> (int \<times> io_state) option" where
  "SSD_UPDATE_QEMU_OVERHEAD c delay = (\<lambda>(qemu_overhead, s). do {
     p_num \<leftarrow> imul (FLASH_NB c) (PLANES_PER_FLASH c);
     if qemu_overhead = 0 then Some (qemu_overhead, s)
     else do {
       let diff = (if delay > qemu_overhead then qemu_overhead else delay);
       let s = s\<lparr>old_channel_time := old_channel_time s - diff\<rparr>;
       s \<leftarrow> ofold (shift_times diff) [0..p_num - 1] s;
       Some (qemu_overhead - diff, s)
     }
   })"

text \<open>The loop as an operation on a list.\<close>

definition shifted :: "int \<Rightarrow> int \<Rightarrow> int list \<Rightarrow> int list" where
  "shifted diff i ts = map (\<lambda>t. t - diff) (take (nat i) ts) @ drop (nat i) ts"

lemma shifted_nth: "0 \<le> i \<Longrightarrow> nat i < length ts \<Longrightarrow> shifted diff i ts ! nat i = ts ! nat i"
  by (simp add: shifted_def nth_append min_def)

lemma length_shifted [simp]: "length (shifted diff i ts) = length ts"
  by (simp add: shifted_def min_def)

lemma shifted_step:
  assumes "0 \<le> i" "nat i < length ts"
  shows "(shifted diff i ts)[nat i := ts ! nat i - diff] = shifted diff (i + 1) ts"
proof -
  have n: "nat (i + 1) = Suc (nat i)" using assms(1) by simp
  have d: "drop (nat i) ts = ts ! nat i # drop (Suc (nat i)) ts" using Cons_nth_drop_Suc [OF assms(2)] by simp
  show ?thesis
    unfolding shifted_def n d take_Suc_conv_app_nth [OF assms(2)] using assms(2) by (simp add: list_update_append min_def)
qed

lemma shift_times_all:
  assumes "0 \<le> n" "int (length (cell_io_time s)) = n" "int (length (reg_io_time s)) = n"
  shows "ofold (shift_times diff) [0..n - 1] s =
    Some (s\<lparr>cell_io_time := map (\<lambda>t. t - diff) (cell_io_time s), reg_io_time := map (\<lambda>t. t - diff) (reg_io_time s)\<rparr>)"
proof -
  let ?at = "\<lambda>i. s\<lparr>cell_io_time := shifted diff i (cell_io_time s), reg_io_time := shifted diff i (reg_io_time s)\<rparr>"
  have "returns (ofold (shift_times diff) [0..n - 1] s) (\<lambda>s'. s' = ?at n)"
  proof (rule ofold_range [OF assms(1)])
    show "s = ?at 0" by (simp add: shifted_def)
  next
    fix i s1 assume i: "0 \<le> i" "i < n" and s1: "s1 = ?at i"
    have l: "nat i < length (cell_io_time s)" "nat i < length (reg_io_time s)" using i assms(2,3) by linarith+
    show "returns (shift_times diff i s1) (\<lambda>s'. s' = ?at (i + 1))"
      unfolding s1 using i l assms(2,3)
      by (simp add: shift_times_def set_cell_time_def set_reg_time_def aget_def aset_def shifted_nth shifted_step)
  qed
  then show ?thesis using assms by (auto simp: returns_def shifted_def)
qed

lemma planes_fit:
  assumes "wf_config c"
  shows "0 < FLASH_NB c * PLANES_PER_FLASH c" "FLASH_NB c * PLANES_PER_FLASH c < 2147483648"
proof -
  note d = wf_configD [OF assms]
  show "0 < FLASH_NB c * PLANES_PER_FLASH c" using d by simp
  have "PLANES_PER_FLASH c \<le> BLOCK_NB c" using d by (simp add: zdvd_imp_le)
  then have "1 * (1 * (PLANES_PER_FLASH c * FLASH_NB c)) \<le> SECTORS_PER_PAGE c * (PAGE_NB c * (BLOCK_NB c * FLASH_NB c))"
    using d by (intro mult_mono) auto
  also have "\<dots> < 2147483648" using assms by (auto simp: wf_config_def mult.assoc)
  finally show "FLASH_NB c * PLANES_PER_FLASH c < 2147483648" by (simp add: mult.commute)
qed

text \<open>
  All time stamps are moved by the same amount, the smaller of the delay and the overhead that is
  left; so are the entries that hold -1, the mark of an idle register.
\<close>

lemma SSD_UPDATE_QEMU_OVERHEAD_result:
  assumes "wf_config c" "length (cell_io_time s) = reg_count c" "length (reg_io_time s) = reg_count c" "q \<noteq> 0"
  shows "SSD_UPDATE_QEMU_OVERHEAD c delay (q, s) = Some (q - min delay q,
    s\<lparr>old_channel_time := old_channel_time s - min delay q, cell_io_time := map (\<lambda>t. t - min delay q) (cell_io_time s),
      reg_io_time := map (\<lambda>t. t - min delay q) (reg_io_time s)\<rparr>)"
proof -
  have n: "imul (FLASH_NB c) (PLANES_PER_FLASH c) = Some (int (reg_count c))"
    using planes_fit [OF assms(1)] by (simp add: imul_def in_int_def)
  have m: "(if delay > q then q else delay) = min delay q" by (simp add: min_def)
  let ?s = "s\<lparr>old_channel_time := old_channel_time s - min delay q\<rparr>"
  show ?thesis
    unfolding SSD_UPDATE_QEMU_OVERHEAD_def prod.case n m Let_def
    using assms(2-4) shift_times_all [of "int (reg_count c)" ?s "min delay q"] by simp
qed

lemma idle_mark_lost:
  assumes "wf_config c" "length (cell_io_time s) = reg_count c" "length (reg_io_time s) = reg_count c"
    and "0 < q" "0 < delay" "r < reg_count c" "reg_io_time s ! r = -1"
  shows "returns (SSD_UPDATE_QEMU_OVERHEAD c delay (q, s)) (\<lambda>(q', s'). reg_io_time s' ! r < -1)"
  using assms SSD_UPDATE_QEMU_OVERHEAD_result [OF assms(1-3), of q delay] by (simp add: returns_def)

end
