(* ===== verification/Block_Manager.thy ===== *)
theory Block_Manager
  imports Vssim_Common
begin

text \<open>
  \<^verbatim>\<open>FTL/PAGE_MAP/ftl_inverse_mapping_manager.c\<close>: the inverse mapping table, the state of
  every block and page, and the lists of empty and of victim blocks, one pair of lists
  for every plane of every chip.

  A list root keeps the chain of its entries (from \<^verbatim>\<open>head\<close> along \<^verbatim>\<open>next\<close>) as a HOL
  list, beside the counter of the C struct. The pointer that \<^verbatim>\<open>GET_EMPTY_BLOCK\<close> returns
  is always the head of a root, so it is the index of that root.
\<close>

section \<open>State\<close>

record block_entry =
  phy_flash_nb :: int
  phy_block_nb :: int

record empty_block_entry = block_entry +
  curr_phy_page_nb :: int

record empty_block_root =
  empty_chain :: "empty_block_entry list"
  empty_block_nb :: int

record victim_block_root =
  victim_chain :: "block_entry list"
  victim_block_nb :: int

record block_state_entry =
  valid_page_nb :: int
  bs_type :: block_type
  erase_count :: int
  valid_array :: string

record ftl_state =
  mapping_table :: "int list"
  inverse_mapping_table :: "int list"
  block_state_table :: "block_state_entry list"
  empty_block_list :: "empty_block_root list"
  victim_block_list :: "victim_block_root list"
  total_empty_block_nb :: int
  total_victim_block_nb :: int
  empty_block_table_index :: int
  gc_count :: int
  fail_cnt :: int

section \<open>Block and page states\<close>

definition block_index :: "ssd_config \<Rightarrow> int \<Rightarrow> int \<Rightarrow> int" where
  "block_index c flash_nb block_nb = flash_nb * BLOCK_NB c + block_nb"

definition GET_BLOCK_STATE_ENTRY ::
  "ssd_config \<Rightarrow> int \<Rightarrow> int \<Rightarrow> ftl_state \<Rightarrow> block_state_entry option" where
  "GET_BLOCK_STATE_ENTRY c flash_nb block_nb s =
     aget (block_state_table s) (block_index c flash_nb block_nb)"

definition set_block_state_entry ::
  "ssd_config \<Rightarrow> int \<Rightarrow> int \<Rightarrow> block_state_entry \<Rightarrow> ftl_state \<Rightarrow> ftl_state option" where
  "set_block_state_entry c flash_nb block_nb e s = do {
     t \<leftarrow> aset (block_state_table s) (block_index c flash_nb block_nb) e;
     Some (s\<lparr>block_state_table := t\<rparr>)
   }"

fun mark_char :: "page_mark \<Rightarrow> char" where
  "mark_char VALID = CHR ''V''"
| "mark_char INVALID = CHR ''I''"
| "mark_char ZERO = CHR ''0''"

text \<open>The recount of \<^verbatim>\<open>valid_page_nb\<close>: \<^verbatim>\<open>'V'\<close> among the first \<^verbatim>\<open>PAGE_NB\<close> characters.\<close>

definition count_valid_step :: "string \<Rightarrow> int \<Rightarrow> int \<Rightarrow> int option" where
  "count_valid_step arr i n = do {
     ch \<leftarrow> aget arr i;
     Some (if ch = CHR ''V'' then n + 1 else n)
   }"

definition UPDATE_BLOCK_STATE_ENTRY ::
  "ssd_config \<Rightarrow> int \<Rightarrow> int \<Rightarrow> int \<Rightarrow> page_mark \<Rightarrow> ftl_state \<Rightarrow> (status \<times> ftl_state) option" where
  "UPDATE_BLOCK_STATE_ENTRY c flash_nb block_nb page_nb valid s =
     (if flash_nb \<ge> FLASH_NB c \<or> block_nb \<ge> BLOCK_NB c \<or> page_nb \<ge> PAGE_NB c
      then Some (FAIL, s)
      else do {
        e \<leftarrow> GET_BLOCK_STATE_ENTRY c flash_nb block_nb s;
        arr \<leftarrow> aset (valid_array e) page_nb (mark_char valid);
        n \<leftarrow> ofold (count_valid_step arr) [0..PAGE_NB c - 1] 0;
        s \<leftarrow> set_block_state_entry c flash_nb block_nb (e\<lparr>valid_array := arr, valid_page_nb := n\<rparr>) s;
        Some (SUCCESS, s)
      })"

definition UPDATE_BLOCK_STATE ::
  "ssd_config \<Rightarrow> int \<Rightarrow> int \<Rightarrow> block_type \<Rightarrow> ftl_state \<Rightarrow> ftl_state option" where
  "UPDATE_BLOCK_STATE c flash_nb block_nb type s = do {
     e \<leftarrow> GET_BLOCK_STATE_ENTRY c flash_nb block_nb s;
     s \<leftarrow> set_block_state_entry c flash_nb block_nb (e\<lparr>bs_type := type\<rparr>) s;
     if type = EMPTY_BLOCK then
       ofold (\<lambda>i s. map_option snd (UPDATE_BLOCK_STATE_ENTRY c flash_nb block_nb i ZERO s))
         [0..PAGE_NB c - 1] s
     else Some s
   }"

definition GET_INVERSE_MAPPING_INFO :: "int \<Rightarrow> ftl_state \<Rightarrow> int option" where
  "GET_INVERSE_MAPPING_INFO ppn s = aget (inverse_mapping_table s) ppn"

definition UPDATE_INVERSE_MAPPING :: "int \<Rightarrow> int \<Rightarrow> ftl_state \<Rightarrow> ftl_state option" where
  "UPDATE_INVERSE_MAPPING ppn lpn s = do {
     t \<leftarrow> aset (inverse_mapping_table s) ppn lpn;
     Some (s\<lparr>inverse_mapping_table := t\<rparr>)
   }"

section \<open>Empty and victim lists\<close>

text \<open>\<^verbatim>\<open>plane_nb * FLASH_NB + phy_flash_nb\<close>: the root of a block's plane.\<close>

definition root_index :: "ssd_config \<Rightarrow> int \<Rightarrow> int \<Rightarrow> int" where
  "root_index c flash_nb block_nb = (block_nb mod PLANES_PER_FLASH c) * FLASH_NB c + flash_nb"

definition head_of :: "'a list \<Rightarrow> 'a option" where
  "head_of xs = (case xs of [] \<Rightarrow> None | x # _ \<Rightarrow> Some x)"

definition append_tail :: "'a list \<Rightarrow> 'a \<Rightarrow> 'a list option" where
  "append_tail xs x = (if xs = [] then None else Some (xs @ [x]))"

definition INSERT_EMPTY_BLOCK :: "ssd_config \<Rightarrow> int \<Rightarrow> int \<Rightarrow> ftl_state \<Rightarrow> ftl_state option" where
  "INSERT_EMPTY_BLOCK c flash_nb block_nb s = do {
     let e = \<lparr>phy_flash_nb = flash_nb, phy_block_nb = block_nb, curr_phy_page_nb = 0\<rparr>;
     let i = root_index c flash_nb block_nb;
     root \<leftarrow> aget (empty_block_list s) i;
     root \<leftarrow> (if empty_block_nb root = 0 then Some \<lparr>empty_chain = [e], empty_block_nb = 1\<rparr>
             else do {
               ch \<leftarrow> append_tail (empty_chain root) e;
               Some \<lparr>empty_chain = ch, empty_block_nb = empty_block_nb root + 1\<rparr>
             });
     roots \<leftarrow> aset (empty_block_list s) i root;
     Some (s\<lparr>empty_block_list := roots, total_empty_block_nb := total_empty_block_nb s + 1\<rparr>)
   }"

definition INSERT_VICTIM_BLOCK :: "ssd_config \<Rightarrow> empty_block_entry \<Rightarrow> ftl_state \<Rightarrow> ftl_state option" where
  "INSERT_VICTIM_BLOCK c full_block s = do {
     let e = \<lparr>phy_flash_nb = phy_flash_nb full_block, phy_block_nb = phy_block_nb full_block\<rparr>;
     let i = root_index c (phy_flash_nb full_block) (phy_block_nb full_block);
     root \<leftarrow> aget (victim_block_list s) i;
     root \<leftarrow> (if victim_block_nb root = 0 then Some \<lparr>victim_chain = [e], victim_block_nb = 1\<rparr>
             else do {
               ch \<leftarrow> append_tail (victim_chain root) e;
               Some \<lparr>victim_chain = ch, victim_block_nb = victim_block_nb root + 1\<rparr>
             });
     roots \<leftarrow> aset (victim_block_list s) i root;
     Some (s\<lparr>victim_block_list := roots, total_victim_block_nb := total_victim_block_nb s + 1\<rparr>)
   }"

text \<open>
  \<^verbatim>\<open>EJECT_VICTIM_BLOCK\<close>: the node is given by its address. The code clears both ends
  of the list when the node is the head and the only entry; otherwise it unlinks
  the node at the head, at the tail or in between.
\<close>

definition EJECT_VICTIM_BLOCK :: "ssd_config \<Rightarrow> block_entry \<Rightarrow> ftl_state \<Rightarrow> ftl_state option" where
  "EJECT_VICTIM_BLOCK c victim s = do {
     let i = root_index c (phy_flash_nb victim) (phy_block_nb victim);
     root \<leftarrow> aget (victim_block_list s) i;
     hd_entry \<leftarrow> head_of (victim_chain root);
     let ch = (if victim = hd_entry
               then (if victim_block_nb root = 1 then [] else tl (victim_chain root))
               else if victim = last (victim_chain root) then butlast (victim_chain root)
               else remove1 victim (victim_chain root));
     roots \<leftarrow> aset (victim_block_list s) i
               \<lparr>victim_chain = ch, victim_block_nb = victim_block_nb root - 1\<rparr>;
     Some (s\<lparr>victim_block_list := roots, total_victim_block_nb := total_victim_block_nb s - 1\<rparr>)
   }"

text \<open>The head of root \<open>i\<close> is full: it moves from the empty list to the victim list.\<close>

definition retire_head :: "ssd_config \<Rightarrow> int \<Rightarrow> ftl_state \<Rightarrow> ftl_state option" where
  "retire_head c i s = do {
     root \<leftarrow> aget (empty_block_list s) i;
     full_block \<leftarrow> head_of (empty_chain root);
     roots \<leftarrow> aset (empty_block_list s) i
               (if empty_block_nb root = 1 then \<lparr>empty_chain = [], empty_block_nb = 0\<rparr>
                else \<lparr>empty_chain = tl (empty_chain root), empty_block_nb = empty_block_nb root - 1\<rparr>);
     s \<leftarrow> INSERT_VICTIM_BLOCK c full_block (s\<lparr>empty_block_list := roots\<rparr>);
     Some (s\<lparr>total_empty_block_nb := total_empty_block_nb s - 1\<rparr>)
   }"

definition next_table_index :: "ssd_config \<Rightarrow> ftl_state \<Rightarrow> ftl_state" where
  "next_table_index c s =
     (let i = empty_block_table_index s + 1
      in s\<lparr>empty_block_table_index := (if i = EMPTY_TABLE_ENTRY_NB c then 0 else i)\<rparr>)"

text \<open>The three modes of \<^verbatim>\<open>GET_EMPTY_BLOCK\<close>: each is its loop.\<close>

partial_function (option) get_empty_overall ::
  "ssd_config \<Rightarrow> ftl_state \<Rightarrow> (int option \<times> ftl_state) option" where
  "get_empty_overall c s =
     (if total_empty_block_nb s = 0 then Some (None, s)
      else do {
        let i = empty_block_table_index s;
        root \<leftarrow> aget (empty_block_list s) i;
        if empty_block_nb root = 0 then get_empty_overall c (next_table_index c s)
        else do {
          e \<leftarrow> head_of (empty_chain root);
          if curr_phy_page_nb e = PAGE_NB c then do {
            s' \<leftarrow> retire_head c i s;
            get_empty_overall c (next_table_index c s')
          }
          else Some (Some i, next_table_index c s)
        }
      })"

partial_function (option) get_empty_inchip ::
  "ssd_config \<Rightarrow> int \<Rightarrow> int \<Rightarrow> ftl_state \<Rightarrow> (int option \<times> ftl_state) option" where
  "get_empty_inchip c input_index i s =
     (if total_empty_block_nb s = 0 then Some (None, s)
      else do {
        root \<leftarrow> aget (empty_block_list s) i;
        if empty_block_nb root = 0 then
          (if PLANES_PER_FLASH c \<noteq> 1 then
             (let i' = (if (i + 1) smod PLANES_PER_FLASH c = 0
                        then i + 1 - (PLANES_PER_FLASH c - 1) else i + 1)
              in if i' = input_index then Some (None, s)
                 else get_empty_inchip c input_index i' s)
           else Some (None, s))
        else do {
          e \<leftarrow> head_of (empty_chain root);
          if curr_phy_page_nb e = PAGE_NB c then do {
            s' \<leftarrow> retire_head c i s;
            get_empty_inchip c input_index i s'
          }
          else Some (Some i, s)
        }
      })"

partial_function (option) get_empty_noparal ::
  "ssd_config \<Rightarrow> int \<Rightarrow> ftl_state \<Rightarrow> (int option \<times> ftl_state) option" where
  "get_empty_noparal c i s =
     (if total_empty_block_nb s = 0 then Some (None, s)
      else do {
        root \<leftarrow> aget (empty_block_list s) i;
        if empty_block_nb root = 0 then
          (if i + 1 = EMPTY_TABLE_ENTRY_NB c
           then get_empty_noparal c 0 (s\<lparr>empty_block_table_index := 0\<rparr>)
           else get_empty_noparal c (i + 1)
                  (s\<lparr>empty_block_table_index := empty_block_table_index s + 1\<rparr>))
        else do {
          e \<leftarrow> head_of (empty_chain root);
          if curr_phy_page_nb e = PAGE_NB c then do {
            s' \<leftarrow> retire_head c i s;
            get_empty_noparal c i s'
          }
          else Some (Some i, s)
        }
      })"

definition GET_EMPTY_BLOCK ::
  "ssd_config \<Rightarrow> victim_mode \<Rightarrow> int \<Rightarrow> ftl_state \<Rightarrow> (int option \<times> ftl_state) option" where
  "GET_EMPTY_BLOCK c mode mapping_index s =
     (case mode of
        VICTIM_OVERALL \<Rightarrow> get_empty_overall c s
      | VICTIM_INCHIP \<Rightarrow> get_empty_inchip c mapping_index mapping_index s
      | VICTIM_NOPARAL \<Rightarrow> get_empty_noparal c mapping_index s)"

section \<open>Addresses of blocks\<close>

abbreviation addr :: "ssd_config \<Rightarrow> 'a block_entry_scheme \<Rightarrow> int" where
  "addr c e \<equiv> block_index c (phy_flash_nb e) (phy_block_nb e)"

text \<open>The entry names a block of the device, and root \<open>i\<close> is the root of its plane.\<close>

definition entry_ok :: "ssd_config \<Rightarrow> int \<Rightarrow> 'a block_entry_scheme \<Rightarrow> bool" where
  "entry_ok c i e \<longleftrightarrow>
     0 \<le> phy_flash_nb e \<and> phy_flash_nb e < FLASH_NB c \<and>
     0 \<le> phy_block_nb e \<and> phy_block_nb e < BLOCK_NB c \<and>
     root_index c (phy_flash_nb e) (phy_block_nb e) = i"

lemma block_index_range:
  assumes "0 \<le> f" "f < F" "0 \<le> b" "b < B" "BLOCK_NB c = B"
  shows "0 \<le> block_index c f b" "block_index c f b < B * F"
proof -
  show "0 \<le> block_index c f b" using assms by (simp add: block_index_def)
  have "f * B \<le> (F - 1) * B" using assms by (intro mult_right_mono) auto
  then show "block_index c f b < B * F" using assms by (simp add: block_index_def algebra_simps)
qed

lemma block_index_div_mod:
  assumes "0 \<le> b" "b < BLOCK_NB c"
  shows "block_index c f b div BLOCK_NB c = f" "block_index c f b mod BLOCK_NB c = b"
  using assms by (simp_all add: block_index_def)

lemma addr_inj:
  assumes "entry_ok c i e" "entry_ok c j e'" "addr c e = addr c e'"
  shows "phy_flash_nb e = phy_flash_nb e'" "phy_block_nb e = phy_block_nb e'" "i = j"
proof -
  have b: "0 \<le> phy_block_nb e" "phy_block_nb e < BLOCK_NB c"
    "0 \<le> phy_block_nb e'" "phy_block_nb e' < BLOCK_NB c"
    using assms by (auto simp: entry_ok_def)
  show 1: "phy_flash_nb e = phy_flash_nb e'"
    using block_index_div_mod(1) [OF b(1,2)] block_index_div_mod(1) [OF b(3,4)] assms(3) by metis
  show 2: "phy_block_nb e = phy_block_nb e'"
    using block_index_div_mod(2) [OF b(1,2)] block_index_div_mod(2) [OF b(3,4)] assms(3) by metis
  show "i = j" using assms 1 2 by (simp add: entry_ok_def)
qed

lemma root_index_range:
  assumes "wf_config c" "0 \<le> f" "f < FLASH_NB c"
  shows "0 \<le> root_index c f b" "root_index c f b < int (reg_count c)"
proof -
  note wf = wf_configD [OF assms(1)]
  let ?p = "b mod PLANES_PER_FLASH c"
  have p: "0 \<le> ?p" "?p < PLANES_PER_FLASH c" using wf by simp_all
  show "0 \<le> root_index c f b" using assms p wf by (simp add: root_index_def)
  have "?p * FLASH_NB c \<le> (PLANES_PER_FLASH c - 1) * FLASH_NB c"
    using p wf by (intro mult_right_mono) auto
  then have "root_index c f b < PLANES_PER_FLASH c * FLASH_NB c"
    using assms by (simp add: root_index_def algebra_simps)
  then show "root_index c f b < int (reg_count c)"
    using wf by (simp add: mult.commute)
qed

section \<open>The invariant of the lists\<close>

text \<open>
  A root whose counter agrees with its chain is determined by the chain. \<open>put_chains k es vs\<close>
  replaces both chains of root \<open>k\<close> and keeps the totals in step: every list operation
  is of this form.
\<close>

definition mk_empty :: "empty_block_entry list \<Rightarrow> empty_block_root" where
  "mk_empty es = \<lparr>empty_chain = es, empty_block_nb = int (length es)\<rparr>"

definition mk_victim :: "block_entry list \<Rightarrow> victim_block_root" where
  "mk_victim vs = \<lparr>victim_chain = vs, victim_block_nb = int (length vs)\<rparr>"

lemma mk_root_simps [simp]:
  "empty_chain (mk_empty es) = es" "empty_block_nb (mk_empty es) = int (length es)"
  "victim_chain (mk_victim vs) = vs" "victim_block_nb (mk_victim vs) = int (length vs)"
  by (simp_all add: mk_empty_def mk_victim_def)

abbreviation echain :: "ftl_state \<Rightarrow> nat \<Rightarrow> empty_block_entry list" where
  "echain s k \<equiv> empty_chain (empty_block_list s ! k)"

abbreviation vchain :: "ftl_state \<Rightarrow> nat \<Rightarrow> block_entry list" where
  "vchain s k \<equiv> victim_chain (victim_block_list s ! k)"

definition chains_ok ::
  "ssd_config \<Rightarrow> int \<Rightarrow> empty_block_entry list \<Rightarrow> block_entry list \<Rightarrow> bool" where
  "chains_ok c i es vs \<longleftrightarrow>
     (\<forall>e\<in>set es. entry_ok c i e \<and> 0 \<le> curr_phy_page_nb e \<and> curr_phy_page_nb e \<le> PAGE_NB c) \<and>
     (\<forall>e\<in>set (tl es). curr_phy_page_nb e = 0) \<and>
     (\<forall>e\<in>set vs. entry_ok c i e) \<and>
     distinct (map (addr c) es @ map (addr c) vs)"

definition lists_ok :: "ssd_config \<Rightarrow> ftl_state \<Rightarrow> bool" where
  "lists_ok c s \<longleftrightarrow>
     length (empty_block_list s) = reg_count c \<and> length (victim_block_list s) = reg_count c \<and>
     (\<forall>k<reg_count c. empty_block_list s ! k = mk_empty (echain s k) \<and>
        victim_block_list s ! k = mk_victim (vchain s k) \<and>
        chains_ok c (int k) (echain s k) (vchain s k)) \<and>
     total_empty_block_nb s = (\<Sum>k<reg_count c. int (length (echain s k))) \<and>
     total_victim_block_nb s = (\<Sum>k<reg_count c. int (length (vchain s k))) \<and>
     0 \<le> empty_block_table_index s \<and> empty_block_table_index s < int (reg_count c)"

definition put_chains ::
  "nat \<Rightarrow> empty_block_entry list \<Rightarrow> block_entry list \<Rightarrow> ftl_state \<Rightarrow> ftl_state" where
  "put_chains k es vs s = s\<lparr>
     empty_block_list := (empty_block_list s)[k := mk_empty es],
     victim_block_list := (victim_block_list s)[k := mk_victim vs],
     total_empty_block_nb := total_empty_block_nb s + int (length es) - int (length (echain s k)),
     total_victim_block_nb := total_victim_block_nb s + int (length vs) - int (length (vchain s k))\<rparr>"

text \<open>The blocks that are in some list.\<close>

definition root_blocks :: "ssd_config \<Rightarrow> empty_block_entry list \<Rightarrow> block_entry list \<Rightarrow> int set" where
  "root_blocks c es vs = addr c ` set es \<union> addr c ` set vs"

definition listed :: "ssd_config \<Rightarrow> ftl_state \<Rightarrow> int set" where
  "listed c s = (\<Union>k<reg_count c. root_blocks c (echain s k) (vchain s k))"

lemma lists_okD:
  assumes "lists_ok c s" "k < reg_count c"
  shows "empty_block_list s ! k = mk_empty (echain s k)"
    "victim_block_list s ! k = mk_victim (vchain s k)"
    "chains_ok c (int k) (echain s k) (vchain s k)"
    "empty_block_nb (empty_block_list s ! k) = int (length (echain s k))"
    "victim_block_nb (victim_block_list s ! k) = int (length (vchain s k))"
proof -
  show 1: "empty_block_list s ! k = mk_empty (echain s k)"
    and 2: "victim_block_list s ! k = mk_victim (vchain s k)"
    and "chains_ok c (int k) (echain s k) (vchain s k)"
    using assms by (simp_all add: lists_ok_def)
  show "empty_block_nb (empty_block_list s ! k) = int (length (echain s k))" by (subst 1) simp
  show "victim_block_nb (victim_block_list s ! k) = int (length (vchain s k))" by (subst 2) simp
qed

lemma put_chains_tables [simp]:
  "mapping_table (put_chains k es vs s) = mapping_table s"
  "inverse_mapping_table (put_chains k es vs s) = inverse_mapping_table s"
  "block_state_table (put_chains k es vs s) = block_state_table s"
  "empty_block_table_index (put_chains k es vs s) = empty_block_table_index s"
  "gc_count (put_chains k es vs s) = gc_count s"
  "fail_cnt (put_chains k es vs s) = fail_cnt s"
  "length (empty_block_list (put_chains k es vs s)) = length (empty_block_list s)"
  "length (victim_block_list (put_chains k es vs s)) = length (victim_block_list s)"
  by (simp_all add: put_chains_def)

lemma put_chains_chain:
  assumes "lists_ok c s" "k < reg_count c"
  shows "echain (put_chains k es vs s) j = (if j = k then es else echain s j)"
    "vchain (put_chains k es vs s) j = (if j = k then vs else vchain s j)"
  using assms by (auto simp: put_chains_def lists_ok_def)

lemma sum_replace:
  fixes f :: "nat \<Rightarrow> int"
  assumes "k < n"
  shows "(\<Sum>j<n. if j = k then x else f j) = (\<Sum>j<n. f j) + x - f k"
proof -
  have "(\<Sum>j<n. if j = k then x else f j) = x + (\<Sum>j\<in>{..<n} - {k}. f j)"
    using assms by (subst sum.remove [of _ k]) auto
  moreover have "(\<Sum>j<n. f j) = f k + (\<Sum>j\<in>{..<n} - {k}. f j)"
    using assms by (subst sum.remove [of _ k]) auto
  ultimately show ?thesis by simp
qed

lemma lists_ok_put_chains:
  assumes s: "lists_ok c s" and k: "k < reg_count c" and ok: "chains_ok c (int k) es vs"
  shows "lists_ok c (put_chains k es vs s)"
proof -
  let ?s = "put_chains k es vs s"
  note ch = put_chains_chain [OF s k]
  have roots: "empty_block_list ?s ! j = mk_empty (echain ?s j) \<and>
      victim_block_list ?s ! j = mk_victim (vchain ?s j) \<and>
      chains_ok c (int j) (echain ?s j) (vchain ?s j)" if "j < reg_count c" for j
  proof (cases "j = k")
    case True
    then show ?thesis using s k ok by (simp add: put_chains_def lists_ok_def)
  next
    case False
    then show ?thesis using lists_okD(1-3) [OF s that] by (simp add: put_chains_def)
  qed
  have te: "total_empty_block_nb ?s = (\<Sum>j<reg_count c. int (length (echain ?s j)))"
  proof -
    have "(\<Sum>j<reg_count c. int (length (echain ?s j))) =
        (\<Sum>j<reg_count c. if j = k then int (length es) else int (length (echain s j)))"
      by (intro sum.cong) (simp_all add: ch)
    then show ?thesis
      using s k by (simp only: sum_replace) (simp add: put_chains_def lists_ok_def)
  qed
  have tv: "total_victim_block_nb ?s = (\<Sum>j<reg_count c. int (length (vchain ?s j)))"
  proof -
    have "(\<Sum>j<reg_count c. int (length (vchain ?s j))) =
        (\<Sum>j<reg_count c. if j = k then int (length vs) else int (length (vchain s j)))"
      by (intro sum.cong) (simp_all add: ch)
    then show ?thesis
      using s k by (simp only: sum_replace) (simp add: put_chains_def lists_ok_def)
  qed
  show ?thesis
    using s roots te tv by (auto simp: lists_ok_def)
qed

lemma listed_split:
  assumes "k < reg_count c"
  shows "listed c s = root_blocks c (echain s k) (vchain s k) \<union>
    (\<Union>j\<in>{..<reg_count c} - {k}. root_blocks c (echain s j) (vchain s j))"
  using assms by (auto simp: listed_def)

lemma listed_put_chains:
  assumes "lists_ok c s" "k < reg_count c"
  shows "listed c (put_chains k es vs s) = root_blocks c es vs \<union>
    (\<Union>j\<in>{..<reg_count c} - {k}. root_blocks c (echain s j) (vchain s j))"
  using assms(2) by (subst listed_split) (auto simp: put_chains_chain [OF assms])

lemma listed_put_same:
  assumes "lists_ok c s" "k < reg_count c"
    and "root_blocks c es vs = root_blocks c (echain s k) (vchain s k)"
  shows "listed c (put_chains k es vs s) = listed c s"
  using assms by (simp add: listed_put_chains listed_split [of k c s])

text \<open>An address belongs to one root only.\<close>

lemma root_blocks_entry:
  assumes "chains_ok c i es vs" "a \<in> root_blocks c es vs"
  obtains e :: block_entry where "entry_ok c i e" "addr c e = a"
proof -
  from assms(2) consider (em) e where "e \<in> set es" "a = addr c e" | (vi) e where "e \<in> set vs" "a = addr c e"
    by (auto simp: root_blocks_def)
  then show ?thesis
  proof cases
    case em
    then show ?thesis
      using assms(1) that [of "\<lparr>phy_flash_nb = phy_flash_nb e, phy_block_nb = phy_block_nb e\<rparr>"]
      by (auto simp: chains_ok_def entry_ok_def)
  next
    case vi
    then show ?thesis using assms(1) that by (auto simp: chains_ok_def)
  qed
qed

lemma root_blocks_disjoint:
  assumes "lists_ok c s" "k < reg_count c" "j < reg_count c" "k \<noteq> j"
  shows "root_blocks c (echain s k) (vchain s k) \<inter> root_blocks c (echain s j) (vchain s j) = {}"
proof (rule ccontr)
  assume "\<not> ?thesis"
  then obtain a where a: "a \<in> root_blocks c (echain s k) (vchain s k)"
    "a \<in> root_blocks c (echain s j) (vchain s j)" by auto
  obtain e :: block_entry where e: "entry_ok c (int k) e" "addr c e = a"
    using root_blocks_entry [OF lists_okD(3) [OF assms(1,2)] a(1)] .
  obtain e' :: block_entry where e': "entry_ok c (int j) e'" "addr c e' = a"
    using root_blocks_entry [OF lists_okD(3) [OF assms(1,3)] a(2)] .
  show False using addr_inj(3) [OF e(1) e'(1)] e(2) e'(2) assms(4) by simp
qed

lemma listed_range:
  assumes "lists_ok c s" "a \<in> listed c s"
  shows "0 \<le> a" "a < BLOCK_NB c * FLASH_NB c"
proof -
  from assms(2) obtain k where k: "k < reg_count c" "a \<in> root_blocks c (echain s k) (vchain s k)"
    by (auto simp: listed_def)
  obtain e :: block_entry where "entry_ok c (int k) e" "addr c e = a"
    using root_blocks_entry [OF lists_okD(3) [OF assms(1) k(1)] k(2)] .
  then show "0 \<le> a" "a < BLOCK_NB c * FLASH_NB c"
    using block_index_range [of "phy_flash_nb e" "FLASH_NB c" "phy_block_nb e" "BLOCK_NB c" c]
    by (auto simp: entry_ok_def)
qed

section \<open>The list operations under the invariant\<close>

text \<open>Each operation of the source returns, and is a \<open>put_chains\<close>.\<close>

abbreviation victim_of :: "'a block_entry_scheme \<Rightarrow> block_entry" where
  "victim_of e \<equiv> \<lparr>phy_flash_nb = phy_flash_nb e, phy_block_nb = phy_block_nb e\<rparr>"

lemma retire_head_eq:
  assumes s: "lists_ok c s" and k: "k < reg_count c" and e: "echain s k = e # es"
  shows "retire_head c (int k) s = Some (put_chains k es (vchain s k @ [victim_of e]) s)"
proof -
  have len: "length (empty_block_list s) = reg_count c" "length (victim_block_list s) = reg_count c"
    using s by (simp_all add: lists_ok_def)
  have i: "root_index c (phy_flash_nb e) (phy_block_nb e) = int k"
    using lists_okD(3) [OF s k] e by (simp add: chains_ok_def entry_ok_def)
  note d = lists_okD(4,5) [OF s k]
  show ?thesis
    using len k d e
    by (auto simp: retire_head_def INSERT_VICTIM_BLOCK_def i aget_def aset_def head_of_def
        append_tail_def put_chains_def mk_empty_def mk_victim_def Let_def add.commute)
qed

lemma INSERT_EMPTY_BLOCK_eq:
  assumes s: "lists_ok c s" and k: "k < reg_count c" and i: "root_index c f b = int k"
  shows "INSERT_EMPTY_BLOCK c f b s = Some (put_chains k
    (echain s k @ [\<lparr>phy_flash_nb = f, phy_block_nb = b, curr_phy_page_nb = 0\<rparr>]) (vchain s k) s)"
proof -
  have len: "length (empty_block_list s) = reg_count c" "length (victim_block_list s) = reg_count c"
    using s by (simp_all add: lists_ok_def)
  note d = lists_okD(4) [OF s k]
  have v: "(victim_block_list s)[k := mk_victim (vchain s k)] = victim_block_list s"
    using lists_okD(2) [OF s k] by (metis list_update_id)
  show ?thesis
    using len k d v
    by (auto simp: INSERT_EMPTY_BLOCK_def i aget_def aset_def head_of_def
        append_tail_def put_chains_def mk_empty_def Let_def add.commute)
qed

lemma remove1_last: "distinct xs \<Longrightarrow> xs \<noteq> [] \<Longrightarrow> remove1 (last xs) xs = butlast xs"
  by (induction xs) auto

lemma EJECT_VICTIM_BLOCK_eq:
  assumes s: "lists_ok c s" and k: "k < reg_count c" and v: "v \<in> set (vchain s k)"
  shows "EJECT_VICTIM_BLOCK c v s = Some (put_chains k (echain s k) (remove1 v (vchain s k)) s)"
proof -
  have len: "length (empty_block_list s) = reg_count c" "length (victim_block_list s) = reg_count c"
    using s by (simp_all add: lists_ok_def)
  note d = lists_okD(5) [OF s k]
  have e: "(empty_block_list s)[k := mk_empty (echain s k)] = empty_block_list s"
    using lists_okD(1) [OF s k] by (metis list_update_id)
  have i: "root_index c (phy_flash_nb v) (phy_block_nb v) = int k"
    and dist: "distinct (vchain s k)"
    using lists_okD(3) [OF s k] v by (auto simp: chains_ok_def entry_ok_def distinct_map)
  obtain x xs where vs: "vchain s k = x # xs" using v by (cases "vchain s k") auto
  have len1: "int (length (remove1 v (vchain s k))) = int (length (vchain s k)) - 1"
    using v length_pos_if_in_set [OF v] by (simp only: length_remove1 if_True)
  have ch: "(if v = x then (if victim_block_nb (victim_block_list s ! k) = 1 then [] else xs)
      else if v = last (vchain s k) then butlast (vchain s k) else remove1 v (vchain s k))
      = remove1 v (vchain s k)"
    using dist vs d remove1_last [OF dist] by auto
  show ?thesis
    using len k d e vs ch len1
    by (auto simp: EJECT_VICTIM_BLOCK_def i aget_def aset_def head_of_def put_chains_def
        mk_victim_def Let_def)
qed

section \<open>Finding a block with a free page\<close>

text \<open>
  \<open>relisted c s s'\<close>: between \<open>s\<close> and \<open>s'\<close> blocks only moved from the head of an
  empty list to the victim list of the same root.
\<close>

definition same_tables :: "ftl_state \<Rightarrow> ftl_state \<Rightarrow> bool" where
  "same_tables s s' \<longleftrightarrow>
     mapping_table s' = mapping_table s \<and> inverse_mapping_table s' = inverse_mapping_table s \<and>
     block_state_table s' = block_state_table s \<and>
     gc_count s' = gc_count s \<and> fail_cnt s' = fail_cnt s"

text \<open>The free pages of an entry: those of its block from \<^verbatim>\<open>curr_phy_page_nb\<close> on.\<close>

definition entry_free :: "ssd_config \<Rightarrow> empty_block_entry \<Rightarrow> int set" where
  "entry_free c e = {q. q div PAGE_NB c = addr c e \<and> curr_phy_page_nb e \<le> q mod PAGE_NB c}"

definition free_pages :: "ssd_config \<Rightarrow> ftl_state \<Rightarrow> int set" where
  "free_pages c s = (\<Union>k<reg_count c. \<Union>e\<in>set (echain s k). entry_free c e)"

definition relisted :: "ssd_config \<Rightarrow> ftl_state \<Rightarrow> ftl_state \<Rightarrow> bool" where
  "relisted c s s' \<longleftrightarrow>
     lists_ok c s' \<and> same_tables s s' \<and> listed c s' = listed c s \<and>
     free_pages c s' = free_pages c s \<and>
     total_empty_block_nb s' + total_victim_block_nb s' =
       total_empty_block_nb s + total_victim_block_nb s"

lemma same_tables_refl [simp]: "same_tables s s"
  by (simp add: same_tables_def)

lemma relisted_refl: "lists_ok c s \<Longrightarrow> relisted c s s"
  by (simp add: relisted_def)

lemma relisted_trans: "relisted c s t \<Longrightarrow> relisted c t u \<Longrightarrow> relisted c s u"
  unfolding relisted_def same_tables_def by simp

lemma free_pages_split:
  assumes "k < reg_count c"
  shows "free_pages c s = (\<Union>e\<in>set (echain s k). entry_free c e) \<union>
    (\<Union>j\<in>{..<reg_count c} - {k}. \<Union>e\<in>set (echain s j). entry_free c e)"
  unfolding free_pages_def using assms by auto

lemma free_pages_put_chains:
  assumes "lists_ok c s" "k < reg_count c"
  shows "free_pages c (put_chains k es vs s) = (\<Union>e\<in>set es. entry_free c e) \<union>
    (\<Union>j\<in>{..<reg_count c} - {k}. \<Union>e\<in>set (echain s j). entry_free c e)"
  using assms(2) by (subst free_pages_split) (auto simp: put_chains_chain [OF assms])

lemma relisted_retire:
  assumes wf: "wf_config c" and s: "lists_ok c s" and k: "k < reg_count c"
    and e: "echain s k = e # es" and full: "curr_phy_page_nb e = PAGE_NB c"
  shows "relisted c s (put_chains k es (vchain s k @ [victim_of e]) s)"
proof -
  let ?s = "put_chains k es (vchain s k @ [victim_of e]) s"
  have ok: "chains_ok c (int k) es (vchain s k @ [victim_of e])"
    using lists_okD(3) [OF s k] e by (auto simp: chains_ok_def entry_ok_def dest: in_set_tl)
  have rb: "root_blocks c es (vchain s k @ [victim_of e]) = root_blocks c (echain s k) (vchain s k)"
    by (auto simp: root_blocks_def e)
  have "entry_free c e = {}"
    using wf_configD(2) [OF wf] full by (auto simp: entry_free_def not_le)
  then have "free_pages c ?s = free_pages c s"
    by (simp add: free_pages_put_chains [OF s k] free_pages_split [OF k, of s] e)
  then show ?thesis
    using lists_ok_put_chains [OF s k ok] listed_put_same [OF s k rb] e
    by (simp add: relisted_def same_tables_def put_chains_def)
qed

lemma relisted_index:
  assumes "lists_ok c s" "0 \<le> i" "i < int (reg_count c)"
  shows "relisted c s (s\<lparr>empty_block_table_index := i\<rparr>)"
  using assms by (auto simp: relisted_def lists_ok_def same_tables_def listed_def free_pages_def)

lemma relisted_next_index:
  assumes "wf_config c" "lists_ok c s"
  shows "relisted c s (next_table_index c s)"
  using relisted_index [OF assms(2), of "empty_block_table_index (next_table_index c s)"]
    assms wf_configD(8,10) [OF assms(1)]
  by (auto simp: next_table_index_def Let_def lists_ok_def split: if_splits)

text \<open>The result: a root whose head block has a free page, or no root at all.\<close>

definition open_block :: "ssd_config \<Rightarrow> ftl_state \<Rightarrow> int \<Rightarrow> bool" where
  "open_block c s i \<longleftrightarrow> 0 \<le> i \<and> i < int (reg_count c) \<and>
     (\<exists>e es. echain s (nat i) = e # es \<and> curr_phy_page_nb e < PAGE_NB c)"

definition found_block :: "ssd_config \<Rightarrow> ftl_state \<Rightarrow> int option \<times> ftl_state \<Rightarrow> bool" where
  "found_block c s r \<longleftrightarrow> relisted c s (snd r) \<and>
     (case fst r of None \<Rightarrow> total_empty_block_nb (snd r) = 0 | Some i \<Rightarrow> open_block c (snd r) i)"

lemma total_empty_pos:
  assumes "lists_ok c s" "k < reg_count c" "echain s k \<noteq> []"
  shows "0 < total_empty_block_nb s"
proof -
  have "0 < int (length (echain s k))" using assms by simp
  also have "int (length (echain s k)) \<le> (\<Sum>j<reg_count c. int (length (echain s j)))"
    using assms by (intro member_le_sum) auto
  finally show ?thesis using assms by (simp add: lists_ok_def)
qed

lemma total_empty_nonneg: "lists_ok c s \<Longrightarrow> 0 \<le> total_empty_block_nb s"
  by (simp add: lists_ok_def sum_nonneg)

lemma total_empty_ex:
  assumes "lists_ok c s" "total_empty_block_nb s \<noteq> 0"
  obtains k where "k < reg_count c" "echain s k \<noteq> []"
proof -
  have "\<exists>k<reg_count c. echain s k \<noteq> []"
  proof (rule ccontr)
    assume "\<not> ?thesis"
    then have "(\<Sum>k<reg_count c. int (length (echain s k))) = 0" by (intro sum.neutral) auto
    then show False using assms by (simp add: lists_ok_def)
  qed
  then show ?thesis using that by auto
qed

lemma found_block_trans: "relisted c s t \<Longrightarrow> found_block c t r \<Longrightarrow> found_block c s r"
  unfolding found_block_def using relisted_trans by blast

lemma returns_found_trans:
  "relisted c s t \<Longrightarrow> returns m (found_block c t) \<Longrightarrow> returns m (found_block c s)"
  using found_block_trans returns_mono by blast

lemma next_table_index_fields [simp]:
  "empty_block_list (next_table_index c s) = empty_block_list s"
  "victim_block_list (next_table_index c s) = victim_block_list s"
  "total_empty_block_nb (next_table_index c s) = total_empty_block_nb s"
  by (simp_all add: next_table_index_def Let_def)

lemma next_table_index_mod:
  assumes "wf_config c" "lists_ok c s"
  shows "empty_block_table_index (next_table_index c s) =
    (empty_block_table_index s + 1) mod int (reg_count c)"
proof -
  have b: "0 \<le> empty_block_table_index s" "empty_block_table_index s < int (reg_count c)"
    using assms(2) by (simp_all only: lists_ok_def)
  show ?thesis
  proof (cases "empty_block_table_index s + 1 = int (reg_count c)")
    case True
    then show ?thesis
      unfolding next_table_index_def Let_def wf_configD(8) [OF assms(1)] by simp
  next
    case False
    then have "(empty_block_table_index s + 1) mod int (reg_count c) = empty_block_table_index s + 1"
      using b by (intro mod_pos_pos_trivial) linarith+
    then show ?thesis
      using False unfolding next_table_index_def Let_def wf_configD(8) [OF assms(1)] by simp
  qed
qed

lemma overall_nonempty:
  assumes wf: "wf_config c" and s: "lists_ok c s"
    and ne: "echain s (nat (empty_block_table_index s)) \<noteq> []"
    and IH: "\<And>t. lists_ok c t \<Longrightarrow> total_empty_block_nb t < total_empty_block_nb s \<Longrightarrow>
      returns (get_empty_overall c t) (found_block c t)"
  shows "returns (get_empty_overall c s) (found_block c s)"
proof -
  define k where "k = nat (empty_block_table_index s)"
  have k: "k < reg_count c" and ik: "empty_block_table_index s = int k"
    and len: "length (empty_block_list s) = reg_count c"
    using s by (simp_all only: lists_ok_def k_def) linarith+
  obtain e es where e: "echain s k = e # es" using ne k_def by (cases "echain s k") auto
  have pos: "0 < total_empty_block_nb s" using total_empty_pos [OF s k] e by simp
  have nb: "empty_block_nb (empty_block_list s ! k) \<noteq> 0" using lists_okD(4) [OF s k] e by simp
  have cur: "curr_phy_page_nb e \<le> PAGE_NB c" using lists_okD(3) [OF s k] e by (simp add: chains_ok_def)
  have get: "aget (empty_block_list s) (int k) = Some (empty_block_list s ! k)"
    using len k by (simp add: aget_def del: of_nat_nat int_nat_eq)
  show ?thesis
  proof (cases "curr_phy_page_nb e = PAGE_NB c")
    case True
    let ?t = "put_chains k es (vchain s k @ [victim_of e]) s"
    let ?u = "next_table_index c ?t"
    have r: "relisted c s ?t" by (rule relisted_retire [OF wf s k e True])
    then have t: "lists_ok c ?t" by (simp add: relisted_def)
    note ru = relisted_next_index [OF wf t]
    have "total_empty_block_nb ?u < total_empty_block_nb s" using e by (simp add: put_chains_def)
    then have "returns (get_empty_overall c ?u) (found_block c ?u)"
      using IH ru by (simp add: relisted_def)
    then have "returns (get_empty_overall c ?u) (found_block c s)"
      using returns_found_trans relisted_trans [OF r ru] by blast
    then show ?thesis
      using pos nb e True
      by (subst get_empty_overall.simps) (simp add: ik get head_of_def retire_head_eq [OF s k e])
  next
    case False
    have "open_block c (next_table_index c s) (int k)"
      using e False cur k unfolding open_block_def by auto
    then show ?thesis
      using pos nb e False relisted_next_index [OF wf s]
      by (subst get_empty_overall.simps) (simp add: ik get head_of_def found_block_def)
  qed
qed

lemma overall_within:
  assumes wf: "wf_config c" and "lists_ok c s"
    and "echain s (nat ((empty_block_table_index s + int d) mod int (reg_count c))) \<noteq> []"
    and "\<And>t. lists_ok c t \<Longrightarrow> total_empty_block_nb t < total_empty_block_nb s \<Longrightarrow>
      returns (get_empty_overall c t) (found_block c t)"
  shows "returns (get_empty_overall c s) (found_block c s)"
  using assms(2-)
proof (induction d arbitrary: s)
  case 0
  have "empty_block_table_index s mod int (reg_count c) = empty_block_table_index s"
    using 0(1) by (intro mod_pos_pos_trivial) (simp_all only: lists_ok_def)
  then show ?case using 0 overall_nonempty [OF wf 0(1)] by simp
next
  case (Suc d)
  define k where "k = nat (empty_block_table_index s)"
  have k: "k < reg_count c" and ik: "empty_block_table_index s = int k"
    and len: "length (empty_block_list s) = reg_count c"
    using Suc.prems(1) by (simp_all only: lists_ok_def k_def) linarith+
  show ?case
  proof (cases "echain s k = []")
    case False
    then show ?thesis using overall_nonempty [OF wf Suc.prems(1)] Suc.prems(3) k_def by blast
  next
    case True
    let ?u = "next_table_index c s"
    note ru = relisted_next_index [OF wf Suc.prems(1)]
    have "(empty_block_table_index ?u + int d) mod int (reg_count c) =
        (empty_block_table_index s + int (Suc d)) mod int (reg_count c)"
      unfolding next_table_index_mod [OF wf Suc.prems(1)] mod_add_left_eq
      by (simp add: algebra_simps)
    then have "returns (get_empty_overall c ?u) (found_block c ?u)"
      using Suc.IH [of ?u] Suc.prems ru by (simp add: relisted_def)
    then have "returns (get_empty_overall c ?u) (found_block c s)"
      by (rule returns_found_trans [OF ru])
    moreover have "aget (empty_block_list s) (int k) = Some (empty_block_list s ! k)"
      using len k by (simp add: aget_def del: of_nat_nat int_nat_eq)
    moreover have "empty_block_nb (empty_block_list s ! k) = 0"
      using lists_okD(4) [OF Suc.prems(1) k] True by simp
    ultimately show ?thesis
      using relisted_refl [OF Suc.prems(1)]
      by (subst get_empty_overall.simps) (simp add: ik found_block_def)
  qed
qed

lemma next_nonempty_root:
  assumes wf: "wf_config c" and s: "lists_ok c s" "total_empty_block_nb s \<noteq> 0"
  shows "\<exists>d. echain s (nat ((empty_block_table_index s + int d) mod int (reg_count c))) \<noteq> []"
proof -
  obtain k where k: "k < reg_count c" "echain s k \<noteq> []" using total_empty_ex [OF s] by blast
  define d where "d = nat ((int k - empty_block_table_index s) mod int (reg_count c))"
  have d: "int d = (int k - empty_block_table_index s) mod int (reg_count c)"
    unfolding d_def using wf_configD(10) [OF wf] by (intro nat_0_le pos_mod_sign) linarith
  have "(empty_block_table_index s + int d) mod int (reg_count c) = int k mod int (reg_count c)"
    unfolding d mod_add_right_eq by simp
  also have "\<dots> = int k" using k(1) by (intro mod_pos_pos_trivial) linarith+
  finally have "echain s (nat ((empty_block_table_index s + int d) mod int (reg_count c))) \<noteq> []"
    using k(2) by (simp del: int_nat_eq of_nat_nat)
  then show ?thesis ..
qed

lemma get_empty_overall_finds:
  assumes wf: "wf_config c" and "lists_ok c s"
  shows "returns (get_empty_overall c s) (found_block c s)"
  using assms(2)
proof (induction "nat (total_empty_block_nb s)" arbitrary: s rule: less_induct)
  case less
  show ?case
  proof (cases "total_empty_block_nb s = 0")
    case True
    then show ?thesis
      using relisted_refl [OF less.prems]
      by (subst get_empty_overall.simps) (simp add: found_block_def)
  next
    case False
    then obtain d where at: "echain s (nat ((empty_block_table_index s + int d) mod int (reg_count c))) \<noteq> []"
      using next_nonempty_root [OF wf less.prems] by blast
    show ?thesis
    proof (rule overall_within [OF wf less.prems at])
      fix t
      assume t: "lists_ok c t" "total_empty_block_nb t < total_empty_block_nb s"
      then show "returns (get_empty_overall c t) (found_block c t)"
        using less.hyps [of t] total_empty_nonneg [of c t] by simp
    qed
  qed
qed

text \<open>
  With one plane per chip \<^verbatim>\<open>VICTIM_INCHIP\<close> looks at one root only, and may give up while
  other roots still have empty blocks.
\<close>

definition tried_block :: "ssd_config \<Rightarrow> ftl_state \<Rightarrow> int option \<times> ftl_state \<Rightarrow> bool" where
  "tried_block c s r \<longleftrightarrow> relisted c s (snd r) \<and>
     (\<forall>i. fst r = Some i \<longrightarrow> open_block c (snd r) i)"

lemma tried_block_trans: "relisted c s t \<Longrightarrow> tried_block c t r \<Longrightarrow> tried_block c s r"
  unfolding tried_block_def using relisted_trans by blast

lemma get_empty_inchip_tries:
  assumes wf: "wf_config c" and planes: "PLANES_PER_FLASH c = 1" and "lists_ok c s" and k: "k < reg_count c"
  shows "returns (get_empty_inchip c j (int k) s) (tried_block c s)"
  using assms(3)
proof (induction "length (echain s k)" arbitrary: s)
  case 0
  have len: "length (empty_block_list s) = reg_count c" using 0(2) by (simp add: lists_ok_def)
  have get: "aget (empty_block_list s) (int k) = Some (empty_block_list s ! k)"
    using len k by (simp add: aget_def del: of_nat_nat int_nat_eq)
  show ?case
    using 0 get lists_okD(4) [OF 0(2) k] relisted_refl [OF 0(2)]
    by (subst get_empty_inchip.simps) (simp add: tried_block_def planes)
next
  case (Suc n)
  note s = Suc.prems
  obtain e es where e: "echain s k = e # es" using Suc(2) by (cases "echain s k") auto
  have pos: "0 < total_empty_block_nb s" using total_empty_pos [OF s k] e by simp
  have nb: "empty_block_nb (empty_block_list s ! k) \<noteq> 0" using lists_okD(4) [OF s k] e by simp
  have cur: "curr_phy_page_nb e \<le> PAGE_NB c" using lists_okD(3) [OF s k] e by (simp add: chains_ok_def)
  have len: "length (empty_block_list s) = reg_count c" using s by (simp add: lists_ok_def)
  have get: "aget (empty_block_list s) (int k) = Some (empty_block_list s ! k)"
    using len k by (simp add: aget_def del: of_nat_nat int_nat_eq)
  show ?case
  proof (cases "curr_phy_page_nb e = PAGE_NB c")
    case True
    let ?t = "put_chains k es (vchain s k @ [victim_of e]) s"
    have r: "relisted c s ?t" by (rule relisted_retire [OF wf s k e True])
    have "echain ?t k = es" by (simp add: put_chains_chain [OF s k])
    then have "returns (get_empty_inchip c j (int k) ?t) (tried_block c ?t)"
      using Suc(1) [of ?t] Suc(2) e r by (simp add: relisted_def)
    then have "returns (get_empty_inchip c j (int k) ?t) (tried_block c s)"
      using tried_block_trans [OF r] returns_mono by blast
    then show ?thesis
      using pos nb e True
      by (subst get_empty_inchip.simps) (simp add: get head_of_def retire_head_eq [OF s k e])
  next
    case False
    have "open_block c s (int k)" using e False cur k unfolding open_block_def by auto
    then show ?thesis
      using pos nb e False relisted_refl [OF s]
      by (subst get_empty_inchip.simps) (simp add: get head_of_def tried_block_def)
  qed
qed

text \<open>
  \<^verbatim>\<open>VICTIM_NOPARAL\<close>, called with the current table index as \<^verbatim>\<open>_FTL_WRITE\<close> does, keeps
  filling one block and moves the index only over empty roots.
\<close>

lemma noparal_skip:
  assumes "wf_config c" "aget (empty_block_list s) (empty_block_table_index s) = Some r" "empty_block_nb r = 0"
    and "total_empty_block_nb s \<noteq> 0"
  shows "get_empty_noparal c (empty_block_table_index s) s =
    get_empty_noparal c (empty_block_table_index (next_table_index c s)) (next_table_index c s)"
  using assms(2-4) by (subst get_empty_noparal.simps) (simp add: next_table_index_def Let_def)

lemma noparal_nonempty:
  assumes wf: "wf_config c" and s: "lists_ok c s"
    and ne: "echain s (nat (empty_block_table_index s)) \<noteq> []"
    and IH: "\<And>t. lists_ok c t \<Longrightarrow> total_empty_block_nb t < total_empty_block_nb s \<Longrightarrow>
      returns (get_empty_noparal c (empty_block_table_index t) t) (found_block c t)"
  shows "returns (get_empty_noparal c (empty_block_table_index s) s) (found_block c s)"
proof -
  define k where "k = nat (empty_block_table_index s)"
  have k: "k < reg_count c" and ik: "empty_block_table_index s = int k"
    and len: "length (empty_block_list s) = reg_count c"
    using s by (simp_all only: lists_ok_def k_def) linarith+
  obtain e es where e: "echain s k = e # es" using ne k_def by (cases "echain s k") auto
  have pos: "0 < total_empty_block_nb s" using total_empty_pos [OF s k] e by simp
  have nb: "empty_block_nb (empty_block_list s ! k) \<noteq> 0" using lists_okD(4) [OF s k] e by simp
  have cur: "curr_phy_page_nb e \<le> PAGE_NB c" using lists_okD(3) [OF s k] e by (simp add: chains_ok_def)
  have get: "aget (empty_block_list s) (int k) = Some (empty_block_list s ! k)"
    using len k by (simp add: aget_def del: of_nat_nat int_nat_eq)
  show ?thesis
  proof (cases "curr_phy_page_nb e = PAGE_NB c")
    case True
    let ?t = "put_chains k es (vchain s k @ [victim_of e]) s"
    have r: "relisted c s ?t" by (rule relisted_retire [OF wf s k e True])
    have "total_empty_block_nb ?t < total_empty_block_nb s" using e by (simp add: put_chains_def)
    then have "returns (get_empty_noparal c (int k) ?t) (found_block c ?t)"
      using IH [of ?t] r ik by (simp add: relisted_def)
    then have "returns (get_empty_noparal c (int k) ?t) (found_block c s)" by (rule returns_found_trans [OF r])
    then show ?thesis
      using pos nb e True
      by (subst get_empty_noparal.simps) (simp add: ik get head_of_def retire_head_eq [OF s k e])
  next
    case False
    have "open_block c s (int k)" using e False cur k unfolding open_block_def by auto
    then show ?thesis
      using pos nb e False relisted_refl [OF s]
      by (subst get_empty_noparal.simps) (simp add: ik get head_of_def found_block_def)
  qed
qed

lemma noparal_within:
  assumes wf: "wf_config c" and "lists_ok c s" "total_empty_block_nb s \<noteq> 0"
    and "echain s (nat ((empty_block_table_index s + int d) mod int (reg_count c))) \<noteq> []"
    and "\<And>t. lists_ok c t \<Longrightarrow> total_empty_block_nb t < total_empty_block_nb s \<Longrightarrow>
      returns (get_empty_noparal c (empty_block_table_index t) t) (found_block c t)"
  shows "returns (get_empty_noparal c (empty_block_table_index s) s) (found_block c s)"
  using assms(2-)
proof (induction d arbitrary: s)
  case 0
  have "empty_block_table_index s mod int (reg_count c) = empty_block_table_index s"
    using 0(1) by (intro mod_pos_pos_trivial) (simp_all only: lists_ok_def)
  then show ?case using 0 noparal_nonempty [OF wf 0(1)] by simp
next
  case (Suc d)
  define k where "k = nat (empty_block_table_index s)"
  have k: "k < reg_count c" and ik: "empty_block_table_index s = int k"
    and len: "length (empty_block_list s) = reg_count c"
    using Suc.prems(1) by (simp_all only: lists_ok_def k_def) linarith+
  show ?case
  proof (cases "echain s k = []")
    case False
    then show ?thesis using noparal_nonempty [OF wf Suc.prems(1)] Suc.prems(4) k_def by blast
  next
    case True
    let ?u = "next_table_index c s"
    note ru = relisted_next_index [OF wf Suc.prems(1)]
    have "(empty_block_table_index ?u + int d) mod int (reg_count c) =
        (empty_block_table_index s + int (Suc d)) mod int (reg_count c)"
      unfolding next_table_index_mod [OF wf Suc.prems(1)] mod_add_left_eq
      by (simp add: algebra_simps)
    then have "returns (get_empty_noparal c (empty_block_table_index ?u) ?u) (found_block c ?u)"
      using Suc.IH [of ?u] Suc.prems ru by (simp add: relisted_def)
    then have "returns (get_empty_noparal c (empty_block_table_index ?u) ?u) (found_block c s)"
      by (rule returns_found_trans [OF ru])
    moreover have "aget (empty_block_list s) (empty_block_table_index s) = Some (empty_block_list s ! k)"
      using len k ik by (simp add: aget_def del: of_nat_nat int_nat_eq)
    moreover have "empty_block_nb (empty_block_list s ! k) = 0"
      using lists_okD(4) [OF Suc.prems(1) k] True by simp
    ultimately show ?thesis using noparal_skip [OF wf] Suc.prems(2) by simp
  qed
qed

lemma get_empty_noparal_finds:
  assumes wf: "wf_config c" and "lists_ok c s"
  shows "returns (get_empty_noparal c (empty_block_table_index s) s) (found_block c s)"
  using assms(2)
proof (induction "nat (total_empty_block_nb s)" arbitrary: s rule: less_induct)
  case less
  show ?case
  proof (cases "total_empty_block_nb s = 0")
    case True
    then show ?thesis
      using relisted_refl [OF less.prems]
      by (subst get_empty_noparal.simps) (simp add: found_block_def)
  next
    case False
    then obtain d where at: "echain s (nat ((empty_block_table_index s + int d) mod int (reg_count c))) \<noteq> []"
      using next_nonempty_root [OF wf less.prems] by blast
    show ?thesis
    proof (rule noparal_within [OF wf less.prems False at])
      fix t
      assume t: "lists_ok c t" "total_empty_block_nb t < total_empty_block_nb s"
      then show "returns (get_empty_noparal c (empty_block_table_index t) t) (found_block c t)"
        using less.hyps [of t] total_empty_nonneg [of c t] by simp
    qed
  qed
qed

section \<open>The state of a page\<close>

definition blocks_ok :: "ssd_config \<Rightarrow> ftl_state \<Rightarrow> bool" where
  "blocks_ok c s \<longleftrightarrow>
     length (block_state_table s) = nat (BLOCK_NB c * FLASH_NB c) \<and>
     (\<forall>e\<in>set (block_state_table s). length (valid_array e) = nat (PAGE_NB c) \<and>
        valid_page_nb e = int (count_list (valid_array e) (CHR ''V'')))"

definition page_state :: "ssd_config \<Rightarrow> ftl_state \<Rightarrow> int \<Rightarrow> char" where
  "page_state c s ppn =
     valid_array (block_state_table s ! nat (ppn div PAGE_NB c)) ! nat (ppn mod PAGE_NB c)"

definition in_ssd :: "ssd_config \<Rightarrow> int \<Rightarrow> bool" where
  "in_ssd c ppn \<longleftrightarrow> 0 \<le> ppn \<and> ppn < PAGE_NB c * BLOCK_NB c * FLASH_NB c"

definition in_chip :: "ssd_config \<Rightarrow> int \<Rightarrow> int \<Rightarrow> bool" where
  "in_chip c flash_nb block_nb \<longleftrightarrow>
     0 \<le> flash_nb \<and> flash_nb < FLASH_NB c \<and> 0 \<le> block_nb \<and> block_nb < BLOCK_NB c"

lemma in_ssd_block:
  assumes "wf_config c" "in_ssd c ppn"
  shows "0 \<le> ppn div PAGE_NB c" "ppn div PAGE_NB c < BLOCK_NB c * FLASH_NB c"
    "0 \<le> ppn mod PAGE_NB c" "ppn mod PAGE_NB c < PAGE_NB c"
proof -
  have P: "0 < PAGE_NB c" by (rule wf_configD(2) [OF assms(1)])
  have "ppn < (BLOCK_NB c * FLASH_NB c) * PAGE_NB c" using assms(2) by (simp add: in_ssd_def ac_simps)
  then show "ppn div PAGE_NB c < BLOCK_NB c * FLASH_NB c" by (rule div_less_bound [OF P])
  show "0 \<le> ppn div PAGE_NB c" "0 \<le> ppn mod PAGE_NB c" "ppn mod PAGE_NB c < PAGE_NB c"
    using assms(2) P by (simp_all add: in_ssd_def pos_imp_zdiv_nonneg_iff)
qed

lemma in_ssd_page:
  assumes "0 \<le> a" "a < BLOCK_NB c * FLASH_NB c" "0 \<le> p" "p < PAGE_NB c"
  shows "in_ssd c (a * PAGE_NB c + p)" "(a * PAGE_NB c + p) div PAGE_NB c = a"
    "(a * PAGE_NB c + p) mod PAGE_NB c = p"
proof -
  have "a * PAGE_NB c \<le> (BLOCK_NB c * FLASH_NB c - 1) * PAGE_NB c"
    using assms by (intro mult_right_mono) auto
  then have "a * PAGE_NB c + p < BLOCK_NB c * FLASH_NB c * PAGE_NB c"
    using assms(4) by (simp add: algebra_simps)
  then show "in_ssd c (a * PAGE_NB c + p)" using assms by (simp add: in_ssd_def ac_simps)
  show "(a * PAGE_NB c + p) div PAGE_NB c = a" "(a * PAGE_NB c + p) mod PAGE_NB c = p"
    using assms by simp_all
qed

text \<open>\<open>marked c A ch s s'\<close>: the pages in \<open>A\<close> became \<open>ch\<close>, nothing else changed.\<close>

definition marked :: "ssd_config \<Rightarrow> int set \<Rightarrow> char \<Rightarrow> ftl_state \<Rightarrow> ftl_state \<Rightarrow> bool" where
  "marked c A ch s s' \<longleftrightarrow> blocks_ok c s' \<and> s' = s\<lparr>block_state_table := block_state_table s'\<rparr> \<and>
     (\<forall>q. in_ssd c q \<longrightarrow> page_state c s' q = (if q \<in> A then ch else page_state c s q))"

lemma marked_fields:
  assumes "marked c A ch s s'"
  shows "mapping_table s' = mapping_table s" "inverse_mapping_table s' = inverse_mapping_table s"
    "empty_block_list s' = empty_block_list s" "victim_block_list s' = victim_block_list s"
    "total_empty_block_nb s' = total_empty_block_nb s"
    "total_victim_block_nb s' = total_victim_block_nb s"
    "empty_block_table_index s' = empty_block_table_index s"
    "gc_count s' = gc_count s" "fail_cnt s' = fail_cnt s"
proof -
  obtain x where "s' = s\<lparr>block_state_table := x\<rparr>" using assms unfolding marked_def by blast
  then show "mapping_table s' = mapping_table s" "inverse_mapping_table s' = inverse_mapping_table s"
    "empty_block_list s' = empty_block_list s" "victim_block_list s' = victim_block_list s"
    "total_empty_block_nb s' = total_empty_block_nb s"
    "total_victim_block_nb s' = total_victim_block_nb s"
    "empty_block_table_index s' = empty_block_table_index s"
    "gc_count s' = gc_count s" "fail_cnt s' = fail_cnt s"
    by simp_all
qed

lemma marked_refl: "blocks_ok c s \<Longrightarrow> marked c {} ch s s"
  by (simp add: marked_def)

lemma marked_trans:
  assumes "marked c A ch s t" "marked c B ch t u"
  shows "marked c (A \<union> B) ch s u"
proof -
  obtain x y where "t = s\<lparr>block_state_table := x\<rparr>" "u = t\<lparr>block_state_table := y\<rparr>"
    using assms unfolding marked_def by blast
  then have "u = s\<lparr>block_state_table := block_state_table u\<rparr>" by simp
  then show ?thesis using assms by (simp add: marked_def)
qed

lemma recount_valid:
  assumes "length arr = nat P" "0 \<le> P"
  shows "ofold (count_valid_step arr) [0..P - 1] 0 = Some (int (count_list arr (CHR ''V'')))"
proof -
  have "returns (ofold (count_valid_step arr) [0..P - 1] 0)
      (\<lambda>n. n = int (count_list (take (nat P) arr) (CHR ''V'')))"
  proof (rule ofold_range)
    fix i n
    assume i: "0 \<le> i" "i < P" and n: "n = int (count_list (take (nat i) arr) (CHR ''V''))"
    have "take (nat (i + 1)) arr = take (nat i) arr @ [arr ! nat i]"
      using i assms by (simp add: nat_add_distrib take_Suc_conv_app_nth)
    then show "returns (count_valid_step arr i n)
        (\<lambda>n. n = int (count_list (take (nat (i + 1)) arr) (CHR ''V'')))"
      using i n assms by (simp add: count_valid_step_def vc)
  qed (use assms in simp_all)
  then show ?thesis using assms by (auto simp: returns_def)
qed

lemma page_state_update:
  assumes "wf_config c" "blocks_ok c s" "in_ssd c q" "0 \<le> a" "a < BLOCK_NB c * FLASH_NB c"
  shows "page_state c (s\<lparr>block_state_table := (block_state_table s)[nat a := e]\<rparr>) q =
    (if q div PAGE_NB c = a then valid_array e ! nat (q mod PAGE_NB c) else page_state c s q)"
  using assms in_ssd_block [OF assms(1,3)]
  by (auto simp: page_state_def blocks_ok_def nth_list_update)

lemma blocks_ok_update:
  assumes "blocks_ok c s" "length (valid_array e) = nat (PAGE_NB c)"
    and "valid_page_nb e = int (count_list (valid_array e) (CHR ''V''))"
  shows "blocks_ok c (s\<lparr>block_state_table := (block_state_table s)[i := e]\<rparr>)"
  using assms by (auto simp: blocks_ok_def dest!: set_update_subset_insert [THEN subsetD])

lemma UPDATE_BLOCK_STATE_ENTRY_marks:
  assumes wf: "wf_config c" and s: "blocks_ok c s" and fb: "in_chip c f b"
    and p: "0 \<le> p" "p < PAGE_NB c"
  shows "returns (UPDATE_BLOCK_STATE_ENTRY c f b p m s)
    (\<lambda>(r, s'). r = SUCCESS \<and> marked c {block_index c f b * PAGE_NB c + p} (mark_char m) s s')"
proof -
  let ?a = "block_index c f b"
  have a: "0 \<le> ?a" "?a < BLOCK_NB c * FLASH_NB c"
    using fb block_index_range [of f "FLASH_NB c" b "BLOCK_NB c" c] by (auto simp: in_chip_def)
  let ?e = "block_state_table s ! nat ?a"
  let ?arr = "(valid_array ?e)[nat p := mark_char m]"
  have e: "?e \<in> set (block_state_table s)" using a s by (simp add: blocks_ok_def)
  then have len: "length ?arr = nat (PAGE_NB c)" using s by (simp add: blocks_ok_def)
  let ?s = "s\<lparr>block_state_table := (block_state_table s)[nat ?a :=
    ?e\<lparr>valid_array := ?arr, valid_page_nb := int (count_list ?arr (CHR ''V''))\<rparr>]\<rparr>"
  have "UPDATE_BLOCK_STATE_ENTRY c f b p m s = Some (SUCCESS, ?s)"
    using fb p a s len recount_valid [OF len]
    by (simp add: UPDATE_BLOCK_STATE_ENTRY_def GET_BLOCK_STATE_ENTRY_def set_block_state_entry_def
        aget_def aset_def in_chip_def blocks_ok_def)
  moreover have "blocks_ok c ?s"
    by (rule blocks_ok_update [OF s]) (simp_all add: len [simplified])
  moreover have "page_state c ?s q =
      (if q = ?a * PAGE_NB c + p then mark_char m else page_state c s q)" if q: "in_ssd c q" for q
  proof -
    have "nat p = nat (q mod PAGE_NB c) \<longleftrightarrow> p = q mod PAGE_NB c"
      by (rule eq_nat_nat_iff [OF p(1) in_ssd_block(3) [OF wf q]])
    moreover have "q = ?a * PAGE_NB c + p \<longleftrightarrow> q div PAGE_NB c = ?a \<and> q mod PAGE_NB c = p"
      using p by (metis div_mult_mod_eq in_ssd_page(2,3) a)
    ultimately show ?thesis
      using len in_ssd_block [OF wf q]
      unfolding page_state_update [OF wf s q a]
      by (auto simp: page_state_def nth_list_update)
  qed
  ultimately show ?thesis by (simp add: marked_def)
qed

lemma block_type_marks:
  assumes wf: "wf_config c" and s: "blocks_ok c s" and a: "0 \<le> a" "a < BLOCK_NB c * FLASH_NB c"
  shows "marked c {} ch s
    (s\<lparr>block_state_table := (block_state_table s)[nat a := (block_state_table s ! nat a)\<lparr>bs_type := t\<rparr>]\<rparr>)"
proof -
  let ?e = "block_state_table s ! nat a"
  have "?e \<in> set (block_state_table s)" using a s by (simp add: blocks_ok_def)
  then have "blocks_ok c (s\<lparr>block_state_table := (block_state_table s)[nat a := ?e\<lparr>bs_type := t\<rparr>]\<rparr>)"
    using s by (intro blocks_ok_update) (auto simp: blocks_ok_def)
  moreover have "page_state c (s\<lparr>block_state_table :=
      (block_state_table s)[nat a := ?e\<lparr>bs_type := t\<rparr>]\<rparr>) q = page_state c s q" if "in_ssd c q" for q
    unfolding page_state_update [OF wf s that a] by (simp add: page_state_def)
  ultimately show ?thesis by (simp add: marked_def)
qed

lemma UPDATE_BLOCK_STATE_data:
  assumes wf: "wf_config c" and s: "blocks_ok c s" and fb: "in_chip c f b"
  shows "returns (UPDATE_BLOCK_STATE c f b DATA_BLOCK s) (marked c {} ch s)"
proof -
  let ?a = "block_index c f b"
  have a: "0 \<le> ?a" "?a < BLOCK_NB c * FLASH_NB c"
    using fb block_index_range [of f "FLASH_NB c" b "BLOCK_NB c" c] by (auto simp: in_chip_def)
  then show ?thesis
    using s block_type_marks [OF wf s a, of ch DATA_BLOCK]
    by (simp add: UPDATE_BLOCK_STATE_def GET_BLOCK_STATE_ENTRY_def set_block_state_entry_def vc
        blocks_ok_def)
qed

lemma UPDATE_BLOCK_STATE_erases:
  assumes wf: "wf_config c" and s: "blocks_ok c s" and fb: "in_chip c f b"
  shows "returns (UPDATE_BLOCK_STATE c f b EMPTY_BLOCK s)
    (marked c {q. q div PAGE_NB c = block_index c f b} (CHR ''0'') s)"
proof -
  let ?a = "block_index c f b" and ?P = "PAGE_NB c"
  have P: "0 \<le> ?P" using wf_configD(2) [OF wf] by simp
  have a: "0 \<le> ?a" "?a < BLOCK_NB c * FLASH_NB c"
    using fb block_index_range [of f "FLASH_NB c" b "BLOCK_NB c" c] by (auto simp: in_chip_def)
  let ?s = "s\<lparr>block_state_table := (block_state_table s)[nat ?a :=
    (block_state_table s ! nat ?a)\<lparr>bs_type := EMPTY_BLOCK\<rparr>]\<rparr>"
  let ?I = "\<lambda>i. marked c {q. q div ?P = ?a \<and> q mod ?P < i} (CHR ''0'') s"
  have "returns (ofold (\<lambda>i s. map_option snd (UPDATE_BLOCK_STATE_ENTRY c f b i ZERO s)) [0..?P - 1] ?s)
      (?I ?P)"
  proof (rule ofold_range [where I = ?I])
    have none: "{q. q div ?P = ?a \<and> q mod ?P < 0} = {}"
      using wf_configD(2) [OF wf] by (auto simp: not_less)
    show "?I 0 ?s" unfolding none by (rule block_type_marks [OF wf s a])
  next
    fix i t
    assume i: "0 \<le> i" "i < ?P" and t: "?I i t"
    then have "blocks_ok c t" by (simp add: marked_def)
    from UPDATE_BLOCK_STATE_ENTRY_marks [OF wf this fb i, of ZERO]
    obtain u where u: "UPDATE_BLOCK_STATE_ENTRY c f b i ZERO t = Some (SUCCESS, u)"
      "marked c {?a * ?P + i} (CHR ''0'') t u" by (auto simp: returns_def)
    have "{q. q div ?P = ?a \<and> q mod ?P < i} \<union> {?a * ?P + i} = {q. q div ?P = ?a \<and> q mod ?P < i + 1}"
    proof (intro set_eqI iffI)
      fix q
      assume "q \<in> {q. q div ?P = ?a \<and> q mod ?P < i + 1}"
      then have "q div ?P = ?a" "q mod ?P < i \<or> q mod ?P = i" by auto
      then show "q \<in> {q. q div ?P = ?a \<and> q mod ?P < i} \<union> {?a * ?P + i}"
        using div_mult_mod_eq [of q ?P] by auto
    qed (use i in_ssd_page(2,3) [OF a i] in auto)
    then show "returns (map_option snd (UPDATE_BLOCK_STATE_ENTRY c f b i ZERO t)) (?I (i + 1))"
      using marked_trans [OF t u(2)] u(1) by simp
  qed (rule P)
  moreover have "{q. q div ?P = ?a \<and> q mod ?P < ?P} = {q. q div ?P = ?a}"
    using wf_configD(2) [OF wf] by auto
  ultimately show ?thesis
    using a s
    by (simp add: UPDATE_BLOCK_STATE_def GET_BLOCK_STATE_ENTRY_def set_block_state_entry_def vc
        blocks_ok_def)
qed

section \<open>The in-chip search with two planes\<close>

text \<open>
  The wrap-around \<^verbatim>\<open>mapping_index - (PLANES_PER_FLASH-1)\<close> does not lead back to an even
  starting index: with two planes, both of whose roots are empty, the search stays at the odd
  index for ever.
\<close>

lemma inchip_odd_index_loops:
  assumes "get_empty_inchip c i j s = Some r" "PLANES_PER_FLASH c = 2" "even i" "0 \<le> i" "j = i + 1"
    and "empty_block_nb (empty_block_list s ! nat j) = 0" "total_empty_block_nb s \<noteq> 0"
  shows False
proof -
  let ?P = "\<lambda>c i j s r. \<not> (PLANES_PER_FLASH c = 2 \<and> even i \<and> 0 \<le> i \<and> j = i + 1 \<and>
      empty_block_nb (empty_block_list s ! nat j) = 0 \<and> total_empty_block_nb s \<noteq> 0)"
  have "?P c i j s r"
  proof (rule get_empty_inchip.raw_induct [where P = ?P, OF _ assms(1)], rule notI)
    fix f c i j s r
    assume ih: "\<And>c i j s r. f c i j s = Some r \<Longrightarrow> ?P c i j s r"
      and a: "PLANES_PER_FLASH c = 2 \<and> even i \<and> 0 \<le> i \<and> j = i + 1 \<and>
        empty_block_nb (empty_block_list s ! nat j) = 0 \<and> total_empty_block_nb s \<noteq> 0"
      and run: "(if total_empty_block_nb s = 0 then Some (None, s)
        else aget (empty_block_list s) j \<bind> (\<lambda>root. if empty_block_nb root = 0
          then if PLANES_PER_FLASH c \<noteq> 1
            then let i' = if (j + 1) smod PLANES_PER_FLASH c = 0 then j + 1 - (PLANES_PER_FLASH c - 1) else j + 1
              in if i' = i then Some (None, s) else f c i i' s
            else Some (None, s)
          else head_of (empty_chain root) \<bind> (\<lambda>e. if curr_phy_page_nb e = PAGE_NB c
            then retire_head c j s \<bind> f c i j else Some (Some j, s)))) = Some r"
    have "(j + 1) smod 2 = 0" using a by (simp add: smod_nonneg)
    then have "f c i j s = Some r"
      using run a by (auto simp: aget_def Let_def add.commute [of 1 i] split: if_splits)
    then show False using ih a by blast
  qed
  then show False using assms by simp
qed

lemma inchip_two_planes_diverges:
  assumes "PLANES_PER_FLASH c = 2" "even i" "0 \<le> i" "total_empty_block_nb s \<noteq> 0"
    and "empty_block_nb (empty_block_list s ! nat i) = 0" "empty_block_nb (empty_block_list s ! nat (i + 1)) = 0"
  shows "get_empty_inchip c i i s = None"
proof (rule ccontr)
  assume "get_empty_inchip c i i s \<noteq> None"
  then obtain r where r: "get_empty_inchip c i i s = Some r" by blast
  have "(i + 1) smod 2 \<noteq> 0" using assms(2,3) by (simp add: smod_nonneg) presburger
  then have "get_empty_inchip c i (i + 1) s = Some r"
    using r assms by (auto simp: get_empty_inchip.simps [of c i i] aget_def Let_def split: if_splits)
  then show False using inchip_odd_index_loops assms by blast
qed

end
