(* ===== verification/Mapping_Manager.thy ===== *)
theory Mapping_Manager
  imports Block_Manager
begin

text \<open>
  \<^verbatim>\<open>FTL/PAGE_MAP/ftl_mapping_manager.c\<close>: the table from logical to physical pages, the
  allocation of a fresh physical page, and the decomposition of a physical page number.
\<close>

definition GET_MAPPING_INFO :: "int \<Rightarrow> ftl_state \<Rightarrow> int option" where
  "GET_MAPPING_INFO lpn s = aget (mapping_table s) lpn"

definition CALC_FLASH :: "ssd_config \<Rightarrow> int \<Rightarrow> int" where
  "CALC_FLASH c ppn = u32 ((ppn sdiv PAGE_NB c) sdiv BLOCK_NB c)"

definition CALC_BLOCK :: "ssd_config \<Rightarrow> int \<Rightarrow> int" where
  "CALC_BLOCK c ppn = u32 ((ppn sdiv PAGE_NB c) smod BLOCK_NB c)"

definition CALC_PAGE :: "ssd_config \<Rightarrow> int \<Rightarrow> int" where
  "CALC_PAGE c ppn = u32 (ppn smod PAGE_NB c)"

text \<open>
  \<^verbatim>\<open>GET_NEW_PAGE\<close> returns \<^verbatim>\<open>SUCCESS\<close> with the page stored through its pointer argument
  (\<open>Some ppn\<close>), or \<^verbatim>\<open>FAIL\<close> with nothing stored (\<open>None\<close>).
\<close>

definition take_page :: "ssd_config \<Rightarrow> int \<Rightarrow> ftl_state \<Rightarrow> (int \<times> ftl_state) option" where
  "take_page c i s = do {
     root \<leftarrow> aget (empty_block_list s) i;
     e \<leftarrow> head_of (empty_chain root);
     let ppn = i32 (phy_flash_nb e * BLOCK_NB c * PAGE_NB c + phy_block_nb e * PAGE_NB c
                    + curr_phy_page_nb e);
     roots \<leftarrow> aset (empty_block_list s) i
       (root\<lparr>empty_chain := e\<lparr>curr_phy_page_nb := curr_phy_page_nb e + 1\<rparr> # tl (empty_chain root)\<rparr>);
     Some (ppn, s\<lparr>empty_block_list := roots\<rparr>)
   }"

definition GET_NEW_PAGE ::
  "ssd_config \<Rightarrow> victim_mode \<Rightarrow> int \<Rightarrow> ftl_state \<Rightarrow> (int option \<times> ftl_state) option" where
  "GET_NEW_PAGE c mode mapping_index s = do {
     (blk, s) \<leftarrow> GET_EMPTY_BLOCK c mode mapping_index s;
     (blk, s) \<leftarrow> (if mode = VICTIM_INCHIP \<and> blk = None
                  then GET_EMPTY_BLOCK c VICTIM_OVERALL mapping_index s
                  else Some (blk, s));
     case blk of
       None \<Rightarrow> Some (None, s)
     | Some i \<Rightarrow> do {
         (ppn, s) \<leftarrow> take_page c i s;
         Some (Some ppn, s)
       }
   }"

definition UPDATE_OLD_PAGE_MAPPING :: "ssd_config \<Rightarrow> int \<Rightarrow> ftl_state \<Rightarrow> ftl_state option" where
  "UPDATE_OLD_PAGE_MAPPING c lpn s = do {
     old_ppn \<leftarrow> GET_MAPPING_INFO lpn s;
     if old_ppn = -1 then Some s
     else do {
       (ret, s) \<leftarrow> UPDATE_BLOCK_STATE_ENTRY c (CALC_FLASH c old_ppn) (CALC_BLOCK c old_ppn)
                     (CALC_PAGE c old_ppn) INVALID s;
       UPDATE_INVERSE_MAPPING old_ppn (-1) s
     }
   }"

definition UPDATE_NEW_PAGE_MAPPING :: "ssd_config \<Rightarrow> int \<Rightarrow> int \<Rightarrow> ftl_state \<Rightarrow> ftl_state option" where
  "UPDATE_NEW_PAGE_MAPPING c lpn ppn s = do {
     t \<leftarrow> aset (mapping_table s) lpn ppn;
     let s = s\<lparr>mapping_table := t\<rparr>;
     (ret, s) \<leftarrow> UPDATE_BLOCK_STATE_ENTRY c (CALC_FLASH c ppn) (CALC_BLOCK c ppn)
                   (CALC_PAGE c ppn) VALID s;
     s \<leftarrow> UPDATE_BLOCK_STATE c (CALC_FLASH c ppn) (CALC_BLOCK c ppn) DATA_BLOCK s;
     UPDATE_INVERSE_MAPPING ppn lpn s
   }"

section \<open>Physical page numbers\<close>

lemma wf_small:
  assumes "wf_config c"
  shows "PAGE_NB c * BLOCK_NB c * FLASH_NB c < 2147483648" "PAGES_IN_SSD c = PAGE_NB c * BLOCK_NB c * FLASH_NB c"
proof -
  show 1: "PAGES_IN_SSD c = PAGE_NB c * BLOCK_NB c * FLASH_NB c" using assms by (simp add: wf_config_def)
  have "1 * PAGES_IN_SSD c \<le> SECTORS_PER_PAGE c * PAGES_IN_SSD c"
    using wf_configD(1-4) [OF assms] 1 by (intro mult_right_mono) auto
  moreover have "SECTORS_PER_PAGE c * PAGES_IN_SSD c < 2147483648"
    using assms unfolding wf_config_def by metis
  ultimately show "PAGE_NB c * BLOCK_NB c * FLASH_NB c < 2147483648" using 1 by linarith
qed

lemma calc_ppn:
  assumes wf: "wf_config c" and p: "in_ssd c ppn"
  shows "CALC_FLASH c ppn = ppn div PAGE_NB c div BLOCK_NB c"
    "CALC_BLOCK c ppn = ppn div PAGE_NB c mod BLOCK_NB c"
    "CALC_PAGE c ppn = ppn mod PAGE_NB c"
    "in_chip c (CALC_FLASH c ppn) (CALC_BLOCK c ppn)"
    "block_index c (CALC_FLASH c ppn) (CALC_BLOCK c ppn) = ppn div PAGE_NB c"
    "0 \<le> CALC_PAGE c ppn" "CALC_PAGE c ppn < PAGE_NB c"
proof -
  note g = wf_configD(1-4) [OF wf]
  note b = in_ssd_block [OF wf p]
  have small: "ppn < 2147483648" "0 \<le> ppn" using p wf_small(1) [OF wf] by (auto simp: in_ssd_def)
  have d: "ppn div PAGE_NB c \<le> ppn" using small g by (simp add: div_le_self)
  have f: "ppn div PAGE_NB c div BLOCK_NB c \<le> ppn div PAGE_NB c" "0 \<le> ppn div PAGE_NB c div BLOCK_NB c"
    using b g by (simp_all add: div_le_self pos_imp_zdiv_nonneg_iff)
  have m: "ppn div PAGE_NB c mod BLOCK_NB c \<le> ppn div PAGE_NB c" "0 \<le> ppn div PAGE_NB c mod BLOCK_NB c"
    "ppn mod PAGE_NB c \<le> ppn"
    using b g small by (simp_all add: zmod_le_nonneg_dividend)
  have sm: "ppn div PAGE_NB c smod BLOCK_NB c = ppn div PAGE_NB c mod BLOCK_NB c"
    "ppn smod PAGE_NB c = ppn mod PAGE_NB c"
    using b(1) g small by (simp_all add: smod_nonneg del: pos_imp_zdiv_nonneg_iff)
  have q: "ppn sdiv PAGE_NB c = ppn div PAGE_NB c" using g small by (simp add: c_arith)
  show 1: "CALC_FLASH c ppn = ppn div PAGE_NB c div BLOCK_NB c"
    unfolding CALC_FLASH_def q using b(1) g d f small by (simp add: sdiv_nonneg u32_id)
  show 2: "CALC_BLOCK c ppn = ppn div PAGE_NB c mod BLOCK_NB c"
    unfolding CALC_BLOCK_def q sm using d m small by (intro u32_id) linarith+
  show 3: "CALC_PAGE c ppn = ppn mod PAGE_NB c"
    unfolding CALC_PAGE_def sm using b(3) m small by (intro u32_id) linarith+
  have "ppn div PAGE_NB c div BLOCK_NB c < FLASH_NB c"
    using b(2) by (intro div_less_bound [OF g(3)]) (simp only: mult.commute)
  then show "in_chip c (CALC_FLASH c ppn) (CALC_BLOCK c ppn)"
    unfolding 1 2 in_chip_def using b g by (simp add: pos_imp_zdiv_nonneg_iff)
  show "block_index c (CALC_FLASH c ppn) (CALC_BLOCK c ppn) = ppn div PAGE_NB c"
    unfolding 1 2 block_index_def by simp
  show "0 \<le> CALC_PAGE c ppn" "CALC_PAGE c ppn < PAGE_NB c" unfolding 3 using b by simp_all
qed

section \<open>The invariant of the mapping tables\<close>

abbreviation ppn_of :: "ftl_state \<Rightarrow> int \<Rightarrow> int" where
  "ppn_of s lpn \<equiv> mapping_table s ! nat lpn"

abbreviation lpn_of :: "ftl_state \<Rightarrow> int \<Rightarrow> int" where
  "lpn_of s ppn \<equiv> inverse_mapping_table s ! nat ppn"

text \<open>
  A mapped logical page of \<open>M\<close> has a valid physical page that points back to it, and a
  valid physical page of \<open>L\<close> is the page of some logical page.
\<close>

definition map_ok :: "ssd_config \<Rightarrow> int set \<Rightarrow> int set \<Rightarrow> ftl_state \<Rightarrow> bool" where
  "map_ok c M L s \<longleftrightarrow>
     length (mapping_table s) = nat (PAGE_NB c * BLOCK_NB c * FLASH_NB c) \<and>
     length (inverse_mapping_table s) = nat (PAGE_NB c * BLOCK_NB c * FLASH_NB c) \<and>
     (\<forall>lpn. lpn \<in> M \<longrightarrow> in_ssd c lpn \<longrightarrow> ppn_of s lpn \<noteq> -1 \<longrightarrow>
        in_ssd c (ppn_of s lpn) \<and> lpn_of s (ppn_of s lpn) = lpn \<and>
        page_state c s (ppn_of s lpn) = CHR ''V'') \<and>
     (\<forall>ppn. ppn \<in> L \<longrightarrow> in_ssd c ppn \<longrightarrow> page_state c s ppn = CHR ''V'' \<longrightarrow>
        in_ssd c (lpn_of s ppn) \<and> ppn_of s (lpn_of s ppn) = ppn)"

text \<open>No valid page of \<open>L\<close> claims to hold \<open>lpn\<close>.\<close>

definition unclaimed :: "ssd_config \<Rightarrow> int set \<Rightarrow> int \<Rightarrow> ftl_state \<Rightarrow> bool" where
  "unclaimed c L lpn s \<longleftrightarrow>
     (\<forall>ppn. ppn \<in> L \<longrightarrow> in_ssd c ppn \<longrightarrow> page_state c s ppn = CHR ''V'' \<longrightarrow> lpn_of s ppn \<noteq> lpn)"

definition same_lists :: "ftl_state \<Rightarrow> ftl_state \<Rightarrow> bool" where
  "same_lists s s' \<longleftrightarrow>
     empty_block_list s' = empty_block_list s \<and> victim_block_list s' = victim_block_list s \<and>
     total_empty_block_nb s' = total_empty_block_nb s \<and>
     total_victim_block_nb s' = total_victim_block_nb s \<and>
     empty_block_table_index s' = empty_block_table_index s \<and>
     gc_count s' = gc_count s \<and> fail_cnt s' = fail_cnt s"

lemma same_lists_refl [simp]: "same_lists s s"
  by (simp add: same_lists_def)

lemma same_lists_trans: "same_lists s t \<Longrightarrow> same_lists t u \<Longrightarrow> same_lists s u"
  by (simp add: same_lists_def)

lemma same_lists_cong:
  assumes "same_lists s s'"
  shows "lists_ok c s' = lists_ok c s" "listed c s' = listed c s" "free_pages c s' = free_pages c s"
  using assms by (simp_all add: same_lists_def lists_ok_def listed_def free_pages_def)

lemma marked_same_lists: "marked c A ch s s' \<Longrightarrow> same_lists s s'"
  by (simp add: same_lists_def marked_fields)

lemma nth_nat_update:
  assumes "0 \<le> i" "0 \<le> j" "i < int (length xs)"
  shows "xs[nat i := v] ! nat j = (if i = j then v else xs ! nat j)"
  using assms by (auto simp: nth_list_update eq_nat_nat_iff)

section \<open>Replacing the page of a logical page\<close>

lemma map_ok_lengths:
  assumes "map_ok c M L s" "in_ssd c p"
  shows "p < int (length (mapping_table s))" "p < int (length (inverse_mapping_table s))" "0 \<le> p"
  using assms by (auto simp: map_ok_def in_ssd_def)

lemma map_okD:
  assumes "map_ok c M L s"
  shows "lpn \<in> M \<Longrightarrow> in_ssd c lpn \<Longrightarrow> ppn_of s lpn \<noteq> -1 \<Longrightarrow> in_ssd c (ppn_of s lpn)"
    "lpn \<in> M \<Longrightarrow> in_ssd c lpn \<Longrightarrow> ppn_of s lpn \<noteq> -1 \<Longrightarrow> lpn_of s (ppn_of s lpn) = lpn"
    "lpn \<in> M \<Longrightarrow> in_ssd c lpn \<Longrightarrow> ppn_of s lpn \<noteq> -1 \<Longrightarrow> page_state c s (ppn_of s lpn) = CHR ''V''"
    "ppn \<in> L \<Longrightarrow> in_ssd c ppn \<Longrightarrow> page_state c s ppn = CHR ''V'' \<Longrightarrow> in_ssd c (lpn_of s ppn)"
    "ppn \<in> L \<Longrightarrow> in_ssd c ppn \<Longrightarrow> page_state c s ppn = CHR ''V'' \<Longrightarrow> ppn_of s (lpn_of s ppn) = ppn"
  using assms by (simp_all add: map_ok_def)

lemma map_ok_mono: "map_ok c M L s \<Longrightarrow> M' \<subseteq> M \<Longrightarrow> L' \<subseteq> L \<Longrightarrow> map_ok c M' L' s"
  by (auto simp: map_ok_def)

lemma unclaimedI:
  assumes "map_ok c M L s" "ppn_of s lpn \<notin> L \<or> page_state c s (ppn_of s lpn) \<noteq> CHR ''V''"
  shows "unclaimed c L lpn s"
  using assms map_okD(5) [OF assms(1)] unfolding unclaimed_def by metis

text \<open>\<open>moved c lpn ppn s s'\<close>: the logical page \<open>lpn\<close> now lives on page \<open>ppn\<close>.\<close>

definition moved :: "ssd_config \<Rightarrow> int \<Rightarrow> int \<Rightarrow> ftl_state \<Rightarrow> ftl_state \<Rightarrow> bool" where
  "moved c lpn ppn s s' \<longleftrightarrow> blocks_ok c s' \<and> same_lists s s' \<and>
     mapping_table s' = (mapping_table s)[nat lpn := ppn] \<and>
     inverse_mapping_table s' = (inverse_mapping_table s)[nat ppn := lpn] \<and>
     (\<forall>q. in_ssd c q \<longrightarrow> page_state c s' q = (if q = ppn then CHR ''V'' else page_state c s q))"

lemma UPDATE_NEW_PAGE_MAPPING_moves:
  assumes wf: "wf_config c" and s: "blocks_ok c s" "map_ok c M L s"
    and lpn: "in_ssd c lpn" and ppn: "in_ssd c ppn"
  shows "returns (UPDATE_NEW_PAGE_MAPPING c lpn ppn s) (moved c lpn ppn s)"
proof -
  let ?f = "CALC_FLASH c ppn" and ?b = "CALC_BLOCK c ppn" and ?p = "CALC_PAGE c ppn"
  note fb = calc_ppn [OF wf ppn]
  let ?s1 = "s\<lparr>mapping_table := (mapping_table s)[nat lpn := ppn]\<rparr>"
  have s1: "blocks_ok c ?s1" using s(1) by (simp add: blocks_ok_def)
  obtain s2 where s2: "UPDATE_BLOCK_STATE_ENTRY c ?f ?b ?p VALID ?s1 = Some (SUCCESS, s2)"
    "marked c {ppn div PAGE_NB c * PAGE_NB c + ?p} (CHR ''V'') ?s1 s2"
    using UPDATE_BLOCK_STATE_ENTRY_marks [OF wf s1 fb(4,6,7), of VALID]
    by (auto simp: returns_def fb(5))
  have p: "ppn div PAGE_NB c * PAGE_NB c + ?p = ppn" by (simp add: fb(3))
  obtain s3 where s3: "UPDATE_BLOCK_STATE c ?f ?b DATA_BLOCK s2 = Some s3"
    "marked c {} (CHR ''V'') s2 s3"
    using UPDATE_BLOCK_STATE_data [OF wf _ fb(4), of s2] s2(2) by (auto simp: returns_def marked_def)
  have m: "marked c {ppn} (CHR ''V'') ?s1 s3" using marked_trans [OF s2(2) s3(2)] p by simp
  note f = marked_fields [OF m]
  let ?s4 = "s3\<lparr>inverse_mapping_table := (inverse_mapping_table s3)[nat ppn := lpn]\<rparr>"
  have "UPDATE_NEW_PAGE_MAPPING c lpn ppn s = Some ?s4"
    using map_ok_lengths [OF s(2) lpn] map_ok_lengths [OF s(2) ppn] f(2)
    by (simp add: UPDATE_NEW_PAGE_MAPPING_def aset_def s2(1) s3(1) UPDATE_INVERSE_MAPPING_def Let_def)
  moreover have "moved c lpn ppn s ?s4"
    using m f by (simp add: moved_def marked_def blocks_ok_def page_state_def same_lists_def)
  ultimately show ?thesis by simp
qed

lemma moved_map_ok:
  assumes s: "map_ok c M L s" "unclaimed c L lpn s" and mv: "moved c lpn ppn s s'"
    and lpn: "in_ssd c lpn" and ppn: "in_ssd c ppn" "page_state c s ppn \<noteq> CHR ''V''"
  shows "map_ok c (insert lpn M) L s'"
proof -
  note n = map_ok_lengths [OF s(1) lpn] map_ok_lengths [OF s(1) ppn(1)]
  have pp: "ppn_of s' q = (if lpn = q then ppn else ppn_of s q)" if "0 \<le> q" for q
    using mv n that by (simp add: moved_def nth_nat_update)
  have lp: "lpn_of s' q = (if ppn = q then lpn else lpn_of s q)" if "0 \<le> q" for q
    using mv n that by (simp add: moved_def nth_nat_update)
  have st: "page_state c s' q = (if q = ppn then CHR ''V'' else page_state c s q)" if "in_ssd c q" for q
    using mv that by (simp add: moved_def)
  have nn: "0 \<le> q" if "in_ssd c q" for q using that by (simp add: in_ssd_def)
  have len: "length (mapping_table s') = length (mapping_table s)"
    "length (inverse_mapping_table s') = length (inverse_mapping_table s)"
    using mv by (simp_all add: moved_def)
  have fwd: "in_ssd c (ppn_of s' l) \<and> lpn_of s' (ppn_of s' l) = l \<and>
      page_state c s' (ppn_of s' l) = CHR ''V''"
    if l: "l \<in> insert lpn M" "in_ssd c l" "ppn_of s' l \<noteq> -1" for l
  proof (cases "l = lpn")
    case True
    then show ?thesis using l ppn(1) by (simp add: pp lp st nn)
  next
    case False
    then have e: "ppn_of s' l = ppn_of s l" and "l \<in> M" using l by (auto simp: pp nn)
    note d = map_okD(1-3) [OF s(1) this(2) l(2)]
    have "ppn_of s l \<noteq> ppn" using d l(3) e ppn(2) by auto
    then show ?thesis using d l(3) by (simp add: e lp st nn)
  qed
  have bwd: "in_ssd c (lpn_of s' q) \<and> ppn_of s' (lpn_of s' q) = q"
    if q: "q \<in> L" "in_ssd c q" "page_state c s' q = CHR ''V''" for q
  proof (cases "q = ppn")
    case True
    then show ?thesis using q lpn by (simp add: pp lp nn)
  next
    case False
    then have e: "lpn_of s' q = lpn_of s q" and v: "page_state c s q = CHR ''V''"
      using q by (simp_all add: lp st nn)
    note d = map_okD(4,5) [OF s(1) q(1,2) v]
    have "lpn_of s q \<noteq> lpn" using s(2) q v by (auto simp: unclaimed_def)
    then show ?thesis using d by (simp add: e pp nn)
  qed
  show ?thesis
    using s(1) len fwd bwd unfolding map_ok_def by simp
qed

text \<open>\<open>forgotten c lpn s s'\<close>: the old page of \<open>lpn\<close>, if there is one, is now invalid.\<close>

definition forgotten :: "ssd_config \<Rightarrow> int \<Rightarrow> ftl_state \<Rightarrow> ftl_state \<Rightarrow> bool" where
  "forgotten c lpn s s' \<longleftrightarrow> blocks_ok c s' \<and> same_lists s s' \<and>
     mapping_table s' = mapping_table s \<and>
     (\<forall>q. in_ssd c q \<longrightarrow> lpn_of s' q = (if q = ppn_of s lpn then -1 else lpn_of s q)) \<and>
     length (inverse_mapping_table s') = length (inverse_mapping_table s) \<and>
     (\<forall>q. in_ssd c q \<longrightarrow> page_state c s' q =
        (if q = ppn_of s lpn then CHR ''I'' else page_state c s q))"

lemma UPDATE_OLD_PAGE_MAPPING_forgets:
  assumes wf: "wf_config c" and s: "blocks_ok c s" "map_ok c M L s"
    and lpn: "in_ssd c lpn" "lpn \<in> M"
  shows "returns (UPDATE_OLD_PAGE_MAPPING c lpn s) (forgotten c lpn s)"
proof (cases "ppn_of s lpn = -1")
  case True
  then have "forgotten c lpn s s" using s by (auto simp: forgotten_def in_ssd_def)
  then show ?thesis
    using True map_ok_lengths [OF s(2) lpn(1)]
    by (simp add: UPDATE_OLD_PAGE_MAPPING_def GET_MAPPING_INFO_def vc)
next
  case False
  let ?old = "ppn_of s lpn"
  have old: "in_ssd c ?old" using map_okD(1) [OF s(2) lpn(2,1) False] .
  let ?f = "CALC_FLASH c ?old" and ?b = "CALC_BLOCK c ?old" and ?p = "CALC_PAGE c ?old"
  note fb = calc_ppn [OF wf old]
  obtain s2 where s2: "UPDATE_BLOCK_STATE_ENTRY c ?f ?b ?p INVALID s = Some (SUCCESS, s2)"
    "marked c {?old} (CHR ''I'') s s2"
    using UPDATE_BLOCK_STATE_ENTRY_marks [OF wf s(1) fb(4,6,7), of INVALID]
    by (auto simp: returns_def fb(3,5))
  note f = marked_fields [OF s2(2)]
  let ?s3 = "s2\<lparr>inverse_mapping_table := (inverse_mapping_table s2)[nat ?old := -1]\<rparr>"
  have "UPDATE_OLD_PAGE_MAPPING c lpn s = Some ?s3"
    using map_ok_lengths [OF s(2) lpn(1)] map_ok_lengths [OF s(2) old] f(2) False
    by (simp add: UPDATE_OLD_PAGE_MAPPING_def GET_MAPPING_INFO_def aget_def aset_def s2(1)
        UPDATE_INVERSE_MAPPING_def)
  moreover have "forgotten c lpn s ?s3"
    using s2(2) f map_ok_lengths [OF s(2) old]
    by (auto simp: forgotten_def marked_def blocks_ok_def page_state_def same_lists_def
        nth_nat_update in_ssd_def)
  ultimately show ?thesis by simp
qed

lemma forgotten_map_ok:
  assumes s: "map_ok c M L s" and fg: "forgotten c lpn s s'" and lpn: "in_ssd c lpn" "lpn \<in> M"
  shows "map_ok c (M - {lpn}) L s'" "unclaimed c L lpn s'"
proof -
  let ?old = "ppn_of s lpn"
  have mt: "mapping_table s' = mapping_table s"
    and len: "length (inverse_mapping_table s') = length (inverse_mapping_table s)"
    using fg by (simp_all add: forgotten_def)
  have lp: "lpn_of s' q = (if q = ?old then -1 else lpn_of s q)"
    and st: "page_state c s' q = (if q = ?old then CHR ''I'' else page_state c s q)"
    if "in_ssd c q" for q
    using fg that by (simp_all add: forgotten_def)
  have fwd: "in_ssd c (ppn_of s' l) \<and> lpn_of s' (ppn_of s' l) = l \<and>
      page_state c s' (ppn_of s' l) = CHR ''V''"
    if l: "l \<in> M - {lpn}" "in_ssd c l" "ppn_of s' l \<noteq> -1" for l
  proof -
    have "l \<in> M" "ppn_of s l \<noteq> -1" using l by (simp_all add: mt)
    note d = map_okD(1-3) [OF s this(1) l(2) this(2)]
    have "ppn_of s l \<noteq> ?old"
      using d(2) l map_okD(2) [OF s lpn(2,1)] \<open>ppn_of s l \<noteq> -1\<close> by auto
    then show ?thesis using d by (simp add: mt lp st)
  qed
  have bwd: "in_ssd c (lpn_of s' q) \<and> ppn_of s' (lpn_of s' q) = q"
    if q: "q \<in> L" "in_ssd c q" "page_state c s' q = CHR ''V''" for q
  proof -
    have "q \<noteq> ?old" "page_state c s q = CHR ''V''" using q by (auto simp: st split: if_splits)
    then show ?thesis using map_okD(4,5) [OF s q(1,2)] q(2) by (simp add: mt lp)
  qed
  show 1: "map_ok c (M - {lpn}) L s'"
    using s len fwd bwd unfolding map_ok_def by (simp add: mt)
  show "unclaimed c L lpn s'"
    unfolding unclaimed_def
  proof (intro allI impI notI)
    fix q
    assume q: "q \<in> L" "in_ssd c q" "page_state c s' q = CHR ''V''" "lpn_of s' q = lpn"
    then have "q = ppn_of s' lpn" using bwd [OF q(1-3)] by simp
    then show False using q(2,3) by (simp add: mt st)
  qed
qed

section \<open>Allocating a page\<close>

lemma free_pages_entry:
  assumes "lists_ok c s" "q \<in> free_pages c s"
  obtains k e where "k < reg_count c" "e \<in> set (echain s k)" "q \<in> entry_free c e" "entry_ok c (int k) e"
  using assms lists_okD(3) [OF assms(1)] by (auto simp: free_pages_def chains_ok_def)

lemma free_pages_listed:
  assumes "lists_ok c s" "q \<in> free_pages c s"
  shows "q div PAGE_NB c \<in> listed c s"
  using assms(2) by (auto simp: free_pages_def listed_def root_blocks_def entry_free_def)

lemma in_ssd_iff_block:
  assumes "wf_config c"
  shows "in_ssd c q \<longleftrightarrow> 0 \<le> q div PAGE_NB c \<and> q div PAGE_NB c < BLOCK_NB c * FLASH_NB c"
proof -
  have P: "0 < PAGE_NB c" by (rule wf_configD(2) [OF assms])
  have "in_ssd c q" if "0 \<le> q div PAGE_NB c" "q div PAGE_NB c < BLOCK_NB c * FLASH_NB c"
    using in_ssd_page(1) [OF that, of "q mod PAGE_NB c"] P by simp
  then show ?thesis using in_ssd_block [OF assms] by blast
qed

lemma free_pages_in_ssd:
  assumes "wf_config c" "lists_ok c s" "q \<in> free_pages c s"
  shows "in_ssd c q"
  using listed_range [OF assms(2) free_pages_listed [OF assms(2,3)]] in_ssd_iff_block [OF assms(1)]
  by simp

text \<open>
  What an allocator promises: it keeps the lists well formed and the tables as they are, and
  either takes one page out of the free pages, or there is none.
\<close>

definition new_page :: "ssd_config \<Rightarrow> ftl_state \<Rightarrow> int option \<times> ftl_state \<Rightarrow> bool" where
  "new_page c s r \<longleftrightarrow>
     lists_ok c (snd r) \<and> same_tables s (snd r) \<and> listed c (snd r) = listed c s \<and>
     total_empty_block_nb (snd r) + total_victim_block_nb (snd r) =
       total_empty_block_nb s + total_victim_block_nb s \<and>
     (case fst r of
        None \<Rightarrow> free_pages c s = {} \<and> free_pages c (snd r) = {}
      | Some ppn \<Rightarrow> ppn \<in> free_pages c s \<and> free_pages c (snd r) = free_pages c s - {ppn})"

lemma entry_free_take:
  assumes "0 < PAGE_NB c"
  shows "entry_free c (e\<lparr>curr_phy_page_nb := curr_phy_page_nb e + 1\<rparr>) =
    entry_free c e - {addr c e * PAGE_NB c + curr_phy_page_nb e}"
proof (intro set_eqI iffI)
  fix q
  assume "q \<in> entry_free c e - {addr c e * PAGE_NB c + curr_phy_page_nb e}"
  then have q: "q div PAGE_NB c = addr c e" "curr_phy_page_nb e \<le> q mod PAGE_NB c"
    "q \<noteq> addr c e * PAGE_NB c + curr_phy_page_nb e" by (auto simp: entry_free_def)
  then have "curr_phy_page_nb e \<noteq> q mod PAGE_NB c" using div_mult_mod_eq [of q "PAGE_NB c"] by auto
  then show "q \<in> entry_free c (e\<lparr>curr_phy_page_nb := curr_phy_page_nb e + 1\<rparr>)"
    using q by (simp add: entry_free_def)
next
  fix q
  assume q: "q \<in> entry_free c (e\<lparr>curr_phy_page_nb := curr_phy_page_nb e + 1\<rparr>)"
  have "q \<noteq> addr c e * PAGE_NB c + curr_phy_page_nb e"
  proof
    assume e: "q = addr c e * PAGE_NB c + curr_phy_page_nb e"
    have "q = addr c e * PAGE_NB c + q mod PAGE_NB c"
      using q div_mult_mod_eq [of q "PAGE_NB c"] by (simp add: entry_free_def)
    then show False using e q by (simp add: entry_free_def)
  qed
  then show "q \<in> entry_free c e - {addr c e * PAGE_NB c + curr_phy_page_nb e}"
    using q by (simp add: entry_free_def)
qed

lemma take_page_eq:
  assumes wf: "wf_config c" and s: "lists_ok c s" and k: "k < reg_count c"
    and e: "echain s k = e # es" and curr: "curr_phy_page_nb e < PAGE_NB c"
  shows "take_page c (int k) s = Some (addr c e * PAGE_NB c + curr_phy_page_nb e,
    put_chains k (e\<lparr>curr_phy_page_nb := curr_phy_page_nb e + 1\<rparr> # es) (vchain s k) s)"
proof -
  let ?ppn = "addr c e * PAGE_NB c + curr_phy_page_nb e"
  have len: "length (empty_block_list s) = reg_count c" using s by (simp add: lists_ok_def)
  have ok: "entry_ok c (int k) e" "0 \<le> curr_phy_page_nb e"
    using lists_okD(3) [OF s k] e by (simp_all add: chains_ok_def)
  have a: "0 \<le> addr c e" "addr c e < BLOCK_NB c * FLASH_NB c"
    using ok block_index_range [of "phy_flash_nb e" "FLASH_NB c" "phy_block_nb e" "BLOCK_NB c" c]
    by (auto simp: entry_ok_def)
  have "in_ssd c ?ppn" using in_ssd_page(1) [OF a ok(2) curr] .
  then have "i32 ?ppn = ?ppn" using wf_small(1) [OF wf] by (intro i32_id) (auto simp: in_ssd_def)
  moreover have "phy_flash_nb e * BLOCK_NB c * PAGE_NB c + phy_block_nb e * PAGE_NB c
      + curr_phy_page_nb e = ?ppn"
    by (simp add: block_index_def algebra_simps)
  moreover have "(victim_block_list s)[k := mk_victim (vchain s k)] = victim_block_list s"
    using lists_okD(2) [OF s k] by (metis list_update_id)
  moreover have "(empty_block_list s ! k)\<lparr>empty_chain := x # es\<rparr> = mk_empty (x # es)" for x
    using lists_okD(4) [OF s k] e by (cases "empty_block_list s ! k") (simp add: mk_empty_def)
  ultimately show ?thesis
    using len k e by (simp add: take_page_def aget_def aset_def head_of_def Let_def put_chains_def
        del: of_nat_nat int_nat_eq)
qed

lemma take_page_new:
  assumes wf: "wf_config c" and s: "lists_ok c s" and op: "open_block c s i"
  shows "returns (take_page c i s) (\<lambda>(ppn, s'). new_page c s (Some ppn, s'))"
proof -
  obtain k e es where k: "k < reg_count c" "i = int k" and e: "echain s k = e # es"
    and curr: "curr_phy_page_nb e < PAGE_NB c"
    using op unfolding open_block_def by (metis int_nat_eq nat_less_iff of_nat_0_le_iff nat_int)
  have P: "0 < PAGE_NB c" by (rule wf_configD(2) [OF wf])
  let ?ppn = "addr c e * PAGE_NB c + curr_phy_page_nb e"
  let ?e = "e\<lparr>curr_phy_page_nb := curr_phy_page_nb e + 1\<rparr>"
  let ?s = "put_chains k (?e # es) (vchain s k) s"
  note ch = lists_okD(3) [OF s k(1)]
  have c0: "0 \<le> curr_phy_page_nb e" using ch e by (simp add: chains_ok_def)
  have p: "?ppn div PAGE_NB c = addr c e" using c0 curr by simp
  have "chains_ok c (int k) (?e # es) (vchain s k)"
    using ch e curr by (auto simp: chains_ok_def entry_ok_def)
  then have ok: "lists_ok c ?s" by (rule lists_ok_put_chains [OF s k(1)])
  have "root_blocks c (?e # es) (vchain s k) = root_blocks c (echain s k) (vchain s k)"
    by (simp add: root_blocks_def e)
  then have li: "listed c ?s = listed c s" by (rule listed_put_same [OF s k(1)])
  have rest: "?ppn \<notin> entry_free c e'" if "e' \<in> set es" for e'
    using that ch e p by (auto simp: chains_ok_def entry_free_def)
  have others: "?ppn \<notin> entry_free c e'" if "e' \<in> set (echain s j)" "j < reg_count c" "j \<noteq> k" for e' j
  proof
    assume "?ppn \<in> entry_free c e'"
    then have "addr c e = addr c e'" using p by (simp add: entry_free_def)
    then have "addr c e \<in> addr c ` set (echain s j)" using that(1) by (rule image_eqI)
    then show False
      using root_blocks_disjoint [OF s that(2) k(1) that(3)] e by (auto simp: root_blocks_def)
  qed
  have "free_pages c ?s = free_pages c s - {?ppn}"
    using rest others unfolding free_pages_put_chains [OF s k(1)] free_pages_split [OF k(1), of s] e
    by (simp add: entry_free_take [OF P]) blast
  moreover have "?ppn \<in> entry_free c e" using c0 curr p by (simp add: entry_free_def)
  then have "?ppn \<in> free_pages c s" unfolding free_pages_split [OF k(1), of s] e by simp
  ultimately have "new_page c s (Some ?ppn, ?s)"
    using ok li e by (simp add: new_page_def same_tables_def put_chains_def)
  then show ?thesis using take_page_eq [OF wf s k(1) e curr] k(2) by simp
qed

lemma new_page_trans:
  "relisted c s t \<Longrightarrow> new_page c t r \<Longrightarrow> new_page c s r"
  by (auto simp: relisted_def new_page_def same_tables_def split: option.splits)

lemma no_empty_no_free:
  assumes "lists_ok c s" "total_empty_block_nb s = 0"
  shows "free_pages c s = {}"
  using total_empty_pos [OF assms(1)] assms(2) by (fastforce simp: free_pages_def)

lemma found_then_page:
  assumes "wf_config c" "found_block c s (blk, t)"
  shows "returns (case blk of None \<Rightarrow> Some (None, t)
      | Some i \<Rightarrow> Option.bind (take_page c i t) (\<lambda>(ppn, t). Some (Some ppn, t))) (new_page c s)"
proof (cases blk)
  case None
  then have r: "relisted c s t" "total_empty_block_nb t = 0" using assms(2) by (simp_all add: found_block_def)
  then have "lists_ok c t" by (simp add: relisted_def)
  then have "free_pages c t = {}" using no_empty_no_free r(2) by blast
  then have "new_page c t (None, t)" using r(1) by (simp add: new_page_def relisted_def)
  then show ?thesis using None new_page_trans [OF r(1)] by simp
next
  case (Some i)
  then have r: "relisted c s t" "open_block c t i" using assms(2) by (simp_all add: found_block_def)
  then have "lists_ok c t" by (simp add: relisted_def)
  from take_page_new [OF assms(1) this r(2)] show ?thesis
    using Some new_page_trans [OF r(1)] by (auto simp: returns_def)
qed

lemma GET_NEW_PAGE_overall:
  assumes wf: "wf_config c" and s: "lists_ok c s"
  shows "returns (GET_NEW_PAGE c VICTIM_OVERALL i s) (new_page c s)"
proof -
  obtain blk t where t: "get_empty_overall c s = Some (blk, t)" "found_block c s (blk, t)"
    using get_empty_overall_finds [OF wf s] by (auto simp: returns_def)
  then show ?thesis
    using found_then_page [OF wf t(2)] by (simp add: GET_NEW_PAGE_def GET_EMPTY_BLOCK_def)
qed

lemma GET_NEW_PAGE_inchip:
  assumes wf: "wf_config c" and planes: "PLANES_PER_FLASH c = 1" and s: "lists_ok c s"
    and i: "0 \<le> i" "i < int (reg_count c)"
  shows "returns (GET_NEW_PAGE c VICTIM_INCHIP i s) (new_page c s)"
proof -
  obtain k where k: "i = int k" "k < reg_count c" using i by (metis nat_eq_iff2 zless_nat_conj nonneg_int_cases of_nat_less_iff)
  obtain blk t where t: "get_empty_inchip c i i s = Some (blk, t)" "tried_block c s (blk, t)"
    using get_empty_inchip_tries [OF wf planes s k(2), of i] k(1) by (auto simp: returns_def)
  have r: "relisted c s t" using t(2) by (simp add: tried_block_def)
  show ?thesis
  proof (cases blk)
    case None
    have ok: "lists_ok c t" using r by (simp add: relisted_def)
    obtain blk' u where u: "get_empty_overall c t = Some (blk', u)" "found_block c t (blk', u)"
      using get_empty_overall_finds [OF wf ok] by (auto simp: returns_def)
    then show ?thesis
      using None t(1) found_then_page [OF wf found_block_trans [OF r u(2)]]
      by (simp add: GET_NEW_PAGE_def GET_EMPTY_BLOCK_def)
  next
    case (Some b)
    then have "found_block c s (blk, t)" using t(2) by (simp add: tried_block_def found_block_def)
    then show ?thesis
      using Some t(1) found_then_page [OF wf] by (fastforce simp: GET_NEW_PAGE_def GET_EMPTY_BLOCK_def)
  qed
qed

lemma GET_NEW_PAGE_noparal:
  assumes wf: "wf_config c" and s: "lists_ok c s"
  shows "returns (GET_NEW_PAGE c VICTIM_NOPARAL (empty_block_table_index s) s) (new_page c s)"
proof -
  obtain blk t where t: "get_empty_noparal c (empty_block_table_index s) s = Some (blk, t)" "found_block c s (blk, t)"
    using get_empty_noparal_finds [OF wf s] by (auto simp: returns_def)
  then show ?thesis
    using found_then_page [OF wf t(2)] by (simp add: GET_NEW_PAGE_def GET_EMPTY_BLOCK_def)
qed

section \<open>The invariant of the translation layer\<close>

definition pages_ok :: "ssd_config \<Rightarrow> int set \<Rightarrow> ftl_state \<Rightarrow> bool" where
  "pages_ok c L s \<longleftrightarrow> lists_ok c s \<and> blocks_ok c s \<and> map_ok c UNIV L s \<and>
     (\<forall>q\<in>free_pages c s. page_state c s q = CHR ''0'')"

abbreviation listed_pages :: "ssd_config \<Rightarrow> ftl_state \<Rightarrow> int set" where
  "listed_pages c s \<equiv> {q. q div PAGE_NB c \<in> listed c s}"

text \<open>
  The invariant: lists, counters and page states agree; the free pages are erased; the two
  mapping tables are inverse to each other on the pages of the blocks that are in a list. A
  block drops out of the lists only when garbage collection gives up halfway.
\<close>

definition ftl_inv :: "ssd_config \<Rightarrow> ftl_state \<Rightarrow> bool" where
  "ftl_inv c s \<longleftrightarrow> pages_ok c (listed_pages c s) s"

lemma pages_ok_new_page:
  assumes "pages_ok c L s" "new_page c s (r, t)"
  shows "pages_ok c L t"
proof -
  have tb: "mapping_table t = mapping_table s" "inverse_mapping_table t = inverse_mapping_table s"
    "block_state_table t = block_state_table s" and ok: "lists_ok c t"
    and fr: "free_pages c t \<subseteq> free_pages c s"
    using assms(2) by (auto simp: new_page_def same_tables_def split: option.splits)
  then show ?thesis
    using assms(1) by (auto simp: pages_ok_def blocks_ok_def map_ok_def page_state_def tb)
qed

lemma pages_ok_moved:
  assumes wf: "wf_config c" and t: "pages_ok c L t" and f: "ppn \<notin> free_pages c t" "in_ssd c ppn"
    and p: "page_state c s ppn \<noteq> CHR ''V''"
    and s: "map_ok c M L s" "unclaimed c L lpn s" "insert lpn M = UNIV" "same_lists t s"
    and z: "\<And>q. q \<in> free_pages c t \<Longrightarrow> page_state c s q = CHR ''0''"
    and mv: "moved c lpn ppn s u" and lpn: "in_ssd c lpn"
  shows "pages_ok c L u"
proof -
  have sl: "same_lists t u" using s(4) mv same_lists_trans by (auto simp: moved_def)
  have "map_ok c UNIV L u" using moved_map_ok [OF s(1,2) mv lpn f(2) p] s(3) by simp
  moreover have "page_state c u q = CHR ''0''" if "q \<in> free_pages c t" for q
  proof -
    have "in_ssd c q" using free_pages_in_ssd [OF wf _ that] t by (simp add: pages_ok_def)
    moreover have "q \<noteq> ppn" using that f(1) by blast
    ultimately show ?thesis using mv z [OF that] by (simp add: moved_def)
  qed
  ultimately show ?thesis
    using t mv same_lists_cong [OF sl, of c] by (simp add: pages_ok_def moved_def)
qed

text \<open>
  The interface between the allocator and its two clients, the write loop and garbage
  collection: a way to get a page from some hint (an index of a root) in the states that
  satisfy \<open>ready\<close>. Each of the three modes of \<^verbatim>\<open>GET_NEW_PAGE\<close> is one.
\<close>

locale page_source =
  fixes ready :: "ssd_config \<Rightarrow> int \<Rightarrow> ftl_state \<Rightarrow> bool"
    and get_page :: "ssd_config \<Rightarrow> int \<Rightarrow> ftl_state \<Rightarrow> (int option \<times> ftl_state) option"
  assumes gives_page: "wf_config c \<Longrightarrow> ready c i s \<Longrightarrow> lists_ok c s \<Longrightarrow>
    returns (get_page c i s) (new_page c s)"
begin

lemma page_or_full:
  assumes "wf_config c" "ready c i s" "pages_ok c L s"
  shows "returns (get_page c i s) (\<lambda>(r, t). pages_ok c L t \<and> same_tables s t \<and>
    listed c t = listed c s \<and>
    (case r of None \<Rightarrow> free_pages c s = {} \<and> free_pages c t = {}
     | Some ppn \<Rightarrow> in_ssd c ppn \<and> ppn div PAGE_NB c \<in> listed c s \<and>
         page_state c t ppn = CHR ''0'' \<and> ppn \<in> free_pages c s \<and>
         free_pages c t = free_pages c s - {ppn}))"
proof -
  have ok: "lists_ok c s" using assms(3) by (simp add: pages_ok_def)
  obtain r t where t: "get_page c i s = Some (r, t)" "new_page c s (r, t)"
    using gives_page [OF assms(1,2) ok] by (auto simp: returns_def)
  have bs: "same_tables s t" "block_state_table t = block_state_table s"
    using t(2) by (simp_all add: new_page_def same_tables_def)
  show ?thesis
    using t pages_ok_new_page [OF assms(3) t(2)] bs assms(3)
      free_pages_in_ssd [OF assms(1) ok] free_pages_listed [OF ok]
    by (auto simp: new_page_def pages_ok_def page_state_def split: option.splits)
qed

text \<open>A host write: take a page, invalidate the old one, map the new one.\<close>

lemma replace_page:
  assumes wf: "wf_config c" "ready c i s" and s: "pages_ok c L s" and lpn: "in_ssd c lpn"
    and g: "get_page c i s = Some (Some ppn, t)"
  shows "returns (Option.bind (UPDATE_OLD_PAGE_MAPPING c lpn t) (UPDATE_NEW_PAGE_MAPPING c lpn ppn))
    (\<lambda>u. pages_ok c L u \<and> listed c u = listed c s \<and> in_ssd c ppn \<and>
      mapping_table u = (mapping_table s)[nat lpn := ppn] \<and>
      total_empty_block_nb u = total_empty_block_nb t \<and>
      free_pages c u = free_pages c s - {ppn})"
proof -
  have pg: "pages_ok c L t" "same_tables s t" "listed c t = listed c s" "in_ssd c ppn"
    "page_state c t ppn = CHR ''0''" "free_pages c t = free_pages c s - {ppn}"
    using page_or_full [OF wf s] g by (auto simp: returns_def)
  have t: "blocks_ok c t" "map_ok c UNIV L t" using pg(1) by (simp_all add: pages_ok_def)
  obtain v where v: "UPDATE_OLD_PAGE_MAPPING c lpn t = Some v" "forgotten c lpn t v"
    using UPDATE_OLD_PAGE_MAPPING_forgets [OF wf(1) t lpn] by (auto simp: returns_def)
  have vm: "map_ok c (UNIV - {lpn}) L v" "unclaimed c L lpn v"
    using forgotten_map_ok [OF t(2) v(2) lpn] by simp_all
  have vb: "blocks_ok c v" "same_lists t v" "mapping_table v = mapping_table t"
    using v(2) by (simp_all add: forgotten_def)
  have old: "ppn_of t lpn = -1 \<or> page_state c t (ppn_of t lpn) = CHR ''V''"
    using map_okD(3) [OF t(2) _ lpn] by auto
  have z: "page_state c v q = CHR ''0''" if "page_state c t q = CHR ''0''" "in_ssd c q" for q
  proof -
    have "q \<noteq> ppn_of t lpn" using old that by (auto simp: in_ssd_def)
    then show ?thesis using v(2) that by (simp add: forgotten_def)
  qed
  have zf: "page_state c v q = CHR ''0''" if "q \<in> free_pages c t" for q
    using z [of q] that pg(1) free_pages_in_ssd [OF wf(1) _ that] by (simp add: pages_ok_def)
  obtain u where u: "UPDATE_NEW_PAGE_MAPPING c lpn ppn v = Some u" "moved c lpn ppn v u"
    using UPDATE_NEW_PAGE_MAPPING_moves [OF wf(1) vb(1) vm(1) lpn pg(4)] by (auto simp: returns_def)
  have nf: "ppn \<notin> free_pages c t" using pg(6) by simp
  have nv: "page_state c v ppn \<noteq> CHR ''V''" using z [OF pg(5,4)] by simp
  have "pages_ok c L u"
    by (rule pages_ok_moved [OF wf(1) pg(1) nf pg(4) nv vm _ vb(2) zf u(2) lpn]) auto
  moreover have "same_lists t u" using vb(2) u(2) same_lists_trans by (auto simp: moved_def)
  ultimately show ?thesis
    using u v(1) pg same_lists_cong [of t u c] vb(3)
    by (simp add: moved_def same_lists_def same_tables_def)
qed

text \<open>Garbage collection: the old page is left as it is, in a block that no list holds.\<close>

lemma relocate_page:
  assumes wf: "wf_config c" "ready c i s" and s: "pages_ok c L s" and lpn: "in_ssd c lpn"
    and g: "get_page c i s = Some (Some ppn, t)"
  shows "returns (UPDATE_NEW_PAGE_MAPPING c lpn ppn t)
    (\<lambda>u. pages_ok c (L - {ppn_of s lpn}) u \<and> listed c u = listed c s \<and> in_ssd c ppn \<and>
      ppn div PAGE_NB c \<in> listed c s \<and>
      mapping_table u = (mapping_table s)[nat lpn := ppn] \<and>
      (\<forall>q. in_ssd c q \<longrightarrow> q \<noteq> ppn \<longrightarrow> page_state c u q = page_state c s q \<and> lpn_of u q = lpn_of s q) \<and>
      total_empty_block_nb u = total_empty_block_nb t \<and>
      free_pages c u = free_pages c s - {ppn})"
proof -
  have pg: "pages_ok c L t" "same_tables s t" "listed c t = listed c s" "in_ssd c ppn"
    "page_state c t ppn = CHR ''0''" "free_pages c t = free_pages c s - {ppn}"
    "ppn div PAGE_NB c \<in> listed c s"
    using page_or_full [OF wf s] g by (auto simp: returns_def)
  let ?L = "L - {ppn_of s lpn}"
  have tl: "pages_ok c ?L t" using pg(1) map_ok_mono [of c UNIV L t UNIV ?L] by (auto simp: pages_ok_def)
  have t: "blocks_ok c t" "map_ok c UNIV ?L t" using tl by (simp_all add: pages_ok_def)
  have tb: "mapping_table t = mapping_table s" "inverse_mapping_table t = inverse_mapping_table s"
    "block_state_table t = block_state_table s" using pg(2) by (simp_all add: same_tables_def)
  have uc: "unclaimed c ?L lpn t" by (rule unclaimedI [OF t(2)]) (simp add: tb)
  obtain u where u: "UPDATE_NEW_PAGE_MAPPING c lpn ppn t = Some u" "moved c lpn ppn t u"
    using UPDATE_NEW_PAGE_MAPPING_moves [OF wf(1) t lpn pg(4)] by (auto simp: returns_def)
  have nf: "ppn \<notin> free_pages c t" using pg(6) by simp
  have nv: "page_state c t ppn \<noteq> CHR ''V''" using pg(5) by simp
  have "pages_ok c ?L u"
    by (rule pages_ok_moved [OF wf(1) tl nf pg(4) nv t(2) uc _ same_lists_refl _ u(2) lpn])
      (use tl in \<open>auto simp: pages_ok_def\<close>)
  moreover have sl: "same_lists t u" using u(2) by (simp add: moved_def)
  moreover have "page_state c u q = page_state c s q \<and> lpn_of u q = lpn_of s q"
    if "in_ssd c q" "q \<noteq> ppn" for q
    using u(2) that pg(4) map_ok_lengths [OF t(2) pg(4)]
    by (auto simp: moved_def tb page_state_def nth_nat_update in_ssd_def)
  ultimately show ?thesis
    using u pg same_lists_cong [OF sl, of c]
    by (simp add: moved_def same_lists_def tb)
qed

end

interpretation overall: page_source "\<lambda>c i s. True" "\<lambda>c. GET_NEW_PAGE c VICTIM_OVERALL"
  by unfold_locales (rule GET_NEW_PAGE_overall)

interpretation inchip: page_source
  "\<lambda>c i s. PLANES_PER_FLASH c = 1 \<and> 0 \<le> i \<and> i < int (reg_count c)" "\<lambda>c. GET_NEW_PAGE c VICTIM_INCHIP"
  by unfold_locales (elim conjE, rule GET_NEW_PAGE_inchip)

interpretation noparal: page_source
  "\<lambda>c i s. i = empty_block_table_index s" "\<lambda>c. GET_NEW_PAGE c VICTIM_NOPARAL"
  by unfold_locales (simp only:, rule GET_NEW_PAGE_noparal)

end
