(* ===== verification/Gc_Manager.thy ===== *)
theory Gc_Manager
  imports Mapping_Manager Io_Manager
begin

text \<open>
  \<^verbatim>\<open>FTL/PAGE_MAP/ftl_gc_manager.c\<close>, with \<^verbatim>\<open>GC_TRIGGER_OVERALL\<close> defined and
  \<^verbatim>\<open>GC_VICTIM_OVERALL\<close> undefined: greedy garbage collection. From here on the state is
  the whole simulator: the FTL's tables, the device below it and the flag \<^verbatim>\<open>g_init\<close> of
  \<^verbatim>\<open>ftl.c\<close>. The two arguments of \<^verbatim>\<open>GC_CHECK\<close> only matter without
  \<^verbatim>\<open>GC_TRIGGER_OVERALL\<close> and are left out.
\<close>

record ssd =
  tables :: ftl_state
  dev :: io_state
  g_init :: int

section \<open>Choosing the victim\<close>

definition select_entry ::
  "ssd_config \<Rightarrow> ftl_state \<Rightarrow> block_entry \<Rightarrow> block_entry \<times> int \<Rightarrow> (block_entry \<times> int) option" where
  "select_entry c s e = (\<lambda>(victim, n). do {
     bs \<leftarrow> GET_BLOCK_STATE_ENTRY c (phy_flash_nb e) (phy_block_nb e) s;
     Some (if n > valid_page_nb bs then (e, valid_page_nb bs) else (victim, n))
   })"

text \<open>
  One round of the outer loop. \<open>None\<close> inside the state means that \<^verbatim>\<open>victim_block\<close> is still
  NULL.
\<close>

definition select_root ::
  "ssd_config \<Rightarrow> ftl_state \<Rightarrow> victim_block_root \<Rightarrow> (block_entry \<times> int) option
    \<Rightarrow> (block_entry \<times> int) option option" where
  "select_root c s vroot v =
     (if victim_block_nb vroot \<noteq> 0 then do {
        hd_entry \<leftarrow> head_of (victim_chain vroot);
        v0 \<leftarrow> (case v of
                Some x \<Rightarrow> Some x
              | None \<Rightarrow> do {
                  bs \<leftarrow> GET_BLOCK_STATE_ENTRY c (phy_flash_nb hd_entry) (phy_block_nb hd_entry) s;
                  Some (hd_entry, valid_page_nb bs)
                });
        if int (length (victim_chain vroot)) < victim_block_nb vroot then None
        else do {
          v1 \<leftarrow> ofold (select_entry c s) (take (nat (victim_block_nb vroot)) (victim_chain vroot)) v0;
          Some (Some v1)
        }
      }
      else Some v)"

definition SELECT_VICTIM_BLOCK ::
  "ssd_config \<Rightarrow> ftl_state \<Rightarrow> (block_entry option \<times> ftl_state) option" where
  "SELECT_VICTIM_BLOCK c s =
     (if total_victim_block_nb s = 0 then Some (None, s)
      else do {
        v \<leftarrow> ofold (select_root c s) (take (nat (VICTIM_TABLE_ENTRY_NB c)) (victim_block_list s)) None;
        (victim, n) \<leftarrow> v;
        if n = PAGE_NB c then Some (None, s\<lparr>fail_cnt := fail_cnt s + 1\<rparr>)
        else do {
          s \<leftarrow> EJECT_VICTIM_BLOCK c victim s;
          Some (Some victim, s)
        }
      })"

section \<open>Collecting one block\<close>

text \<open>
  The copy loop over the pages of the victim; it returns \<^verbatim>\<open>FAIL\<close> as soon as no new page
  can be found.
\<close>

primrec gc_copy ::
  "clock \<Rightarrow> ssd_config \<Rightarrow> int \<Rightarrow> int \<Rightarrow> int list \<Rightarrow> int \<Rightarrow> ssd \<Rightarrow> ((status \<times> int) \<times> ssd) option" where
  "gc_copy gt c vf vb [] copied s = Some ((SUCCESS, copied), s)"
| "gc_copy gt c vf vb (i # is) copied s = do {
     bs \<leftarrow> GET_BLOCK_STATE_ENTRY c vf vb (tables s);
     ch \<leftarrow> aget (valid_array bs) i;
     if ch = CHR ''V'' then do {
       (page, t) \<leftarrow> GET_NEW_PAGE c VICTIM_INCHIP (root_index c vf vb) (tables s);
       case page of
         None \<Rightarrow> Some ((FAIL, copied), s\<lparr>tables := t\<rparr>)
       | Some new_ppn \<Rightarrow> do {
           (r, d) \<leftarrow> SSD_PAGE_READ gt c vf vb i GC_READ (dev s);
           (r, d) \<leftarrow> SSD_PAGE_WRITE gt c (CALC_FLASH c new_ppn) (CALC_BLOCK c new_ppn) i GC_WRITE d;
           lpn \<leftarrow> GET_INVERSE_MAPPING_INFO (i32 (vf * PAGES_PER_FLASH c + vb * PAGE_NB c + i)) t;
           t \<leftarrow> UPDATE_NEW_PAGE_MAPPING c lpn new_ppn t;
           gc_copy gt c vf vb is (copied + 1) (s\<lparr>tables := t, dev := d\<rparr>)
         }
     }
     else gc_copy gt c vf vb is copied s
   }"

definition GARBAGE_COLLECTION :: "clock \<Rightarrow> ssd_config \<Rightarrow> ssd \<Rightarrow> (status \<times> ssd) option" where
  "GARBAGE_COLLECTION gt c s = do {
     (v, t) \<leftarrow> SELECT_VICTIM_BLOCK c (tables s);
     case v of
       None \<Rightarrow> Some (FAIL, s\<lparr>tables := t\<rparr>)
     | Some victim \<Rightarrow> do {
         let vf = phy_flash_nb victim;
         let vb = phy_block_nb victim;
         ((r, copied), s) \<leftarrow> gc_copy gt c vf vb [0..PAGE_NB c - 1] 0 (s\<lparr>tables := t\<rparr>);
         if r = FAIL then Some (FAIL, s)
         else do {
           bs \<leftarrow> GET_BLOCK_STATE_ENTRY c vf vb (tables s);
           if copied \<noteq> valid_page_nb bs then Some (FAIL, s)
           else do {
             (r, d) \<leftarrow> SSD_BLOCK_ERASE gt c vf vb (dev s);
             t \<leftarrow> UPDATE_BLOCK_STATE c vf vb EMPTY_BLOCK (tables s);
             t \<leftarrow> INSERT_EMPTY_BLOCK c vf vb t;
             Some (SUCCESS, s\<lparr>tables := t\<lparr>gc_count := gc_count t + 1\<rparr>, dev := d\<rparr>)
           }
         }
       }
   }"

primrec gc_repeat :: "clock \<Rightarrow> ssd_config \<Rightarrow> nat \<Rightarrow> ssd \<Rightarrow> ssd option" where
  "gc_repeat gt c 0 s = Some s"
| "gc_repeat gt c (Suc n) s = do {
     (r, s) \<leftarrow> GARBAGE_COLLECTION gt c s;
     if r = FAIL then Some s else gc_repeat gt c n s
   }"

definition GC_CHECK :: "clock \<Rightarrow> ssd_config \<Rightarrow> ssd \<Rightarrow> ssd option" where
  "GC_CHECK gt c s =
     (if total_empty_block_nb (tables s) \<le> FLASH_NB c * PLANES_PER_FLASH c
      then gc_repeat gt c (nat (GC_VICTIM_NB c)) s
      else Some s)"

section \<open>The greedy choice\<close>

text \<open>The number of valid pages of a listed block, and the entries of all victim lists.\<close>

definition valid_of :: "ssd_config \<Rightarrow> ftl_state \<Rightarrow> 'a block_entry_scheme \<Rightarrow> int" where
  "valid_of c s e = valid_page_nb (block_state_table s ! nat (addr c e))"

definition all_victims :: "ftl_state \<Rightarrow> block_entry list" where
  "all_victims s = concat (map victim_chain (victim_block_list s))"

definition entry_in :: "ssd_config \<Rightarrow> ftl_state \<Rightarrow> block_entry \<Rightarrow> bool" where
  "entry_in c s e \<longleftrightarrow> 0 \<le> addr c e \<and> addr c e < int (length (block_state_table s))"

lemma entry_in_get:
  "entry_in c s e \<Longrightarrow> GET_BLOCK_STATE_ENTRY c (phy_flash_nb e) (phy_block_nb e) s =
     Some (block_state_table s ! nat (addr c e))"
  by (simp add: entry_in_def GET_BLOCK_STATE_ENTRY_def aget_def)

text \<open>\<open>best c s es (v, n)\<close>: \<open>v\<close> has the fewest valid pages among \<open>es\<close>, namely \<open>n\<close>.\<close>

definition best :: "ssd_config \<Rightarrow> ftl_state \<Rightarrow> block_entry set \<Rightarrow> block_entry \<times> int \<Rightarrow> bool" where
  "best c s E = (\<lambda>(v, n). v \<in> E \<and> n = valid_of c s v \<and> (\<forall>e\<in>E. n \<le> valid_of c s e))"

lemma select_entries_best:
  assumes "\<forall>e\<in>set es. entry_in c s e" "best c s E p"
  shows "returns (ofold (select_entry c s) es p) (best c s (E \<union> set es))"
  using assms
proof (induction es arbitrary: E p)
  case (Cons e es)
  obtain v n where p: "p = (v, n)" by (cases p)
  let ?p = "if n > valid_of c s e then (e, valid_of c s e) else (v, n)"
  have "best c s (insert e E) ?p" using Cons.prems(2) p by (auto simp: best_def)
  moreover have "select_entry c s e p = Some ?p"
    using Cons.prems(1) p by (simp add: select_entry_def entry_in_get valid_of_def)
  ultimately show ?case using Cons.IH [of "insert e E" ?p] Cons.prems(1) by simp
qed simp

definition chosen :: "ssd_config \<Rightarrow> ftl_state \<Rightarrow> block_entry set \<Rightarrow> (block_entry \<times> int) option \<Rightarrow> bool" where
  "chosen c s E v \<longleftrightarrow> (case v of None \<Rightarrow> E = {} | Some p \<Rightarrow> best c s E p)"

lemma select_root_chosen:
  assumes "victim_block_nb r = int (length (victim_chain r))" "\<forall>e\<in>set (victim_chain r). entry_in c s e"
    and "chosen c s E v"
  shows "returns (select_root c s r v) (chosen c s (E \<union> set (victim_chain r)))"
proof (cases "victim_chain r")
  case Nil
  then show ?thesis using assms by (simp add: select_root_def)
next
  case (Cons e es)
  have e: "entry_in c s e" using assms(2) Cons by simp
  define p where "p = (case v of Some x \<Rightarrow> x | None \<Rightarrow> (e, valid_of c s e))"
  let ?E = "if v = None then {e} else E"
  have p: "best c s ?E p"
    using assms(3) by (auto simp: p_def best_def chosen_def split: option.splits)
  have un: "?E \<union> set (victim_chain r) = E \<union> set (victim_chain r)"
    using assms(3) Cons by (auto simp: chosen_def)
  have "returns (ofold (select_entry c s) (victim_chain r) p) (best c s (E \<union> set (victim_chain r)))"
    using select_entries_best [OF assms(2) p] unfolding un .
  moreover have "select_root c s r v = Option.bind (ofold (select_entry c s) (victim_chain r) p) (\<lambda>x. Some (Some x))"
    using assms(1) Cons e
    by (cases v) (simp_all add: select_root_def head_of_def entry_in_get p_def valid_of_def)
  ultimately show ?thesis by (simp only: returns_bind returns_Some chosen_def option.case)
qed

lemma select_roots_chosen:
  assumes "\<forall>r\<in>set rs. victim_block_nb r = int (length (victim_chain r)) \<and>
      (\<forall>e\<in>set (victim_chain r). entry_in c s e)"
    and "chosen c s E v"
  shows "returns (ofold (select_root c s) rs v) (chosen c s (E \<union> (\<Union>r\<in>set rs. set (victim_chain r))))"
  using assms
proof (induction rs arbitrary: v E)
  case (Cons r rs)
  have r: "victim_block_nb r = int (length (victim_chain r))" "\<forall>e\<in>set (victim_chain r). entry_in c s e"
    using Cons.prems(1) by simp_all
  obtain v' where v': "select_root c s r v = Some v'" "chosen c s (E \<union> set (victim_chain r)) v'"
    using select_root_chosen [OF r Cons.prems(2)] by (auto elim!: returnsE)
  show ?case
    using Cons.IH [OF _ v'(2)] Cons.prems(1) v'(1) by (simp add: Un_assoc)
qed simp

text \<open>
  \<^verbatim>\<open>SELECT_VICTIM_BLOCK\<close>: it gives up exactly when there is no victim block or every one is
  full of valid pages; otherwise it removes a block with the fewest valid pages.
\<close>

definition selected :: "ssd_config \<Rightarrow> ftl_state \<Rightarrow> block_entry option \<times> ftl_state \<Rightarrow> bool" where
  "selected c s = (\<lambda>(v, s'). case v of
      None \<Rightarrow> (\<forall>e\<in>set (all_victims s). valid_of c s e = PAGE_NB c) \<and>
        (\<exists>n. s' = s\<lparr>fail_cnt := n\<rparr>)
    | Some e \<Rightarrow> e \<in> set (all_victims s) \<and> valid_of c s e < PAGE_NB c \<and>
        (\<forall>e'\<in>set (all_victims s). valid_of c s e \<le> valid_of c s e') \<and>
        (\<exists>k<reg_count c. e \<in> set (vchain s k) \<and>
          s' = put_chains k (echain s k) (remove1 e (vchain s k)) s))"

lemma valid_of_le:
  assumes "blocks_ok c s" "entry_in c s e" "0 < PAGE_NB c"
  shows "valid_of c s e \<le> PAGE_NB c"
proof -
  have "block_state_table s ! nat (addr c e) \<in> set (block_state_table s)"
    using assms(2) by (simp add: entry_in_def nat_less_iff)
  then have b: "valid_of c s e = int (count_list (valid_array (block_state_table s ! nat (addr c e))) (CHR ''V''))"
    "length (valid_array (block_state_table s ! nat (addr c e))) = nat (PAGE_NB c)"
    using assms(1) by (simp_all add: blocks_ok_def valid_of_def)
  then show ?thesis
    using assms(3) count_le_length [of "valid_array (block_state_table s ! nat (addr c e))" "CHR ''V''"] by simp
qed

lemma all_victims_set:
  assumes "lists_ok c s"
  shows "set (all_victims s) = (\<Union>k<reg_count c. set (vchain s k))"
proof -
  have "length (victim_block_list s) = reg_count c" using assms by (simp add: lists_ok_def)
  then have "set (victim_block_list s) = (\<lambda>k. victim_block_list s ! k) ` {..<reg_count c}"
    by (auto simp: set_conv_nth)
  then show ?thesis by (simp add: all_victims_def)
qed

lemma victim_entry_in:
  assumes "lists_ok c s" "blocks_ok c s" "k < reg_count c" "e \<in> set (vchain s k)"
  shows "entry_in c s e" "entry_ok c (int k) e"
proof -
  show e: "entry_ok c (int k) e" using lists_okD(3) [OF assms(1,3)] assms(4) by (simp add: chains_ok_def)
  show "entry_in c s e"
    using e block_index_range [of "phy_flash_nb e" "FLASH_NB c" "phy_block_nb e" "BLOCK_NB c" c] assms(2)
    by (auto simp: entry_in_def entry_ok_def blocks_ok_def)
qed

lemma SELECT_VICTIM_BLOCK_selects:
  assumes wf: "wf_config c" and s: "lists_ok c s" "blocks_ok c s"
  shows "returns (SELECT_VICTIM_BLOCK c s) (selected c s)"
proof (cases "total_victim_block_nb s = 0")
  case True
  have "length (vchain s k) = 0" if "k < reg_count c" for k
  proof -
    have "int (length (vchain s k)) \<le> (\<Sum>k<reg_count c. int (length (vchain s k)))"
      using that by (intro member_le_sum) auto
    then show ?thesis using True s(1) by (simp add: lists_ok_def)
  qed
  then have "set (all_victims s) = {}" by (simp add: all_victims_set [OF s(1)])
  moreover have "\<exists>n. s = s\<lparr>fail_cnt := n\<rparr>" by (rule exI [of _ "fail_cnt s"]) simp
  ultimately show ?thesis using True by (simp add: SELECT_VICTIM_BLOCK_def selected_def)
next
  case False
  have len: "length (victim_block_list s) = reg_count c" using s(1) by (simp add: lists_ok_def)
  have rs: "\<forall>r\<in>set (victim_block_list s). victim_block_nb r = int (length (victim_chain r)) \<and>
      (\<forall>e\<in>set (victim_chain r). entry_in c s e)"
  proof
    fix r
    assume "r \<in> set (victim_block_list s)"
    then obtain k where "k < reg_count c" "r = victim_block_list s ! k" using len by (auto simp: in_set_conv_nth)
    then show "victim_block_nb r = int (length (victim_chain r)) \<and> (\<forall>e\<in>set (victim_chain r). entry_in c s e)"
      using lists_okD(5) [OF s(1)] victim_entry_in(1) [OF s] by blast
  qed
  have tk: "take (nat (VICTIM_TABLE_ENTRY_NB c)) (victim_block_list s) = victim_block_list s"
    using len wf_configD(9) [OF wf] by simp
  have un: "(\<Union>r\<in>set (victim_block_list s). set (victim_chain r)) = set (all_victims s)"
    by (simp add: all_victims_def)
  obtain v where v: "ofold (select_root c s) (victim_block_list s) None = Some v"
    "chosen c s (set (all_victims s)) v"
    using select_roots_chosen [OF rs, of "{}" None] unfolding un by (auto simp: chosen_def elim!: returnsE)
  have "set (all_victims s) \<noteq> {}"
  proof
    assume "set (all_victims s) = {}"
    then have "length (vchain s k) = 0" if "k < reg_count c" for k
      using that by (auto simp: all_victims_set [OF s(1)])
    then show False using False s(1) by (simp add: lists_ok_def)
  qed
  then obtain e n where e: "v = Some (e, n)" "best c s (set (all_victims s)) (e, n)"
    using v(2) by (auto simp: chosen_def split: option.splits)
  obtain k where k: "k < reg_count c" "e \<in> set (vchain s k)"
    using e(2) by (auto simp: best_def all_victims_set [OF s(1)])
  have n: "n = valid_of c s e" "\<forall>e'\<in>set (all_victims s). n \<le> valid_of c s e'" "e \<in> set (all_victims s)"
    using e(2) unfolding best_def by auto
  have le: "valid_of c s e' \<le> PAGE_NB c" if "e' \<in> set (all_victims s)" for e'
    using valid_of_le [OF s(2) victim_entry_in(1) [OF s]] that wf_configD(2) [OF wf]
    by (auto simp: all_victims_set [OF s(1)])
  show ?thesis
  proof (cases "n = PAGE_NB c")
    case True
    then have "\<forall>e\<in>set (all_victims s). valid_of c s e = PAGE_NB c" using n(2) le by force
    then show ?thesis
      using False True v(1) e(1) by (auto simp: SELECT_VICTIM_BLOCK_def tk selected_def)
  next
    case ne: False
    then have "valid_of c s e < PAGE_NB c" using le [OF n(3)] n(1) by simp
    then show ?thesis
      using False ne v(1) e(1) n k EJECT_VICTIM_BLOCK_eq [OF s(1) k]
      by (auto simp: SELECT_VICTIM_BLOCK_def tk selected_def)
  qed
qed

section \<open>Giving a block back\<close>

text \<open>No logical page lives in block \<open>a\<close>.\<close>

definition vacated :: "ssd_config \<Rightarrow> int \<Rightarrow> ftl_state \<Rightarrow> bool" where
  "vacated c a s \<longleftrightarrow>
     (\<forall>lpn. in_ssd c lpn \<longrightarrow> ppn_of s lpn \<noteq> -1 \<longrightarrow> ppn_of s lpn div PAGE_NB c \<noteq> a)"

lemma erased_pages_ok:
  assumes wf: "wf_config c" and s: "pages_ok c L s" and a: "a \<notin> listed c s" "vacated c a s"
    and m: "marked c {q. q div PAGE_NB c = a} (CHR ''0'') s s'"
  shows "pages_ok c L s'"
proof -
  note f = marked_fields [OF m]
  have st: "page_state c s' q = (if q div PAGE_NB c = a then CHR ''0'' else page_state c s q)"
    if "in_ssd c q" for q using m that by (simp add: marked_def)
  have mo: "map_ok c UNIV L s" using s by (simp add: pages_ok_def)
  have "map_ok c UNIV L s'"
    using mo a(2) map_okD [OF mo] by (auto simp: map_ok_def f st vacated_def)
  moreover have "lists_ok c s' = lists_ok c s" "free_pages c s' = free_pages c s"
    using same_lists_cong [OF marked_same_lists [OF m]] by simp_all
  moreover have "page_state c s' q = CHR ''0''" if "q \<in> free_pages c s" for q
  proof -
    have "in_ssd c q" using free_pages_in_ssd [OF wf _ that] s by (simp add: pages_ok_def)
    then show ?thesis using st that s by (simp add: pages_ok_def)
  qed
  ultimately show ?thesis using s m by (simp add: pages_ok_def marked_def)
qed

lemma insert_listed:
  assumes wf: "wf_config c" and s: "lists_ok c s" and fb: "in_chip c f b"
    and a: "block_index c f b \<notin> listed c s"
  shows "returns (INSERT_EMPTY_BLOCK c f b s) (\<lambda>s'. lists_ok c s' \<and> same_tables s s' \<and>
    listed c s' = insert (block_index c f b) (listed c s) \<and>
    free_pages c s' = free_pages c s \<union> {q. q div PAGE_NB c = block_index c f b} \<and>
    total_empty_block_nb s' = total_empty_block_nb s + 1)"
proof -
  let ?a = "block_index c f b"
  let ?e = "\<lparr>phy_flash_nb = f, phy_block_nb = b, curr_phy_page_nb = 0\<rparr>"
  obtain k where k: "root_index c f b = int k" "k < reg_count c"
    using root_index_range [OF wf, of f b] fb unfolding in_chip_def by (metis nonneg_int_cases of_nat_less_iff)
  let ?s = "put_chains k (echain s k @ [?e]) (vchain s k) s"
  have P: "0 < PAGE_NB c" by (rule wf_configD(2) [OF wf])
  have "root_blocks c (echain s k) (vchain s k) \<subseteq> listed c s" using k(2) by (auto simp: listed_def)
  then have "?a \<notin> root_blocks c (echain s k) (vchain s k)" using a by blast
  then have "chains_ok c (int k) (echain s k @ [?e]) (vchain s k)"
    using lists_okD(3) [OF s k(2)] fb k(1) P
    by (cases "echain s k") (auto simp: chains_ok_def entry_ok_def in_chip_def root_blocks_def)
  then have "lists_ok c ?s" by (rule lists_ok_put_chains [OF s k(2)])
  moreover have "listed c ?s = insert ?a (listed c s)"
    unfolding listed_put_chains [OF s k(2)] listed_split [OF k(2), of s] by (auto simp: root_blocks_def)
  moreover have "entry_free c ?e = {q. q div PAGE_NB c = ?a}" using P by (simp add: entry_free_def)
  then have "free_pages c ?s = free_pages c s \<union> {q. q div PAGE_NB c = ?a}"
    unfolding free_pages_put_chains [OF s k(2)] free_pages_split [OF k(2), of s] by auto
  ultimately show ?thesis
    using INSERT_EMPTY_BLOCK_eq [OF s k(2,1)] by (simp add: same_tables_def put_chains_def)
qed

lemma free_block:
  assumes wf: "wf_config c" and s: "ftl_inv c s" and fb: "in_chip c f b"
    and a: "block_index c f b \<notin> listed c s" "vacated c (block_index c f b) s"
  shows "returns (Option.bind (UPDATE_BLOCK_STATE c f b EMPTY_BLOCK s) (INSERT_EMPTY_BLOCK c f b))
    (\<lambda>s'. ftl_inv c s' \<and> mapping_table s' = mapping_table s \<and>
      listed c s' = insert (block_index c f b) (listed c s) \<and>
      free_pages c s' = free_pages c s \<union> {q. q div PAGE_NB c = block_index c f b} \<and>
      total_empty_block_nb s' = total_empty_block_nb s + 1)"
proof -
  let ?a = "block_index c f b" and ?L = "listed_pages c s"
  have p: "pages_ok c ?L s" using s by (simp add: ftl_inv_def)
  obtain t where t: "UPDATE_BLOCK_STATE c f b EMPTY_BLOCK s = Some t"
    "marked c {q. q div PAGE_NB c = ?a} (CHR ''0'') s t"
    using UPDATE_BLOCK_STATE_erases [OF wf _ fb, of s] p by (auto simp: pages_ok_def elim!: returnsE)
  have pt: "pages_ok c ?L t" by (rule erased_pages_ok [OF wf p a t(2)])
  have lt: "listed c t = listed c s" "free_pages c t = free_pages c s"
    using same_lists_cong [OF marked_same_lists [OF t(2)]] by simp_all
  obtain u where u: "INSERT_EMPTY_BLOCK c f b t = Some u" "lists_ok c u" "same_tables t u"
    "listed c u = insert ?a (listed c t)" "free_pages c u = free_pages c t \<union> {q. q div PAGE_NB c = ?a}"
    "total_empty_block_nb u = total_empty_block_nb t + 1"
    using insert_listed [OF wf _ fb, of t] pt a(1) lt(1) by (auto simp: pages_ok_def elim!: returnsE)
  have tb: "mapping_table u = mapping_table t" "inverse_mapping_table u = inverse_mapping_table t"
    "block_state_table u = block_state_table t" using u(3) by (simp_all add: same_tables_def)
  have ps: "page_state c u q = page_state c t q" for q by (simp add: page_state_def tb)
  have z: "page_state c t q = CHR ''0''" if "q div PAGE_NB c = ?a" for q
  proof -
    have "0 \<le> ?a" "?a < BLOCK_NB c * FLASH_NB c"
      using fb block_index_range [of f "FLASH_NB c" b "BLOCK_NB c" c] by (auto simp: in_chip_def)
    then have "in_ssd c q" using that by (simp add: in_ssd_iff_block [OF wf])
    then show ?thesis using t(2) that by (simp add: marked_def)
  qed
  have "map_ok c UNIV (listed_pages c u) u"
    using pt z unfolding pages_ok_def map_ok_def ps tb u(4) lt(1) by auto
  moreover have "\<forall>q\<in>free_pages c u. page_state c u q = CHR ''0''"
    using pt z unfolding pages_ok_def ps u(5) by auto
  ultimately have "ftl_inv c u"
    using pt u(2) by (simp add: ftl_inv_def pages_ok_def blocks_ok_def tb)
  then show ?thesis
    using t(1) u lt marked_fields(1,5) [OF t(2)] by (simp add: tb)
qed

section \<open>The copy loop\<close>

text \<open>
  The loop invariant when the pages below \<open>i\<close> of the victim \<open>a\<close> have been treated;
  \<open>t\<^sub>0\<close> are the tables right after the victim was taken out of its list.
\<close>

definition copying :: "ssd_config \<Rightarrow> int \<Rightarrow> ftl_state \<Rightarrow> int \<Rightarrow> ftl_state \<Rightarrow> bool" where
  "copying c a t0 i t \<longleftrightarrow>
     pages_ok c (listed_pages c t0 \<union> {q. q div PAGE_NB c = a \<and> i \<le> q mod PAGE_NB c}) t \<and>
     listed c t = listed c t0 \<and>
     (\<forall>q. in_ssd c q \<longrightarrow> q div PAGE_NB c = a \<longrightarrow> page_state c t q = page_state c t0 q) \<and>
     (\<forall>lpn. in_ssd c lpn \<longrightarrow> ppn_of t lpn \<noteq> -1 \<longrightarrow> ppn_of t lpn div PAGE_NB c = a \<longrightarrow>
        i \<le> ppn_of t lpn mod PAGE_NB c) \<and>
     (\<forall>lpn. in_ssd c lpn \<longrightarrow> (ppn_of t lpn = -1) = (ppn_of t0 lpn = -1)) \<and>
     (\<forall>lpn. in_ssd c lpn \<longrightarrow> ppn_of t0 lpn div PAGE_NB c \<noteq> a \<longrightarrow> ppn_of t lpn = ppn_of t0 lpn)"

lemma finite_free_pages:
  assumes "wf_config c" "lists_ok c s"
  shows "finite (free_pages c s)"
proof (rule finite_subset)
  show "free_pages c s \<subseteq> {0..<PAGE_NB c * BLOCK_NB c * FLASH_NB c}"
    using free_pages_in_ssd [OF assms] by (auto simp: in_ssd_def)
qed simp

lemma copying_same_tables:
  assumes "copying c a t0 i t" "pages_ok c (listed_pages c t0 \<union> {q. q div PAGE_NB c = a \<and> i \<le> q mod PAGE_NB c}) u"
    and "same_tables t u" "listed c u = listed c t"
  shows "copying c a t0 i u"
  using assms by (simp add: copying_def same_tables_def page_state_def)

lemma copying_skip:
  assumes c: "copying c a t0 i t" and nv: "page_state c t (a * PAGE_NB c + i) \<noteq> CHR ''V''"
  shows "copying c a t0 (i + 1) t"
proof -
  let ?L = "\<lambda>i. listed_pages c t0 \<union> {q. q div PAGE_NB c = a \<and> i \<le> q mod PAGE_NB c}"
  have p: "pages_ok c (?L i) t" using c by (simp add: copying_def)
  then have m: "map_ok c UNIV (?L i) t" by (simp add: pages_ok_def)
  have "map_ok c UNIV (?L (i + 1)) t" by (rule map_ok_mono [OF m]) auto
  then have p': "pages_ok c (?L (i + 1)) t" using p by (simp add: pages_ok_def)
  have "i + 1 \<le> ppn_of t lpn mod PAGE_NB c"
    if l: "in_ssd c lpn" "ppn_of t lpn \<noteq> -1" "ppn_of t lpn div PAGE_NB c = a" for lpn
  proof -
    have "page_state c t (ppn_of t lpn) = CHR ''V''" using map_okD(3) [OF m _ l(1,2)] by simp
    then have "ppn_of t lpn mod PAGE_NB c \<noteq> i"
      using nv l(3) div_mult_mod_eq [of "ppn_of t lpn" "PAGE_NB c"] by auto
    moreover have "i \<le> ppn_of t lpn mod PAGE_NB c" using c l by (simp add: copying_def)
    ultimately show ?thesis by simp
  qed
  then show ?thesis using c p' by (simp add: copying_def)
qed

lemma copying_move:
  assumes wf: "wf_config c" "PLANES_PER_FLASH c = 1" and r: "0 \<le> r" "r < int (reg_count c)"
    and a: "a \<notin> listed c t0" "0 \<le> a" "a < BLOCK_NB c * FLASH_NB c" and i: "0 \<le> i" "i < PAGE_NB c"
    and c: "copying c a t0 i t" and v: "page_state c t (a * PAGE_NB c + i) = CHR ''V''"
    and g: "GET_NEW_PAGE c VICTIM_INCHIP r t = Some (Some ppn, t')"
  shows "in_ssd c ppn" "lpn_of t' (a * PAGE_NB c + i) = lpn_of t (a * PAGE_NB c + i)"
    "returns (UPDATE_NEW_PAGE_MAPPING c (lpn_of t (a * PAGE_NB c + i)) ppn t')
      (\<lambda>u. copying c a t0 (i + 1) u \<and> card (free_pages c u) + 1 = card (free_pages c t))"
proof -
  let ?q = "a * PAGE_NB c + i"
  let ?L = "\<lambda>i. listed_pages c t0 \<union> {q. q div PAGE_NB c = a \<and> i \<le> q mod PAGE_NB c}"
  note q = in_ssd_page [OF a(2,3) i]
  have p: "pages_ok c (?L i) t" and li: "listed c t = listed c t0" using c by (simp_all add: copying_def)
  then have m: "map_ok c UNIV (?L i) t" by (simp add: pages_ok_def)
  let ?l = "lpn_of t ?q"
  have l: "in_ssd c ?l" "ppn_of t ?l = ?q" using map_okD(4,5) [OF m _ q(1) v] q by auto
  have rd: "PLANES_PER_FLASH c = 1 \<and> 0 \<le> r \<and> r < int (reg_count c)" using wf(2) r by blast
  obtain u where u: "UPDATE_NEW_PAGE_MAPPING c ?l ppn t' = Some u" "pages_ok c (?L i - {?q}) u"
    "listed c u = listed c t" "in_ssd c ppn" "ppn div PAGE_NB c \<in> listed c t"
    "mapping_table u = (mapping_table t)[nat ?l := ppn]"
    "\<forall>q. in_ssd c q \<longrightarrow> q \<noteq> ppn \<longrightarrow> page_state c u q = page_state c t q \<and> lpn_of u q = lpn_of t q"
    "free_pages c u = free_pages c t - {ppn}"
    using inchip.relocate_page [OF wf(1) rd p l(1) g] unfolding l(2) by (auto elim!: returnsE)
  have "ppn \<in> free_pages c t"
    using inchip.page_or_full [OF wf(1) rd p] g by (auto elim!: returnsE)
  moreover have "finite (free_pages c t)" using finite_free_pages [OF wf(1)] p by (simp add: pages_ok_def)
  ultimately have fr: "card (free_pages c u) + 1 = card (free_pages c t)"
    unfolding u(8) Suc_eq_plus1 [symmetric] by (intro card_Suc_Diff1)
  show "in_ssd c ppn" by (rule u(4))
  show "lpn_of t' ?q = ?l"
    using inchip.page_or_full [OF wf(1) rd p] g by (auto simp: same_tables_def elim!: returnsE)
  have na: "ppn div PAGE_NB c \<noteq> a" using u(5) a(1) li by auto
  have "?q \<notin> ?L (i + 1)" unfolding Un_iff mem_Collect_eq q(2,3) using a(1) by simp
  moreover have "?L (i + 1) \<subseteq> ?L i" by auto
  ultimately have "?L (i + 1) \<subseteq> ?L i - {?q}" by blast
  then have "map_ok c UNIV (?L (i + 1)) u"
    using u(2) map_ok_mono [of c UNIV "?L i - {?q}" u UNIV] by (simp only: pages_ok_def)
  then have 1: "pages_ok c (?L (i + 1)) u" using u(2) by (simp add: pages_ok_def)
  have pp: "ppn_of u x = (if ?l = x then ppn else ppn_of t x)" if "in_ssd c x" for x
    using that map_ok_lengths [OF m l(1)] by (simp add: u(6) nth_nat_update in_ssd_def)
  have 2: "i + 1 \<le> ppn_of u x mod PAGE_NB c"
    if x: "in_ssd c x" "ppn_of u x \<noteq> -1" "ppn_of u x div PAGE_NB c = a" for x
  proof -
    have ne: "?l \<noteq> x" using x(3) na pp [OF x(1)] by auto
    then have e: "ppn_of u x = ppn_of t x" using pp [OF x(1)] by simp
    have "ppn_of t x \<noteq> ?q" using ne map_okD(2) [OF m _ x(1)] x(2) e by auto
    then have "ppn_of t x mod PAGE_NB c \<noteq> i"
      using x(3) e div_mult_mod_eq [of "ppn_of t x" "PAGE_NB c"] by auto
    moreover have "i \<le> ppn_of t x mod PAGE_NB c" using c x e by (simp add: copying_def)
    ultimately show ?thesis using e by simp
  qed
  have 3: "(ppn_of u x = -1) = (ppn_of t0 x = -1)" if "in_ssd c x" for x
  proof -
    have nn: "ppn \<noteq> -1" "?q \<noteq> -1" using u(4) q(1) unfolding in_ssd_def by linarith+
    have "(ppn_of t x = -1) = (ppn_of t0 x = -1)" using c that unfolding copying_def by blast
    then show ?thesis using pp [OF that] nn l(2) by (cases "?l = x") simp_all
  qed
  have 4: "ppn_of u x = ppn_of t0 x" if "in_ssd c x" "ppn_of t0 x div PAGE_NB c \<noteq> a" for x
  proof -
    have "ppn_of t x = ppn_of t0 x" using that c by (simp add: copying_def)
    moreover from this have "?l \<noteq> x" using that(2) l(2) q(2) by auto
    ultimately show ?thesis using pp [OF that(1)] by simp
  qed
  have 5: "page_state c u x = page_state c t0 x" if "in_ssd c x" "x div PAGE_NB c = a" for x
    using that na u(7) c by (auto simp: copying_def)
  show "returns (UPDATE_NEW_PAGE_MAPPING c ?l ppn t')
      (\<lambda>u. copying c a t0 (i + 1) u \<and> card (free_pages c u) + 1 = card (free_pages c t))"
    using u(1,3) li 1 2 3 4 5 fr by (simp add: copying_def)
qed

text \<open>The number of valid pages among the first \<open>i\<close> of block \<open>a\<close>.\<close>

definition valid_below :: "ssd_config \<Rightarrow> ftl_state \<Rightarrow> int \<Rightarrow> int \<Rightarrow> int" where
  "valid_below c t a i =
     int (count_list (take (nat i) (valid_array (block_state_table t ! nat a))) (CHR ''V''))"

lemma block_arrays:
  assumes wf: "wf_config c" and b: "blocks_ok c t" and a: "0 \<le> a" "a < BLOCK_NB c * FLASH_NB c"
    and i: "0 \<le> i" "i < PAGE_NB c"
  shows "block_state_table t ! nat a \<in> set (block_state_table t)"
    "length (valid_array (block_state_table t ! nat a)) = nat (PAGE_NB c)"
    "valid_array (block_state_table t ! nat a) ! nat i = page_state c t (a * PAGE_NB c + i)"
proof -
  show e: "block_state_table t ! nat a \<in> set (block_state_table t)"
    using a b by (simp add: blocks_ok_def nat_less_iff)
  then show "length (valid_array (block_state_table t ! nat a)) = nat (PAGE_NB c)"
    using b by (simp add: blocks_ok_def)
  show "valid_array (block_state_table t ! nat a) ! nat i = page_state c t (a * PAGE_NB c + i)"
    by (simp only: page_state_def in_ssd_page(2,3) [OF a i])
qed

lemma valid_below_step:
  assumes "wf_config c" "blocks_ok c t" "0 \<le> a" "a < BLOCK_NB c * FLASH_NB c" "0 \<le> i" "i < PAGE_NB c"
  shows "valid_below c t a (i + 1) = valid_below c t a i +
    (if page_state c t (a * PAGE_NB c + i) = CHR ''V'' then 1 else 0)"
proof -
  note b = block_arrays [OF assms]
  have "nat i < length (valid_array (block_state_table t ! nat a))" using b(2) assms(5,6) by simp
  then have "take (nat (i + 1)) (valid_array (block_state_table t ! nat a)) =
      take (nat i) (valid_array (block_state_table t ! nat a)) @ [page_state c t (a * PAGE_NB c + i)]"
    using assms(5) by (simp add: nat_add_distrib take_Suc_conv_app_nth b(3))
  then show ?thesis by (simp add: valid_below_def)
qed

lemma valid_below_mono:
  assumes "i \<le> j"
  shows "valid_below c t a i \<le> valid_below c t a j"
proof -
  have "nat i \<le> nat j" using assms by simp
  then have "take (nat j) xs = take (nat i) xs @ take (nat j - nat i) (drop (nat i) xs)" for xs :: string
    by (metis le_add_diff_inverse take_add)
  then show ?thesis unfolding valid_below_def by (metis count_list_append le_add1 of_nat_mono)
qed

lemma victim_page_number:
  assumes wf: "wf_config c" and fb: "in_chip c f b" and i: "0 \<le> i" "i < PAGE_NB c"
  shows "i32 (f * PAGES_PER_FLASH c + b * PAGE_NB c + i) = block_index c f b * PAGE_NB c + i"
proof -
  have a: "0 \<le> block_index c f b" "block_index c f b < BLOCK_NB c * FLASH_NB c"
    using fb block_index_range [of f "FLASH_NB c" b "BLOCK_NB c" c] by (auto simp: in_chip_def)
  have "PAGES_PER_FLASH c = PAGE_NB c * BLOCK_NB c" using wf by (simp add: wf_config_def)
  then have "f * PAGES_PER_FLASH c + b * PAGE_NB c + i = block_index c f b * PAGE_NB c + i"
    by (simp add: block_index_def algebra_simps)
  moreover have "in_ssd c (block_index c f b * PAGE_NB c + i)" by (rule in_ssd_page(1) [OF a i])
  ultimately show ?thesis using wf_small(1) [OF wf] by (simp add: in_ssd_def i32_id)
qed

text \<open>
  Copying returns. It either moves every valid page of the victim, or stops because the device
  has fewer free pages than the victim has valid ones; in both cases the tables stay
  consistent.
\<close>

definition copied_to :: "ssd_config \<Rightarrow> int \<Rightarrow> ftl_state \<Rightarrow> io_state \<Rightarrow> (status \<times> int) \<times> ssd \<Rightarrow> bool" where
  "copied_to c a t0 d0 = (\<lambda>((r, n), s). io_quiet c d0 (dev s) \<and>
     (case r of
        SUCCESS \<Rightarrow> copying c a t0 (PAGE_NB c) (tables s) \<and> n = valid_below c t0 a (PAGE_NB c) \<and>
          int (card (free_pages c (tables s))) + n = int (card (free_pages c t0))
      | FAIL \<Rightarrow> int (card (free_pages c t0)) < valid_below c t0 a (PAGE_NB c) \<and>
          (\<exists>i\<ge>0. copying c a t0 i (tables s))))"

lemma gc_copy_copies:
  assumes wf: "wf_config c" "PLANES_PER_FLASH c = 1" and clk: "clock_advances gt"
    and fb: "in_chip c f b" and a: "a = block_index c f b" "a \<notin> listed c t0" and t0: "blocks_ok c t0"
    and i: "0 \<le> i" "i \<le> PAGE_NB c"
    and s: "copying c a t0 i (tables s)" "io_quiet c d0 (dev s)" "n = valid_below c t0 a i"
      "int (card (free_pages c (tables s))) + n = int (card (free_pages c t0))"
  shows "returns (gc_copy gt c f b [i..PAGE_NB c - 1] n s) (copied_to c a t0 d0)"
  using i s
proof (induction "nat (PAGE_NB c - i)" arbitrary: i n s)
  case 0
  then have "i = PAGE_NB c" by simp
  then show ?case using 0 by (simp add: copied_to_def)
next
  case (Suc k)
  have i: "0 \<le> i" "i < PAGE_NB c" using Suc by simp_all
  have split: "[i..PAGE_NB c - 1] = i # [i + 1..PAGE_NB c - 1]" using i by (simp add: upto_rec1)
  have k: "k = nat (PAGE_NB c - (i + 1))" using Suc(2) by simp
  have ar: "0 \<le> a" "a < BLOCK_NB c * FLASH_NB c"
    using fb a(1) block_index_range [of f "FLASH_NB c" b "BLOCK_NB c" c] by (auto simp: in_chip_def)
  let ?t = "tables s" and ?q = "a * PAGE_NB c + i" and ?r = "root_index c f b"
  have p: "pages_ok c (listed_pages c t0 \<union> {q. q div PAGE_NB c = a \<and> i \<le> q mod PAGE_NB c}) ?t"
    using Suc.prems(3) by (simp add: copying_def)
  then have bt: "blocks_ok c ?t" and lt: "map_ok c UNIV (listed_pages c t0 \<union> {q. q div PAGE_NB c = a \<and> i \<le> q mod PAGE_NB c}) ?t"
    by (simp_all add: pages_ok_def)
  note arr = block_arrays [OF wf(1) bt ar i]
  note q = in_ssd_page [OF ar i]
  have get: "GET_BLOCK_STATE_ENTRY c f b ?t = Some (block_state_table ?t ! nat a)"
    using ar bt by (simp add: GET_BLOCK_STATE_ENTRY_def aget_def a(1) [symmetric] blocks_ok_def)
  have ch: "aget (valid_array (block_state_table ?t ! nat a)) i = Some (page_state c ?t ?q)"
    using arr i by (simp add: aget_def)
  have st: "page_state c t0 ?q = page_state c ?t ?q"
    using Suc.prems(3) q by (simp add: copying_def)
  show ?case
  proof (cases "page_state c ?t ?q = CHR ''V''")
    case False
    then have cp: "copying c a t0 (i + 1) ?t" by (rule copying_skip [OF Suc.prems(3)])
    have "returns (gc_copy gt c f b [i + 1..PAGE_NB c - 1] n s) (copied_to c a t0 d0)"
    proof (rule Suc(1) [OF k])
      show "n = valid_below c t0 a (i + 1)"
        unfolding valid_below_step [OF wf(1) t0 ar i] st by (simp add: False Suc.prems(5))
    qed (use i Suc.prems(4,6) cp in simp_all)
    then show ?thesis unfolding split gc_copy.simps by (simp add: False get ch)
  next
    case V: True
    have rr: "0 \<le> ?r" "?r < int (reg_count c)"
      using root_index_range [OF wf(1)] fb by (simp_all only: in_chip_def)
    have rd: "PLANES_PER_FLASH c = 1 \<and> 0 \<le> ?r \<and> ?r < int (reg_count c)" using wf(2) rr by blast
    obtain page t where g: "GET_NEW_PAGE c VICTIM_INCHIP ?r ?t = Some (page, t)"
      and pf: "pages_ok c (listed_pages c t0 \<union> {q. q div PAGE_NB c = a \<and> i \<le> q mod PAGE_NB c}) t"
        "same_tables ?t t" "listed c t = listed c ?t"
      by (rule returnsE [OF inchip.page_or_full [OF wf(1) rd p]]) auto
    show ?thesis
    proof (cases page)
      case None
      have "lists_ok c ?t" using p by (simp add: pages_ok_def)
      from inchip.gives_page [OF wf(1) rd this] have fr: "free_pages c ?t = {}"
        using g None by (auto simp: new_page_def elim!: returnsE)
      have "n < valid_below c t0 a (i + 1)"
        unfolding valid_below_step [OF wf(1) t0 ar i] st by (simp add: V Suc.prems(5))
      then have few: "int (card (free_pages c t0)) < valid_below c t0 a (PAGE_NB c)"
        using valid_below_mono [of "i + 1" "PAGE_NB c" c t0 a] Suc.prems(6) fr i by simp
      have "copying c a t0 i t" by (rule copying_same_tables [OF Suc.prems(3) pf])
      with few have "copied_to c a t0 d0 ((FAIL, n), s\<lparr>tables := t\<rparr>)"
        using Suc.prems(1,4) by (auto simp: copied_to_def)
      then show ?thesis unfolding split gc_copy.simps by (simp add: V get ch g None)
    next
      case (Some ppn)
      note mv = copying_move [OF wf rr a(2) ar i Suc.prems(3) V g [unfolded Some]]
      let ?l = "lpn_of ?t ?q"
      obtain u where u: "UPDATE_NEW_PAGE_MAPPING c ?l ppn t = Some u" "copying c a t0 (i + 1) u"
        "card (free_pages c u) + 1 = card (free_pages c ?t)"
        using mv(3) by (auto elim!: returnsE)
      have d: "io_inv c (dev s)" using Suc.prems(4) by (simp add: io_quiet_def)
      have f: "0 \<le> f" "f < FLASH_NB c" using fb by (simp_all add: in_chip_def)
      have f': "0 \<le> CALC_FLASH c ppn" "CALC_FLASH c ppn < FLASH_NB c"
        using calc_ppn(4) [OF wf(1) mv(1)] by (simp_all add: in_chip_def)
      obtain d1 where d1: "SSD_PAGE_READ gt c f b i GC_READ (dev s) = Some (SUCCESS, d1)" "io_quiet c (dev s) d1"
        using gc_ops_quiet(1) [OF wf(1) f clk d, of b i] by (auto elim!: returnsE)
      obtain d2 where d2: "SSD_PAGE_WRITE gt c (CALC_FLASH c ppn) (CALC_BLOCK c ppn) i GC_WRITE d1 = Some (SUCCESS, d2)"
        "io_quiet c d1 d2"
        using gc_ops_quiet(2) [OF wf(1) f' clk, of d1 "CALC_BLOCK c ppn" i] d1(2)
        by (auto simp: io_quiet_def elim!: returnsE)
      have len: "length (inverse_mapping_table t) = length (inverse_mapping_table ?t)"
        using pf(2) by (simp add: same_tables_def)
      have inv: "GET_INVERSE_MAPPING_INFO (i32 (f * PAGES_PER_FLASH c + b * PAGE_NB c + i)) t = Some ?l"
        using map_ok_lengths [OF lt q(1)] mv(2) len
        by (simp add: victim_page_number [OF wf(1) fb i] a(1) [symmetric] GET_INVERSE_MAPPING_INFO_def aget_def)
      have "returns (gc_copy gt c f b [i + 1..PAGE_NB c - 1] (n + 1) (s\<lparr>tables := u, dev := d2\<rparr>)) (copied_to c a t0 d0)"
      proof (rule Suc(1) [OF k])
        show "io_quiet c d0 (dev (s\<lparr>tables := u, dev := d2\<rparr>))"
          using io_quiet_trans [OF io_quiet_trans [OF Suc.prems(4) d1(2)] d2(2)] by simp
        show "n + 1 = valid_below c t0 a (i + 1)"
          unfolding valid_below_step [OF wf(1) t0 ar i] st by (simp add: V Suc.prems(5))
        show "int (card (free_pages c (tables (s\<lparr>tables := u, dev := d2\<rparr>)))) + (n + 1) =
            int (card (free_pages c t0))"
          using Suc.prems(6) u(3) by simp
      qed (use i u(2) in simp_all)
      then show ?thesis
        unfolding split gc_copy.simps by (simp add: get ch V g Some d1(1) d2(1) inv u(1))
    qed
  qed
qed


section \<open>Garbage collection\<close>

lemma eject_victim:
  assumes wf: "wf_config c" and t: "ftl_inv c t" and k: "k < reg_count c" and e: "e \<in> set (vchain t k)"
    and t': "t' = put_chains k (echain t k) (remove1 e (vchain t k)) t"
  shows "copying c (addr c e) t' 0 t'" "addr c e \<notin> listed c t'" "listed c t = insert (addr c e) (listed c t')"
    "free_pages c t' = free_pages c t" "blocks_ok c t'" "same_tables t t'"
proof -
  let ?a = "addr c e"
  have l: "lists_ok c t" and b: "blocks_ok c t" and m: "map_ok c UNIV (listed_pages c t) t"
    and z: "\<forall>q\<in>free_pages c t. page_state c t q = CHR ''0''"
    using t by (simp_all add: ftl_inv_def pages_ok_def)
  note ch = lists_okD(3) [OF l k]
  have d: "distinct (map (addr c) (vchain t k))" using ch by (simp add: chains_ok_def)
  then have dv: "distinct (vchain t k)" by (simp add: distinct_map)
  have sub: "set (remove1 e (vchain t k)) = set (vchain t k) - {e}" using dv by simp
  have "distinct (map (addr c) (remove1 e (vchain t k)))"
    using d by (auto simp: distinct_map intro: inj_on_subset)
  then have ok: "chains_ok c (int k) (echain t k) (remove1 e (vchain t k))"
    using ch sub unfolding chains_ok_def by (auto simp: distinct_map)
  have l': "lists_ok c t'" unfolding t' by (rule lists_ok_put_chains [OF l k ok])
  have rb: "root_blocks c (echain t k) (vchain t k) =
      insert ?a (root_blocks c (echain t k) (remove1 e (vchain t k)))"
    using e sub by (auto simp: root_blocks_def)
  have na: "?a \<notin> root_blocks c (echain t k) (remove1 e (vchain t k))"
  proof -
    have "inj_on (addr c) (set (vchain t k))" using d by (simp add: distinct_map)
    then have "?a \<notin> addr c ` (set (vchain t k) - {e})"
      using inj_on_image_mem_iff [of "addr c" "set (vchain t k)" e "set (vchain t k) - {e}"] e by blast
    moreover have "addr c ` set (echain t k) \<inter> addr c ` set (vchain t k) = {}"
      using ch by (simp add: chains_ok_def)
    ultimately show ?thesis using e unfolding root_blocks_def sub by blast
  qed
  have others: "?a \<notin> (\<Union>j\<in>{..<reg_count c} - {k}. root_blocks c (echain t j) (vchain t j))"
    using root_blocks_disjoint [OF l k] rb by auto
  have li: "listed c t' = root_blocks c (echain t k) (remove1 e (vchain t k)) \<union>
      (\<Union>j\<in>{..<reg_count c} - {k}. root_blocks c (echain t j) (vchain t j))"
    unfolding t' by (rule listed_put_chains [OF l k])
  show a: "?a \<notin> listed c t'" using li na others by simp
  show lt: "listed c t = insert ?a (listed c t')" unfolding li listed_split [OF k, of t] rb by auto
  show fr: "free_pages c t' = free_pages c t"
    unfolding t' free_pages_put_chains [OF l k] free_pages_split [OF k, of t] by simp
  show st: "same_tables t t'" unfolding t' by (simp add: same_tables_def)
  then have tb: "mapping_table t' = mapping_table t" "inverse_mapping_table t' = inverse_mapping_table t"
    "block_state_table t' = block_state_table t" by (simp_all add: same_tables_def)
  show b': "blocks_ok c t'" using b by (simp add: blocks_ok_def tb)
  have P: "0 < PAGE_NB c" by (rule wf_configD(2) [OF wf])
  have "listed_pages c t' \<union> {q. q div PAGE_NB c = ?a \<and> 0 \<le> q mod PAGE_NB c} = listed_pages c t"
    using lt P by auto
  moreover have "map_ok c UNIV (listed_pages c t) t'" using m by (simp add: map_ok_def page_state_def tb)
  moreover have "\<forall>q\<in>free_pages c t'. page_state c t' q = CHR ''0''"
    using z by (simp add: fr page_state_def tb)
  ultimately have "pages_ok c (listed_pages c t' \<union> {q. q div PAGE_NB c = ?a \<and> 0 \<le> q mod PAGE_NB c}) t'"
    using l' b' by (simp add: pages_ok_def)
  then show "copying c ?a t' 0 t'" using P by (simp add: copying_def)
qed

lemma copying_inv:
  assumes "copying c a t0 i t"
  shows "ftl_inv c t"
proof -
  let ?L = "listed_pages c t0 \<union> {q. q div PAGE_NB c = a \<and> i \<le> q mod PAGE_NB c}"
  have p: "pages_ok c ?L t" and l: "listed c t = listed c t0" using assms by (simp_all add: copying_def)
  have "map_ok c UNIV (listed_pages c t) t"
    by (rule map_ok_mono [of c UNIV ?L t]) (use p l in \<open>auto simp: pages_ok_def\<close>)
  then show ?thesis using p by (simp add: ftl_inv_def pages_ok_def)
qed

lemma copying_vacated:
  assumes "wf_config c" "copying c a t0 (PAGE_NB c) t"
  shows "vacated c a t"
  unfolding vacated_def
proof (intro allI impI notI)
  fix lpn
  assume "in_ssd c lpn" "ppn_of t lpn \<noteq> -1" "ppn_of t lpn div PAGE_NB c = a"
  then have "PAGE_NB c \<le> ppn_of t lpn mod PAGE_NB c" using assms(2) unfolding copying_def by blast
  then show False using pos_mod_bound [OF wf_configD(2) [OF assms(1)], of "ppn_of t lpn"] by simp
qed

lemma copying_count:
  assumes wf: "wf_config c" and c: "copying c a t0 i t" and t0: "blocks_ok c t0"
    and a: "0 \<le> a" "a < BLOCK_NB c * FLASH_NB c"
  shows "valid_page_nb (block_state_table t ! nat a) = valid_below c t0 a (PAGE_NB c)"
proof -
  have P: "0 \<le> (0 :: int)" "0 < PAGE_NB c" using wf_configD(2) [OF wf] by simp_all
  have b: "blocks_ok c t" using c by (simp add: copying_def pages_ok_def)
  note t = block_arrays [OF wf b a P] and t' = block_arrays [OF wf t0 a P]
  have "valid_array (block_state_table t ! nat a) = valid_array (block_state_table t0 ! nat a)"
  proof (rule nth_equalityI)
    fix j
    assume "j < length (valid_array (block_state_table t ! nat a))"
    then have j: "0 \<le> int j" "int j < PAGE_NB c" using t(2) by simp_all
    show "valid_array (block_state_table t ! nat a) ! j = valid_array (block_state_table t0 ! nat a) ! j"
      using block_arrays(3) [OF wf b a j] block_arrays(3) [OF wf t0 a j] in_ssd_page [OF a j] c
      by (simp add: copying_def)
  qed (simp add: t t')
  moreover have "valid_page_nb (block_state_table t ! nat a) =
      int (count_list (valid_array (block_state_table t ! nat a)) (CHR ''V''))"
    using b t(1) by (simp add: blocks_ok_def)
  ultimately show ?thesis using t'(2) by (simp add: valid_below_def)
qed

lemma card_block_pages:
  assumes "0 < P"
  shows "finite {q :: int. q div P = a}" "int (card {q :: int. q div P = a}) = P"
proof -
  have "{q. q div P = a} = {a * P..<a * P + P}"
  proof (intro set_eqI iffI)
    fix q
    assume "q \<in> {q. q div P = a}"
    then have "q = a * P + q mod P" using div_mult_mod_eq [of q P] by simp
    then show "q \<in> {a * P..<a * P + P}"
      using pos_mod_sign [OF assms, of q] pos_mod_bound [OF assms, of q] by simp
  next
    fix q
    assume "q \<in> {a * P..<a * P + P}"
    then have "(a * P + (q - a * P)) div P = a" using assms by (subst div_mult_self3) auto
    then show "q \<in> {q. q div P = a}" by simp
  qed
  then show "finite {q :: int. q div P = a}" "int (card {q :: int. q div P = a}) = P"
    using assms by simp_all
qed

text \<open>The result of collecting one block, on success and on failure.\<close>

definition reclaimed :: "ssd_config \<Rightarrow> ftl_state \<Rightarrow> ftl_state \<Rightarrow> block_entry \<Rightarrow> bool" where
  "reclaimed c t t' e \<longleftrightarrow> e \<in> set (all_victims t) \<and> valid_of c t e < PAGE_NB c \<and>
     (\<forall>e'\<in>set (all_victims t). valid_of c t e \<le> valid_of c t e') \<and>
     valid_of c t e \<le> int (card (free_pages c t)) \<and> listed c t' = listed c t \<and>
     vacated c (addr c e) t' \<and> {q. q div PAGE_NB c = addr c e} \<subseteq> free_pages c t' \<and>
     int (card (free_pages c t')) = int (card (free_pages c t)) + PAGE_NB c - valid_of c t e"

definition same_mapped :: "ssd_config \<Rightarrow> ftl_state \<Rightarrow> ftl_state \<Rightarrow> bool" where
  "same_mapped c t t' \<longleftrightarrow> (\<forall>lpn. in_ssd c lpn \<longrightarrow> (ppn_of t' lpn = -1) = (ppn_of t lpn = -1))"

text \<open>
  Nothing can be gained when every victim block is full of valid pages; collection gives up
  also when the best victim has more valid pages than there are free ones.
\<close>

definition all_valid :: "ssd_config \<Rightarrow> ftl_state \<Rightarrow> bool" where
  "all_valid c t \<longleftrightarrow> (\<forall>e\<in>set (all_victims t). valid_of c t e = PAGE_NB c)"

definition stuck :: "ssd_config \<Rightarrow> ftl_state \<Rightarrow> bool" where
  "stuck c t \<longleftrightarrow> all_valid c t \<or>
     (\<forall>e\<in>set (all_victims t). int (card (free_pages c t)) < valid_of c t e)"

definition collected :: "ssd_config \<Rightarrow> ssd \<Rightarrow> status \<times> ssd \<Rightarrow> bool" where
  "collected c s = (\<lambda>(r, s'). ftl_inv c (tables s') \<and> io_quiet c (dev s) (dev s') \<and>
     same_mapped c (tables s) (tables s') \<and>
     (case r of
        SUCCESS \<Rightarrow> (\<exists>e. reclaimed c (tables s) (tables s') e)
      | FAIL \<Rightarrow> stuck c (tables s) \<and> (all_valid c (tables s) \<longrightarrow> (\<exists>n. tables s' = (tables s)\<lparr>fail_cnt := n\<rparr>))))"

lemma same_mapped_refl [simp]: "same_mapped c t t"
  by (simp add: same_mapped_def)

lemma same_mapped_trans: "same_mapped c t u \<Longrightarrow> same_mapped c u v \<Longrightarrow> same_mapped c t v"
  by (simp add: same_mapped_def)

lemma ftl_inv_counters:
  "ftl_inv c (s\<lparr>fail_cnt := x\<rparr>) = ftl_inv c s" "ftl_inv c (s\<lparr>gc_count := x\<rparr>) = ftl_inv c s"
  "free_pages c (s\<lparr>gc_count := x\<rparr>) = free_pages c s" "listed c (s\<lparr>gc_count := x\<rparr>) = listed c s"
  by (simp_all add: ftl_inv_def pages_ok_def lists_ok_def blocks_ok_def map_ok_def page_state_def
      free_pages_def listed_def)

lemma erase_victim:
  assumes wf: "wf_config c" and t: "ftl_inv c t" and k: "k < reg_count c" "e \<in> set (vchain t k)"
    and t': "t' = put_chains k (echain t k) (remove1 e (vchain t k)) t"
    and cp: "copying c (addr c e) t' (PAGE_NB c) u" "int (card (free_pages c u)) + valid_of c t e = int (card (free_pages c t'))"
    and sel: "valid_of c t e < PAGE_NB c" "\<forall>e'\<in>set (all_victims t). valid_of c t e \<le> valid_of c t e'"
  shows "returns (Option.bind (UPDATE_BLOCK_STATE c (phy_flash_nb e) (phy_block_nb e) EMPTY_BLOCK u)
      (INSERT_EMPTY_BLOCK c (phy_flash_nb e) (phy_block_nb e)))
    (\<lambda>v. ftl_inv c v \<and> same_mapped c t v \<and> reclaimed c t v e)"
proof -
  let ?a = "addr c e"
  note ej = eject_victim [OF wf t k t']
  have l: "lists_ok c t" "blocks_ok c t" using t by (simp_all add: ftl_inv_def pages_ok_def)
  have fb: "in_chip c (phy_flash_nb e) (phy_block_nb e)"
    using victim_entry_in(2) [OF l k] by (simp add: entry_ok_def in_chip_def)
  have inv: "ftl_inv c u" by (rule copying_inv [OF cp(1)])
  have va: "vacated c ?a u" by (rule copying_vacated [OF wf cp(1)])
  have nl: "?a \<notin> listed c u" using cp(1) ej(2) by (simp add: copying_def)
  obtain v where v: "Option.bind (UPDATE_BLOCK_STATE c (phy_flash_nb e) (phy_block_nb e) EMPTY_BLOCK u)
      (INSERT_EMPTY_BLOCK c (phy_flash_nb e) (phy_block_nb e)) = Some v" "ftl_inv c v"
    "mapping_table v = mapping_table u" "free_pages c v = free_pages c u \<union> {q. q div PAGE_NB c = ?a}"
    "listed c v = insert ?a (listed c u)"
    using free_block [OF wf inv fb nl va] by (auto elim!: returnsE)
  have lu: "lists_ok c u" using inv by (simp add: ftl_inv_def pages_ok_def)
  have P: "0 < PAGE_NB c" by (rule wf_configD(2) [OF wf])
  have "free_pages c u \<inter> {q. q div PAGE_NB c = ?a} = {}" using free_pages_listed [OF lu] nl by fastforce
  then have "card (free_pages c v) = card (free_pages c u) + card {q. q div PAGE_NB c = ?a}"
    unfolding v(4) using finite_free_pages [OF wf lu] card_block_pages(1) [OF P] by (intro card_Un_disjoint)
  then have "int (card (free_pages c v)) = int (card (free_pages c t)) + PAGE_NB c - valid_of c t e"
    using card_block_pages(2) [OF P, of ?a] cp(2) ej(4) by simp
  moreover have "vacated c ?a v" using va by (simp add: vacated_def v(3))
  moreover have "e \<in> set (all_victims t)" using k by (auto simp: all_victims_set [OF l(1)])
  moreover have "listed c v = listed c t" using cp(1) ej(3) by (simp add: v(5) copying_def)
  moreover have "valid_of c t e \<le> int (card (free_pages c t))" using cp(2) ej(4) by simp
  ultimately have "reclaimed c t v e" using sel by (auto simp: reclaimed_def v(4))
  moreover have "same_mapped c t v"
    using cp(1) ej(6) by (simp add: same_mapped_def copying_def v(3) same_tables_def)
  ultimately show ?thesis using v(1,2) by simp
qed

lemma GARBAGE_COLLECTION_collects:
  assumes wf: "wf_config c" "PLANES_PER_FLASH c = 1" and clk: "clock_advances gt"
    and s: "ftl_inv c (tables s)" "io_inv c (dev s)"
  shows "returns (GARBAGE_COLLECTION gt c s) (collected c s)"
proof -
  let ?t = "tables s"
  have l: "lists_ok c ?t" "blocks_ok c ?t" using s(1) by (simp_all add: ftl_inv_def pages_ok_def)
  obtain v t where v: "SELECT_VICTIM_BLOCK c ?t = Some (v, t)" "selected c ?t (v, t)"
    using SELECT_VICTIM_BLOCK_selects [OF wf(1) l] by (auto elim!: returnsE)
  show ?thesis
  proof (cases v)
    case None
    then have t: "t = ?t\<lparr>fail_cnt := fail_cnt t\<rparr>" using v(2) by (auto simp: selected_def)
    have "ftl_inv c t" using s(1) by (subst t) (simp add: ftl_inv_counters)
    moreover have "same_mapped c ?t t" by (subst t) (simp add: same_mapped_def)
    moreover have "all_valid c ?t" using None v(2) by (simp add: selected_def all_valid_def)
    moreover have "\<exists>n. t = ?t\<lparr>fail_cnt := n\<rparr>" using t by blast
    ultimately have "collected c s (FAIL, s\<lparr>tables := t\<rparr>)"
      using io_quiet_refl [OF s(2)] by (simp add: collected_def stuck_def)
    then show ?thesis using None v(1) by (simp add: GARBAGE_COLLECTION_def)
  next
    case (Some e)
    let ?f = "phy_flash_nb e" and ?b = "phy_block_nb e" and ?a = "addr c e"
    obtain k where k: "k < reg_count c" "e \<in> set (vchain ?t k)"
      and t: "t = put_chains k (echain ?t k) (remove1 e (vchain ?t k)) ?t"
      and sel: "valid_of c ?t e < PAGE_NB c" "\<forall>e'\<in>set (all_victims ?t). valid_of c ?t e \<le> valid_of c ?t e'"
      using v(2) Some by (auto simp: selected_def)
    note ej = eject_victim [OF wf(1) s(1) k t]
    have fb: "in_chip c ?f ?b"
      using victim_entry_in(2) [OF l k] by (simp add: entry_ok_def in_chip_def)
    have a: "0 \<le> ?a" "?a < BLOCK_NB c * FLASH_NB c"
      using fb block_index_range [of ?f "FLASH_NB c" ?b "BLOCK_NB c" c] by (auto simp: in_chip_def)
    have P: "0 \<le> PAGE_NB c" using wf_configD(2) [OF wf(1)] by simp
    obtain r n s1 where g: "gc_copy gt c ?f ?b [0..PAGE_NB c - 1] 0 (s\<lparr>tables := t\<rparr>) = Some ((r, n), s1)"
      "copied_to c ?a t (dev s) ((r, n), s1)"
      using gc_copy_copies [OF wf clk fb refl ej(2,5), of 0 "s\<lparr>tables := t\<rparr>" "dev s" 0] P ej(1)
        io_quiet_refl [OF s(2)] by (auto simp: valid_below_def elim!: returnsE)
    have q: "io_quiet c (dev s) (dev s1)" using g(2) by (simp add: copied_to_def)
    have sm: "same_mapped c ?t (tables s1)" if "copying c ?a t i (tables s1)" for i
      using that ej(6) by (simp add: same_mapped_def copying_def same_tables_def)
    show ?thesis
    proof (cases r)
      case FAIL
      then obtain i where i: "copying c ?a t i (tables s1)" "int (card (free_pages c t)) < valid_below c t ?a (PAGE_NB c)"
        using g(2) by (auto simp: copied_to_def)
      have "valid_of c ?t e = valid_below c t ?a (PAGE_NB c)"
        using copying_count [OF wf(1) ej(1,5) a] ej(6) by (simp add: valid_of_def same_tables_def)
      then have few: "int (card (free_pages c ?t)) < valid_of c ?t e" using i(2) ej(4) by simp
      have "stuck c ?t" using few sel(2) unfolding stuck_def by (meson less_le_trans)
      moreover have "e \<in> set (all_victims ?t)" using k by (auto simp: all_victims_set [OF l(1)])
      then have "\<not> all_valid c ?t" using sel(1) unfolding all_valid_def by force
      ultimately have "collected c s (FAIL, s1)"
        using q sm [OF i(1)] copying_inv [OF i(1)] by (simp add: collected_def)
      then show ?thesis using Some v(1) g(1) FAIL by (simp add: GARBAGE_COLLECTION_def Let_def)
    next
      case SUCCESS
      then have cp: "copying c ?a t (PAGE_NB c) (tables s1)" "n = valid_below c t ?a (PAGE_NB c)"
        "int (card (free_pages c (tables s1))) + n = int (card (free_pages c t))"
        using g(2) by (simp_all add: copied_to_def)
      have bs: "blocks_ok c (tables s1)" using cp(1) by (simp add: copying_def pages_ok_def)
      have get: "GET_BLOCK_STATE_ENTRY c ?f ?b (tables s1) = Some (block_state_table (tables s1) ! nat ?a)"
        using a bs by (simp add: GET_BLOCK_STATE_ENTRY_def aget_def blocks_ok_def)
      have cnt: "valid_page_nb (block_state_table (tables s1) ! nat ?a) = n"
        using copying_count [OF wf(1) cp(1) ej(5) a] cp(2) by simp
      have vo: "valid_of c ?t e = n"
        using copying_count [OF wf(1) ej(1,5) a] ej(6) cp(2) by (simp add: valid_of_def same_tables_def)
      have f: "0 \<le> ?f" "?f < FLASH_NB c" using fb by (simp_all add: in_chip_def)
      obtain d where d: "SSD_BLOCK_ERASE gt c ?f ?b (dev s1) = Some (SUCCESS, d)" "io_quiet c (dev s1) d"
        using gc_ops_quiet(3) [OF wf(1) f clk, of "dev s1" ?b] q by (auto simp: io_quiet_def elim!: returnsE)
      obtain u w where w: "UPDATE_BLOCK_STATE c ?f ?b EMPTY_BLOCK (tables s1) = Some u"
        "INSERT_EMPTY_BLOCK c ?f ?b u = Some w" "ftl_inv c w" "same_mapped c ?t w" "reclaimed c ?t w e"
        using erase_victim [OF wf(1) s(1) k t cp(1) _ sel] cp(3) vo by (auto simp: vc elim!: returnsE)
      let ?w = "w\<lparr>gc_count := gc_count w + 1\<rparr>"
      have "reclaimed c ?t ?w e" using w(5) by (simp add: reclaimed_def vacated_def ftl_inv_counters)
      moreover have "ftl_inv c ?w" using w(3) by (simp add: ftl_inv_counters)
      ultimately have "collected c s (SUCCESS, s1\<lparr>tables := ?w, dev := d\<rparr>)"
        using w(4) io_quiet_trans [OF q d(2)] by (auto simp: collected_def same_mapped_def)
      then show ?thesis
        using Some v(1) g(1) SUCCESS get cnt d(1) w(1,2) by (simp add: GARBAGE_COLLECTION_def Let_def)
    qed
  qed
qed

lemma gc_repeat_collects:
  assumes wf: "wf_config c" "PLANES_PER_FLASH c = 1" and clk: "clock_advances gt"
    and s: "ftl_inv c (tables s)" "io_inv c (dev s)"
  shows "returns (gc_repeat gt c n s) (\<lambda>s'. ftl_inv c (tables s') \<and>
    io_quiet c (dev s) (dev s') \<and> same_mapped c (tables s) (tables s'))"
  using s
proof (induction n arbitrary: s)
  case 0
  then show ?case by (simp add: io_quiet_refl)
next
  case (Suc n)
  obtain r t where t: "GARBAGE_COLLECTION gt c s = Some (r, t)" "ftl_inv c (tables t)"
    "io_quiet c (dev s) (dev t)" "same_mapped c (tables s) (tables t)"
    using GARBAGE_COLLECTION_collects [OF wf clk Suc.prems] by (auto simp: collected_def elim!: returnsE)
  have d: "io_inv c (dev t)" using t(3) by (simp add: io_quiet_def)
  obtain u where u: "gc_repeat gt c n t = Some u" "ftl_inv c (tables u)" "io_quiet c (dev t) (dev u)"
    "same_mapped c (tables t) (tables u)"
    using Suc.IH [OF t(2) d] by (auto elim!: returnsE)
  show ?case
    using t u io_quiet_trans [OF t(3) u(3)] same_mapped_trans [OF t(4) u(4)] by simp
qed

lemma GC_CHECK_collects:
  assumes wf: "wf_config c" "PLANES_PER_FLASH c = 1" and clk: "clock_advances gt"
    and s: "ftl_inv c (tables s)" "io_inv c (dev s)"
  shows "returns (GC_CHECK gt c s) (\<lambda>s'. ftl_inv c (tables s') \<and>
    io_quiet c (dev s) (dev s') \<and> same_mapped c (tables s) (tables s'))"
  using gc_repeat_collects [OF assms] s by (simp add: GC_CHECK_def io_quiet_refl)

end
