(* ===== verification/Ftl_Tables.thy ===== *)
theory Ftl_Tables
  imports Mapping_Manager
begin

text \<open>
  The life of the FTL's tables: the \<^verbatim>\<open>INIT_\<close> and \<^verbatim>\<open>TERM_\<close> functions of
  \<^verbatim>\<open>ftl_mapping_manager.c\<close> and \<^verbatim>\<open>ftl_inverse_mapping_manager.c\<close>, which read the tables
  from the files under \<^verbatim>\<open>./data\<close> or create empty ones, and write them back.

  A file is the sequence of C objects written to it. The pointers inside those objects mean
  nothing after reading and are not represented; the code overwrites them. Memory allocation
  and opening a file for writing are taken to succeed. A file too short for the table has no
  result here.
\<close>

section \<open>The files\<close>

record disk =
  mapping_dat :: "int list option"
  inverse_mapping_dat :: "int list option"
  block_state_dat :: "block_state_entry list option"
  valid_array_dat :: "string option"
  empty_block_dat :: "(int list \<times> empty_block_entry list) option"
  victim_block_dat :: "(int list \<times> block_entry list) option"

definition no_files :: disk where
  "no_files = \<lparr>mapping_dat = None, inverse_mapping_dat = None, block_state_dat = None,
     valid_array_dat = None, empty_block_dat = None, victim_block_dat = None\<rparr>"

definition fread_n :: "int \<Rightarrow> 'a list \<Rightarrow> ('a list \<times> 'a list) option" where
  "fread_n n xs = (if n \<le> int (length xs) then Some (take (nat n) xs, drop (nat n) xs) else None)"

section \<open>Creating or loading the tables\<close>

definition INIT_MAPPING_TABLE :: "ssd_config \<Rightarrow> disk \<Rightarrow> ftl_state \<Rightarrow> ftl_state option" where
  "INIT_MAPPING_TABLE c d s =
     (case mapping_dat d of
        Some xs \<Rightarrow> do {
          (t, rest) \<leftarrow> fread_n (PAGE_MAPPING_ENTRY_NB c) xs;
          Some (s\<lparr>mapping_table := t\<rparr>)
        }
      | None \<Rightarrow> Some (s\<lparr>mapping_table := replicate (nat (PAGE_MAPPING_ENTRY_NB c)) (-1)\<rparr>))"

definition INIT_INVERSE_MAPPING_TABLE :: "ssd_config \<Rightarrow> disk \<Rightarrow> ftl_state \<Rightarrow> ftl_state option" where
  "INIT_INVERSE_MAPPING_TABLE c d s =
     (case inverse_mapping_dat d of
        Some xs \<Rightarrow> do {
          (t, rest) \<leftarrow> fread_n (PAGE_MAPPING_ENTRY_NB c) xs;
          Some (s\<lparr>inverse_mapping_table := t\<rparr>)
        }
      | None \<Rightarrow> Some (s\<lparr>inverse_mapping_table := replicate (nat (PAGE_MAPPING_ENTRY_NB c)) (-1)\<rparr>))"

definition INIT_BLOCK_STATE_TABLE :: "ssd_config \<Rightarrow> disk \<Rightarrow> ftl_state \<Rightarrow> ftl_state option" where
  "INIT_BLOCK_STATE_TABLE c d s =
     (case block_state_dat d of
        Some xs \<Rightarrow> do {
          (t, rest) \<leftarrow> fread_n (BLOCK_MAPPING_ENTRY_NB c) xs;
          Some (s\<lparr>block_state_table := t\<rparr>)
        }
      | None \<Rightarrow> Some (s\<lparr>block_state_table := replicate (nat (BLOCK_MAPPING_ENTRY_NB c))
          \<lparr>valid_page_nb = 0, bs_type = EMPTY_BLOCK, erase_count = 0, valid_array = []\<rparr>\<rparr>))"

text \<open>The loop that reads one \<^verbatim>\<open>valid_array\<close> for every entry.\<close>

primrec read_arrays :: "int \<Rightarrow> block_state_entry list \<Rightarrow> string \<Rightarrow> block_state_entry list option" where
  "read_arrays n [] file = Some []"
| "read_arrays n (e # es) file = do {
     (arr, rest) \<leftarrow> fread_n n file;
     es' \<leftarrow> read_arrays n es rest;
     Some (e\<lparr>valid_array := arr\<rparr> # es')
   }"

definition INIT_VALID_ARRAY :: "ssd_config \<Rightarrow> disk \<Rightarrow> ftl_state \<Rightarrow> ftl_state option" where
  "INIT_VALID_ARRAY c d s =
     (case valid_array_dat d of
        Some file \<Rightarrow> do {
          t \<leftarrow> read_arrays (PAGE_NB c) (block_state_table s) file;
          Some (s\<lparr>block_state_table := t\<rparr>)
        }
      | None \<Rightarrow> Some (s\<lparr>block_state_table :=
          map (\<lambda>e. e\<lparr>valid_array := replicate (nat (PAGE_NB c)) (CHR 0x00)\<rparr>) (block_state_table s)\<rparr>))"

text \<open>\<^verbatim>\<open>for(k=i;k<BLOCK_NB;k+=PLANES_PER_FLASH)\<close>: the blocks of plane \<open>i\<close>.\<close>

definition plane_blocks :: "ssd_config \<Rightarrow> int \<Rightarrow> int list" where
  "plane_blocks c i = filter (\<lambda>k. (k - i) mod PLANES_PER_FLASH c = 0) [i..BLOCK_NB c - 1]"

definition init_empty_root :: "ssd_config \<Rightarrow> int \<times> int \<Rightarrow> ftl_state \<Rightarrow> ftl_state option" where
  "init_empty_root c = (\<lambda>(i, j) s. do {
     let ks = plane_blocks c i;
     s \<leftarrow> ofold (\<lambda>k. UPDATE_BLOCK_STATE c j k EMPTY_BLOCK) ks s;
     roots \<leftarrow> aset (empty_block_list s) (i * FLASH_NB c + j)
       \<lparr>empty_chain = map (\<lambda>k. \<lparr>phy_flash_nb = j, phy_block_nb = k, curr_phy_page_nb = 0\<rparr>) ks,
        empty_block_nb = u32 (EACH_EMPTY_TABLE_ENTRY_NB c)\<rparr>;
     Some (s\<lparr>empty_block_list := roots\<rparr>)
   })"

text \<open>The loops that read the entries of all chains, given the counters of the roots.\<close>

primrec read_chains :: "int list \<Rightarrow> 'e list \<Rightarrow> 'e list list option" where
  "read_chains [] file = Some []"
| "read_chains (k # ks) file = do {
     (es, rest) \<leftarrow> fread_n k file;
     chains \<leftarrow> read_chains ks rest;
     Some (es # chains)
   }"

definition INIT_EMPTY_BLOCK_LIST :: "ssd_config \<Rightarrow> disk \<Rightarrow> ftl_state \<Rightarrow> ftl_state option" where
  "INIT_EMPTY_BLOCK_LIST c d s =
     (case empty_block_dat d of
        Some (counts, entries) \<Rightarrow> do {
          (nbs, rest) \<leftarrow> fread_n (PLANES_PER_FLASH c * FLASH_NB c) counts;
          chains \<leftarrow> read_chains nbs entries;
          Some (s\<lparr>empty_block_list := map2 empty_block_root.make chains nbs,
                  total_empty_block_nb := sum_list nbs, empty_block_table_index := 0\<rparr>)
        }
      | None \<Rightarrow> do {
          let s = s\<lparr>empty_block_list := replicate (nat (PLANES_PER_FLASH c * FLASH_NB c))
                                          \<lparr>empty_chain = [], empty_block_nb = 0\<rparr>\<rparr>;
          s \<leftarrow> ofold (init_empty_root c)
                (List.product [0..PLANES_PER_FLASH c - 1] [0..FLASH_NB c - 1]) s;
          Some (s\<lparr>total_empty_block_nb := BLOCK_MAPPING_ENTRY_NB c, empty_block_table_index := 0\<rparr>)
        })"

definition INIT_VICTIM_BLOCK_LIST :: "ssd_config \<Rightarrow> disk \<Rightarrow> ftl_state \<Rightarrow> ftl_state option" where
  "INIT_VICTIM_BLOCK_LIST c d s =
     (case victim_block_dat d of
        Some (counts, entries) \<Rightarrow> do {
          (nbs, rest) \<leftarrow> fread_n (PLANES_PER_FLASH c * FLASH_NB c) counts;
          chains \<leftarrow> read_chains nbs entries;
          Some (s\<lparr>victim_block_list := map2 victim_block_root.make chains nbs,
                  total_victim_block_nb := sum_list nbs\<rparr>)
        }
      | None \<Rightarrow> Some (s\<lparr>victim_block_list := replicate (nat (PLANES_PER_FLASH c * FLASH_NB c))
                          \<lparr>victim_chain = [], victim_block_nb = 0\<rparr>,
                        total_victim_block_nb := 0\<rparr>))"

text \<open>The six calls of \<^verbatim>\<open>FTL_INIT\<close>.\<close>

definition init_tables :: "ssd_config \<Rightarrow> disk \<Rightarrow> ftl_state \<Rightarrow> ftl_state option" where
  "init_tables c d t = do {
     t \<leftarrow> INIT_MAPPING_TABLE c d t;
     t \<leftarrow> INIT_INVERSE_MAPPING_TABLE c d t;
     t \<leftarrow> INIT_BLOCK_STATE_TABLE c d t;
     t \<leftarrow> INIT_VALID_ARRAY c d t;
     t \<leftarrow> INIT_EMPTY_BLOCK_LIST c d t;
     INIT_VICTIM_BLOCK_LIST c d t
   }"

section \<open>Saving the tables\<close>

definition fwrite_n :: "int \<Rightarrow> 'a list \<Rightarrow> 'a list option" where
  "fwrite_n n xs = (if n \<le> int (length xs) then Some (take (nat n) xs) else None)"

definition TERM_MAPPING_TABLE :: "ssd_config \<Rightarrow> ftl_state \<Rightarrow> disk \<Rightarrow> disk option" where
  "TERM_MAPPING_TABLE c s d = do {
     xs \<leftarrow> fwrite_n (PAGE_MAPPING_ENTRY_NB c) (mapping_table s);
     Some (d\<lparr>mapping_dat := Some xs\<rparr>)
   }"

definition TERM_INVERSE_MAPPING_TABLE :: "ssd_config \<Rightarrow> ftl_state \<Rightarrow> disk \<Rightarrow> disk option" where
  "TERM_INVERSE_MAPPING_TABLE c s d = do {
     xs \<leftarrow> fwrite_n (PAGE_MAPPING_ENTRY_NB c) (inverse_mapping_table s);
     Some (d\<lparr>inverse_mapping_dat := Some xs\<rparr>)
   }"

text \<open>The pointer \<^verbatim>\<open>valid_array\<close> inside a saved entry is dead.\<close>

definition TERM_BLOCK_STATE_TABLE :: "ssd_config \<Rightarrow> ftl_state \<Rightarrow> disk \<Rightarrow> disk option" where
  "TERM_BLOCK_STATE_TABLE c s d = do {
     xs \<leftarrow> fwrite_n (BLOCK_MAPPING_ENTRY_NB c) (block_state_table s);
     Some (d\<lparr>block_state_dat := Some (map (\<lambda>e. e\<lparr>valid_array := []\<rparr>) xs)\<rparr>)
   }"

definition TERM_VALID_ARRAY :: "ssd_config \<Rightarrow> ftl_state \<Rightarrow> disk \<Rightarrow> disk option" where
  "TERM_VALID_ARRAY c s d = do {
     file \<leftarrow> ofold (\<lambda>i out. do {
               e \<leftarrow> aget (block_state_table s) i;
               arr \<leftarrow> fwrite_n (PAGE_NB c) (valid_array e);
               Some (out @ arr)
             }) [0..BLOCK_MAPPING_ENTRY_NB c - 1] [];
     Some (d\<lparr>valid_array_dat := Some file\<rparr>)
   }"

definition TERM_EMPTY_BLOCK_LIST :: "ssd_config \<Rightarrow> ftl_state \<Rightarrow> disk \<Rightarrow> disk option" where
  "TERM_EMPTY_BLOCK_LIST c s d = do {
     roots \<leftarrow> fwrite_n (PLANES_PER_FLASH c * FLASH_NB c) (empty_block_list s);
     entries \<leftarrow> ofold (\<lambda>r out. do {
                  es \<leftarrow> fwrite_n (empty_block_nb r) (empty_chain r);
                  Some (out @ es)
                }) roots [];
     Some (d\<lparr>empty_block_dat := Some (map empty_block_nb roots, entries)\<rparr>)
   }"

definition TERM_VICTIM_BLOCK_LIST :: "ssd_config \<Rightarrow> ftl_state \<Rightarrow> disk \<Rightarrow> disk option" where
  "TERM_VICTIM_BLOCK_LIST c s d = do {
     roots \<leftarrow> fwrite_n (PLANES_PER_FLASH c * FLASH_NB c) (victim_block_list s);
     entries \<leftarrow> ofold (\<lambda>r out. do {
                  es \<leftarrow> fwrite_n (victim_block_nb r) (victim_chain r);
                  Some (out @ es)
                }) roots [];
     Some (d\<lparr>victim_block_dat := Some (map victim_block_nb roots, entries)\<rparr>)
   }"

text \<open>The six calls of \<^verbatim>\<open>FTL_TERM\<close>, in its order.\<close>

definition term_tables :: "ssd_config \<Rightarrow> ftl_state \<Rightarrow> disk \<Rightarrow> disk option" where
  "term_tables c t d = do {
     d \<leftarrow> TERM_MAPPING_TABLE c t d;
     d \<leftarrow> TERM_INVERSE_MAPPING_TABLE c t d;
     d \<leftarrow> TERM_VALID_ARRAY c t d;
     d \<leftarrow> TERM_BLOCK_STATE_TABLE c t d;
     d \<leftarrow> TERM_EMPTY_BLOCK_LIST c t d;
     TERM_VICTIM_BLOCK_LIST c t d
   }"

section \<open>Saving and loading\<close>

lemma ofold_append:
  assumes "\<And>x. x \<in> set xs \<Longrightarrow> f x = Some (g x)"
  shows "ofold (\<lambda>x out. Option.bind (f x) (\<lambda>ys. Some (out @ ys))) xs acc = Some (acc @ concat (map g xs))"
  using assms by (induction xs arbitrary: acc) simp_all

lemma fread_append: "fread_n (int (length xs)) (xs @ ys) = Some (xs, ys)"
  by (simp add: fread_n_def)

lemma fwrite_all: "n = int (length xs) \<Longrightarrow> fwrite_n n xs = Some xs"
  by (simp add: fwrite_n_def)

lemma fread_all: "n = int (length xs) \<Longrightarrow> fread_n n xs = Some (xs, [])"
  by (simp add: fread_n_def)

lemma read_chains_concat:
  "read_chains (map (\<lambda>xs. int (length xs)) xss) (concat xss) = Some xss"
  by (induction xss) (simp_all add: fread_append)

lemma read_arrays_concat:
  assumes "\<And>e. e \<in> set es \<Longrightarrow> int (length (valid_array e)) = n"
  shows "read_arrays n (map (\<lambda>e. e\<lparr>valid_array := []\<rparr>) es) (concat (map valid_array es)) = Some es"
  using assms
proof (induction es)
  case (Cons e es)
  have "fread_n n (valid_array e @ concat (map valid_array es)) = Some (valid_array e, concat (map valid_array es))"
    using fread_append [of "valid_array e"] Cons.prems by simp
  then show ?case using Cons by simp
qed simp

lemma upto_aget:
  assumes "n = int (length xs)"
  shows "ofold (\<lambda>i out. Option.bind (aget xs i) (\<lambda>x. h x out)) [0..n - 1] acc = ofold h xs acc"
  using assms
proof (induction xs arbitrary: n acc rule: rev_induct)
  case (snoc x xs)
  have "[0..n - 1] = [0..int (length xs) - 1] @ [int (length xs)]"
    using snoc.prems by (simp add: upto_rec2)
  moreover have "ofold (\<lambda>i out. Option.bind (aget (xs @ [x]) i) (\<lambda>x. h x out)) [0..int (length xs) - 1] acc =
      ofold (\<lambda>i out. Option.bind (aget xs i) (\<lambda>x. h x out)) [0..int (length xs) - 1] acc"
    by (rule ofold_eq) (auto simp: aget_def nth_append)
  ultimately show ?case using snoc.IH [OF refl] by (cases "ofold h xs acc") (simp_all add: ofold_app aget_def)
qed simp

lemma term_tables_saves:
  assumes wf: "wf_config c" and t: "ftl_inv c t"
  shows "term_tables c t d = Some \<lparr>mapping_dat = Some (mapping_table t),
    inverse_mapping_dat = Some (inverse_mapping_table t),
    block_state_dat = Some (map (\<lambda>e. e\<lparr>valid_array := []\<rparr>) (block_state_table t)),
    valid_array_dat = Some (concat (map valid_array (block_state_table t))),
    empty_block_dat = Some (map empty_block_nb (empty_block_list t), concat (map empty_chain (empty_block_list t))),
    victim_block_dat = Some (map victim_block_nb (victim_block_list t), concat (map victim_chain (victim_block_list t)))\<rparr>"
proof -
  have pg: "PAGE_MAPPING_ENTRY_NB c = PAGE_NB c * BLOCK_NB c * FLASH_NB c"
    "BLOCK_MAPPING_ENTRY_NB c = BLOCK_NB c * FLASH_NB c" "0 < PAGE_NB c" "0 < BLOCK_NB c" "0 < FLASH_NB c"
    "0 < PLANES_PER_FLASH c"
    using wf by (simp_all add: wf_config_def)
  have l: "lists_ok c t" and b: "blocks_ok c t" and m: "map_ok c UNIV (listed_pages c t) t"
    using t by (simp_all add: ftl_inv_def pages_ok_def)
  have lens: "PAGE_MAPPING_ENTRY_NB c = int (length (mapping_table t))"
    "PAGE_MAPPING_ENTRY_NB c = int (length (inverse_mapping_table t))"
    "BLOCK_MAPPING_ENTRY_NB c = int (length (block_state_table t))"
    "PLANES_PER_FLASH c * FLASH_NB c = int (length (empty_block_list t))"
    "PLANES_PER_FLASH c * FLASH_NB c = int (length (victim_block_list t))"
    using m b l pg by (simp_all add: map_ok_def blocks_ok_def lists_ok_def mult.commute)
  have e: "fwrite_n (empty_block_nb r) (empty_chain r) = Some (empty_chain r)" if "r \<in> set (empty_block_list t)" for r
    using that lists_okD(4) [OF l] l by (intro fwrite_all) (auto simp: in_set_conv_nth lists_ok_def)
  have v: "fwrite_n (victim_block_nb r) (victim_chain r) = Some (victim_chain r)" if "r \<in> set (victim_block_list t)" for r
    using that lists_okD(5) [OF l] l by (intro fwrite_all) (auto simp: in_set_conv_nth lists_ok_def)
  have a: "fwrite_n (PAGE_NB c) (valid_array r) = Some (valid_array r)" if "r \<in> set (block_state_table t)" for r
    using that b pg by (intro fwrite_all) (simp add: blocks_ok_def)
  have "ofold (\<lambda>i out. Option.bind (aget (block_state_table t) i) (\<lambda>e. Option.bind (fwrite_n (PAGE_NB c) (valid_array e))
      (\<lambda>arr. Some (out @ arr)))) [0..BLOCK_MAPPING_ENTRY_NB c - 1] [] = Some (concat (map valid_array (block_state_table t)))"
    unfolding upto_aget [OF lens(3)] using a by (subst ofold_append) simp_all
  then show ?thesis
    using ofold_append [OF e, of "empty_block_list t"] ofold_append [OF v, of "victim_block_list t"]
    by (simp add: term_tables_def TERM_MAPPING_TABLE_def TERM_INVERSE_MAPPING_TABLE_def
        TERM_BLOCK_STATE_TABLE_def TERM_VALID_ARRAY_def TERM_EMPTY_BLOCK_LIST_def
        TERM_VICTIM_BLOCK_LIST_def fwrite_all [OF lens(1)] fwrite_all [OF lens(2)] fwrite_all [OF lens(3)]
        fwrite_all [OF lens(4)] fwrite_all [OF lens(5)])
qed

text \<open>Loading what was saved gives the tables back; the rotating index starts again at 0.\<close>

lemma saved_tables_load:
  assumes wf: "wf_config c" and t: "ftl_inv c t" and d: "term_tables c t d0 = Some d"
  shows "init_tables c d t0 = Some (t\<lparr>empty_block_table_index := 0, gc_count := gc_count t0, fail_cnt := fail_cnt t0\<rparr>)"
proof -
  have pg: "PAGE_MAPPING_ENTRY_NB c = PAGE_NB c * BLOCK_NB c * FLASH_NB c"
    "BLOCK_MAPPING_ENTRY_NB c = BLOCK_NB c * FLASH_NB c" "0 < PAGE_NB c" "0 < BLOCK_NB c" "0 < FLASH_NB c"
    "0 < PLANES_PER_FLASH c"
    using wf by (simp_all add: wf_config_def)
  have l: "lists_ok c t" and b: "blocks_ok c t" and m: "map_ok c UNIV (listed_pages c t) t"
    using t by (simp_all add: ftl_inv_def pages_ok_def)
  have lens: "PAGE_MAPPING_ENTRY_NB c = int (length (mapping_table t))"
    "PAGE_MAPPING_ENTRY_NB c = int (length (inverse_mapping_table t))"
    "BLOCK_MAPPING_ENTRY_NB c = int (length (map (\<lambda>e. e\<lparr>valid_array := []\<rparr>) (block_state_table t)))"
    "PLANES_PER_FLASH c * FLASH_NB c = int (length (map empty_block_nb (empty_block_list t)))"
    "PLANES_PER_FLASH c * FLASH_NB c = int (length (map victim_block_nb (victim_block_list t)))"
    using m b l pg by (simp_all add: map_ok_def blocks_ok_def lists_ok_def mult.commute)
  have e: "\<forall>r\<in>set (empty_block_list t). empty_block_nb r = int (length (empty_chain r))"
    using lists_okD(4) [OF l] l by (auto simp: in_set_conv_nth lists_ok_def)
  have v: "\<forall>r\<in>set (victim_block_list t). victim_block_nb r = int (length (victim_chain r))"
    using lists_okD(5) [OF l] l by (auto simp: in_set_conv_nth lists_ok_def)
  have ec: "read_chains (map empty_block_nb (empty_block_list t)) (concat (map empty_chain (empty_block_list t))) =
      Some (map empty_chain (empty_block_list t))"
    using read_chains_concat [of "map empty_chain (empty_block_list t)"] e
    by (simp add: comp_def cong: map_cong)
  have vc: "read_chains (map victim_block_nb (victim_block_list t)) (concat (map victim_chain (victim_block_list t))) =
      Some (map victim_chain (victim_block_list t))"
    using read_chains_concat [of "map victim_chain (victim_block_list t)"] v
    by (simp add: comp_def cong: map_cong)
  have ez: "map2 empty_block_root.make (map empty_chain rs) (map empty_block_nb rs) = rs" for rs
    by (induction rs) (simp_all add: empty_block_root.make_def)
  have vz: "map2 victim_block_root.make (map victim_chain rs) (map victim_block_nb rs) = rs" for rs
    by (induction rs) (simp_all add: victim_block_root.make_def)
  have te: "sum_list (map empty_block_nb (empty_block_list t)) = total_empty_block_nb t"
  proof -
    have "sum_list (map empty_block_nb (empty_block_list t)) =
        (\<Sum>k<length (empty_block_list t). empty_block_nb (empty_block_list t ! k))"
      by (simp add: sum_list_sum_nth atLeast0LessThan)
    then show ?thesis using l lists_okD(4) [OF l] by (simp add: lists_ok_def)
  qed
  have tv: "sum_list (map victim_block_nb (victim_block_list t)) = total_victim_block_nb t"
  proof -
    have "sum_list (map victim_block_nb (victim_block_list t)) =
        (\<Sum>k<length (victim_block_list t). victim_block_nb (victim_block_list t ! k))"
      by (simp add: sum_list_sum_nth atLeast0LessThan)
    then show ?thesis using l lists_okD(5) [OF l] by (simp add: lists_ok_def)
  qed
  have ra: "read_arrays (PAGE_NB c) (map (\<lambda>e. e\<lparr>valid_array := []\<rparr>) (block_state_table t))
      (concat (map valid_array (block_state_table t))) = Some (block_state_table t)"
    using b pg by (intro read_arrays_concat) (simp add: blocks_ok_def)
  have d': "d = \<lparr>mapping_dat = Some (mapping_table t),
    inverse_mapping_dat = Some (inverse_mapping_table t),
    block_state_dat = Some (map (\<lambda>e. e\<lparr>valid_array := []\<rparr>) (block_state_table t)),
    valid_array_dat = Some (concat (map valid_array (block_state_table t))),
    empty_block_dat = Some (map empty_block_nb (empty_block_list t), concat (map empty_chain (empty_block_list t))),
    victim_block_dat = Some (map victim_block_nb (victim_block_list t), concat (map victim_chain (victim_block_list t)))\<rparr>"
    using d term_tables_saves [OF wf t, of d0] by simp
  show ?thesis
    by (simp add: d' init_tables_def INIT_MAPPING_TABLE_def INIT_INVERSE_MAPPING_TABLE_def
        INIT_BLOCK_STATE_TABLE_def INIT_VALID_ARRAY_def INIT_EMPTY_BLOCK_LIST_def
        INIT_VICTIM_BLOCK_LIST_def fread_all [OF lens(1)] fread_all [OF lens(2)] fread_all [OF lens(3)]
        fread_all [OF lens(4)] fread_all [OF lens(5)] ra ec vc ez vz te tv)
qed

section \<open>A new device\<close>

lemma plane_blocks_iff:
  assumes "0 < PLANES_PER_FLASH c" "0 \<le> i" "i < PLANES_PER_FLASH c"
  shows "k \<in> set (plane_blocks c i) \<longleftrightarrow> 0 \<le> k \<and> k < BLOCK_NB c \<and> k mod PLANES_PER_FLASH c = i"
proof -
  have "(k - i) mod PLANES_PER_FLASH c = 0 \<longleftrightarrow> k mod PLANES_PER_FLASH c = i"
    using assms by (simp add: mod_eq_0_iff_dvd mod_eq_dvd_iff [symmetric])
  moreover have "i \<le> k" if "0 \<le> k" "k mod PLANES_PER_FLASH c = i"
    using that zmod_le_nonneg_dividend [of k "PLANES_PER_FLASH c"] by simp
  ultimately show ?thesis using assms by (auto simp: plane_blocks_def)
qed

lemma plane_blocks_length:
  assumes "0 < PLANES_PER_FLASH c" "PLANES_PER_FLASH c dvd BLOCK_NB c" "0 \<le> BLOCK_NB c"
    "0 \<le> i" "i < PLANES_PER_FLASH c"
  shows "distinct (plane_blocks c i)" "int (length (plane_blocks c i)) = BLOCK_NB c div PLANES_PER_FLASH c"
proof -
  let ?p = "PLANES_PER_FLASH c"
  show d: "distinct (plane_blocks c i)" by (simp add: plane_blocks_def)
  obtain n where n: "BLOCK_NB c = ?p * n" using assms(2) by (auto simp: dvd_def)
  have n0: "0 \<le> n" using assms(1,3) n by (simp add: zero_le_mult_iff)
  have "set (plane_blocks c i) = (\<lambda>m. i + m * ?p) ` {0..<n}"
  proof (intro set_eqI iffI)
    fix k
    assume "k \<in> set (plane_blocks c i)"
    then have k: "0 \<le> k" "k < ?p * n" "k mod ?p = i" using plane_blocks_iff [OF assms(1,4,5)] n by auto
    then have "k = i + (k div ?p) * ?p" using div_mult_mod_eq [of k ?p] by simp
    moreover have "k div ?p < n" using k(2) by (intro div_less_bound [OF assms(1)]) (simp add: mult.commute)
    ultimately show "k \<in> (\<lambda>m. i + m * ?p) ` {0..<n}"
      using k(1) assms(1) by (auto simp: pos_imp_zdiv_nonneg_iff)
  next
    fix k
    assume "k \<in> (\<lambda>m. i + m * ?p) ` {0..<n}"
    then obtain m where "k = i + m * ?p" "m \<in> {0..<n}" by (rule imageE)
    then have m: "k = i + m * ?p" "0 \<le> m" "m < n" by simp_all
    have "m * ?p \<le> (n - 1) * ?p" using m assms(1) by (intro mult_right_mono) auto
    then have "k < ?p * n" using m assms(5) by (simp add: algebra_simps)
    then show "k \<in> set (plane_blocks c i)"
      using m assms n by (simp add: plane_blocks_iff [OF assms(1,4,5)])
  qed
  moreover have "inj_on (\<lambda>m. i + m * ?p) {0..<n}" using assms(1) by (auto simp: inj_on_def)
  ultimately have "card (set (plane_blocks c i)) = nat n" by (simp add: card_image)
  then show "int (length (plane_blocks c i)) = BLOCK_NB c div ?p"
    using distinct_card [OF d] n n0 assms(1) by simp
qed

definition new_chain :: "ssd_config \<Rightarrow> int \<Rightarrow> int \<Rightarrow> empty_block_entry list" where
  "new_chain c i j = map (\<lambda>k. \<lparr>phy_flash_nb = j, phy_block_nb = k, curr_phy_page_nb = 0\<rparr>) (plane_blocks c i)"

text \<open>After the roots in \<open>ys\<close> have been built.\<close>

definition roots_done :: "ssd_config \<Rightarrow> ftl_state \<Rightarrow> (int \<times> int) list \<Rightarrow> ftl_state \<Rightarrow> bool" where
  "roots_done c s0 ys s \<longleftrightarrow> blocks_ok c s \<and> length (empty_block_list s) = reg_count c \<and>
     s = s0\<lparr>block_state_table := block_state_table s, empty_block_list := empty_block_list s\<rparr> \<and>
     (\<forall>(i, j)\<in>set ys. empty_block_list s ! nat (i * FLASH_NB c + j) = mk_empty (new_chain c i j) \<and>
        (\<forall>k\<in>set (plane_blocks c i). \<forall>q. q div PAGE_NB c = block_index c j k \<longrightarrow>
           page_state c s q = CHR ''0''))"

lemma erase_plane:
  assumes wf: "wf_config c" and s: "blocks_ok c s" and j: "0 \<le> j" "j < FLASH_NB c"
    and ks: "\<forall>k\<in>set ks. 0 \<le> k \<and> k < BLOCK_NB c"
  shows "returns (ofold (\<lambda>k. UPDATE_BLOCK_STATE c j k EMPTY_BLOCK) ks s)
    (marked c {q. q div PAGE_NB c \<in> block_index c j ` set ks} (CHR ''0'') s)"
proof (rule ofold_done [where I = "\<lambda>ks. marked c {q. q div PAGE_NB c \<in> block_index c j ` set ks} (CHR ''0'') s"])
  show "marked c {q. q div PAGE_NB c \<in> block_index c j ` set []} (CHR ''0'') s s"
    using marked_refl [OF s] by simp
next
  fix ys k t
  assume k: "set (ys @ [k]) \<subseteq> set ks"
    and t: "marked c {q. q div PAGE_NB c \<in> block_index c j ` set ys} (CHR ''0'') s t"
  have "in_chip c j k" using j k ks by (auto simp: in_chip_def)
  from UPDATE_BLOCK_STATE_erases [OF wf _ this, of t]
  obtain u where u: "UPDATE_BLOCK_STATE c j k EMPTY_BLOCK t = Some u"
    "marked c {q. q div PAGE_NB c = block_index c j k} (CHR ''0'') t u"
    using t by (auto simp: marked_def elim!: returnsE)
  have "{q. q div PAGE_NB c \<in> block_index c j ` set ys} \<union> {q. q div PAGE_NB c = block_index c j k} =
      {q. q div PAGE_NB c \<in> block_index c j ` set (ys @ [k])}" by auto
  then show "returns (UPDATE_BLOCK_STATE c j k EMPTY_BLOCK t)
      (marked c {q. q div PAGE_NB c \<in> block_index c j ` set (ys @ [k])} (CHR ''0'') s)"
    using u(1) marked_trans [OF t u(2)] by simp
qed

lemma root_number:
  assumes "0 \<le> j" "j < F" "0 \<le> j'" "j' < F" "i * F + j = i' * F + j'"
  shows "i = (i' :: int)" "j = j'"
proof -
  have "(i * F + j) div F = i" "(i' * F + j') div F = i'" "(i * F + j) mod F = j" "(i' * F + j') mod F = j'"
    using assms(1-4) by simp_all
  then show "i = i'" "j = j'" using assms(5) by metis+
qed

lemma init_empty_root_done:
  assumes wf: "wf_config c" and i: "0 \<le> i" "i < PLANES_PER_FLASH c" and j: "0 \<le> j" "j < FLASH_NB c"
    and s: "roots_done c s0 ys s" and ys: "set ys \<subseteq> {0..<PLANES_PER_FLASH c} \<times> {0..<FLASH_NB c}"
  shows "returns (init_empty_root c (i, j) s) (roots_done c s0 (ys @ [(i, j)]))"
proof -
  note g = wf_configD [OF wf]
  let ?r = "i * FLASH_NB c + j"
  have r: "0 \<le> ?r" "nat ?r < reg_count c"
  proof -
    show "0 \<le> ?r" using i j g by simp
    have "i * FLASH_NB c \<le> (PLANES_PER_FLASH c - 1) * FLASH_NB c" using i g by (intro mult_right_mono) auto
    then have "?r < FLASH_NB c * PLANES_PER_FLASH c" using j by (simp add: algebra_simps)
    then show "nat ?r < reg_count c" using \<open>0 \<le> ?r\<close> by (simp add: nat_less_iff nat_mono_iff)
  qed
  have ks: "\<forall>k\<in>set (plane_blocks c i). 0 \<le> k \<and> k < BLOCK_NB c"
    using plane_blocks_iff [OF g(6) i] by simp
  have b: "blocks_ok c s" using s by (simp add: roots_done_def)
  obtain t where t: "ofold (\<lambda>k. UPDATE_BLOCK_STATE c j k EMPTY_BLOCK) (plane_blocks c i) s = Some t"
    "marked c {q. q div PAGE_NB c \<in> block_index c j ` set (plane_blocks c i)} (CHR ''0'') s t"
    using erase_plane [OF wf b j ks] by (auto elim!: returnsE)
  note f = marked_fields [OF t(2)]
  have each: "u32 (EACH_EMPTY_TABLE_ENTRY_NB c) = int (length (plane_blocks c i))"
  proof -
    have e: "EACH_EMPTY_TABLE_ENTRY_NB c = int (length (plane_blocks c i))"
      using plane_blocks_length(2) [OF g(6,7) _ i] g wf by (simp add: wf_config_def)
    have "BLOCK_NB c div PLANES_PER_FLASH c \<le> BLOCK_NB c" using g by (intro div_le_self) auto
    moreover have "BLOCK_NB c \<le> PAGE_NB c * BLOCK_NB c * FLASH_NB c"
    proof -
      have "1 * BLOCK_NB c * 1 \<le> PAGE_NB c * BLOCK_NB c * FLASH_NB c"
        using g by (intro mult_mono) auto
      then show ?thesis by simp
    qed
    ultimately have "int (length (plane_blocks c i)) < 2147483648"
      using plane_blocks_length(2) [OF g(6,7) _ i] g wf_small(1) [OF wf] by linarith
    then show ?thesis unfolding e by (intro u32_id) linarith+
  qed
  let ?u = "t\<lparr>empty_block_list := (empty_block_list t)[nat ?r := mk_empty (new_chain c i j)]\<rparr>"
  have len: "length (empty_block_list t) = reg_count c" using s f(3) by (simp add: roots_done_def)
  have run: "init_empty_root c (i, j) s = Some ?u"
    using t(1) r len each
    by (simp add: init_empty_root_def aset_def nat_less_iff mk_empty_def new_chain_def Let_def)
  have ps: "page_state c ?u q = page_state c t q" for q by (simp add: page_state_def)
  have old: "page_state c t q = CHR ''0''" if "page_state c s q = CHR ''0''" "in_ssd c q" for q
    using that t(2) by (simp add: marked_def)
  have blk: "in_ssd c q" if "q div PAGE_NB c = block_index c j' k" "0 \<le> j'" "j' < FLASH_NB c" "0 \<le> k" "k < BLOCK_NB c"
    for q j' k
    using that block_index_range [of j' "FLASH_NB c" k "BLOCK_NB c" c] by (simp add: in_ssd_iff_block [OF wf])
  have "empty_block_list ?u ! nat (i' * FLASH_NB c + j') = mk_empty (new_chain c i' j') \<and>
      (\<forall>k\<in>set (plane_blocks c i'). \<forall>q. q div PAGE_NB c = block_index c j' k \<longrightarrow> page_state c ?u q = CHR ''0'')"
    if "(i', j') \<in> set (ys @ [(i, j)])" for i' j'
  proof (cases "(i', j') = (i, j)")
    case True
    have "page_state c t q = CHR ''0''" if "k \<in> set (plane_blocks c i)" "q div PAGE_NB c = block_index c j k" for k q
      using that t(2) blk [OF that(2) j] ks by (auto simp: marked_def)
    then show ?thesis using True r len ps by simp
  next
    case False
    then have y: "(i', j') \<in> set ys" using that by auto
    then have ij: "0 \<le> i'" "i' < PLANES_PER_FLASH c" "0 \<le> j'" "j' < FLASH_NB c" using ys by auto
    have "i' * FLASH_NB c + j' \<noteq> ?r" using root_number [OF ij(3,4) j] False by auto
    moreover have "0 \<le> i' * FLASH_NB c + j'" using ij g by simp
    ultimately have "nat (i' * FLASH_NB c + j') \<noteq> nat ?r" using r(1) by (simp add: eq_nat_nat_iff)
    moreover have "page_state c t q = CHR ''0''"
      if "k \<in> set (plane_blocks c i')" "q div PAGE_NB c = block_index c j' k" for k q
    proof (rule old)
      show "in_ssd c q" using blk [OF that(2) ij(3,4)] plane_blocks_iff [OF g(6) ij(1,2)] that(1) by simp
      show "page_state c s q = CHR ''0''" using s y that by (fastforce simp: roots_done_def)
    qed
    ultimately show ?thesis using s y f(3) ps by (fastforce simp: roots_done_def)
  qed
  moreover have "?u = s0\<lparr>block_state_table := block_state_table ?u, empty_block_list := empty_block_list ?u\<rparr>"
  proof -
    obtain x y z where "s = s0\<lparr>block_state_table := x, empty_block_list := y\<rparr>" "t = s\<lparr>block_state_table := z\<rparr>"
      using s t(2) unfolding roots_done_def marked_def by blast
    then show ?thesis by simp
  qed
  moreover have "blocks_ok c ?u" using t(2) by (simp add: marked_def blocks_ok_def)
  ultimately have "roots_done c s0 (ys @ [(i, j)]) ?u" using len unfolding roots_done_def by auto
  then show ?thesis using run by simp
qed


lemma new_chain_ok:
  assumes wf: "wf_config c" and k: "k < reg_count c"
    and ij: "i = int k div FLASH_NB c" "j = int k mod FLASH_NB c"
  shows "0 \<le> i" "i < PLANES_PER_FLASH c" "0 \<le> j" "j < FLASH_NB c" "nat (i * FLASH_NB c + j) = k"
    "chains_ok c (int k) (new_chain c i j) []"
proof -
  note g = wf_configD [OF wf]
  show i: "0 \<le> i" and j: "0 \<le> j" "j < FLASH_NB c"
    unfolding ij using g(4) by (simp_all add: pos_imp_zdiv_nonneg_iff)
  have "int k < PLANES_PER_FLASH c * FLASH_NB c" using k by (simp add: mult.commute zless_nat_eq_int_zless)
  then show i': "i < PLANES_PER_FLASH c" unfolding ij by (rule div_less_bound [OF g(4)])
  have kk: "i * FLASH_NB c + j = int k" unfolding ij by simp
  then show "nat (i * FLASH_NB c + j) = k" by simp
  note pb = plane_blocks_iff [OF g(6) i i']
  have B: "0 \<le> BLOCK_NB c" using g(3) by simp
  have d: "distinct (map (block_index c j) (plane_blocks c i))"
    using plane_blocks_length(1) [OF g(6,7) B i i'] by (auto simp: distinct_map block_index_def inj_on_def)
  have "entry_ok c (int k) e \<and> 0 \<le> curr_phy_page_nb e \<and> curr_phy_page_nb e \<le> PAGE_NB c"
    if e: "e \<in> set (new_chain c i j)" for e
  proof -
    obtain b where b: "b \<in> set (plane_blocks c i)" "e = \<lparr>phy_flash_nb = j, phy_block_nb = b, curr_phy_page_nb = 0\<rparr>"
      using e unfolding new_chain_def set_map by blast
    then show ?thesis using j pb [of b] kk g(2) by (simp add: entry_ok_def root_index_def)
  qed
  moreover have "map (addr c) (new_chain c i j) = map (block_index c j) (plane_blocks c i)"
    by (simp add: new_chain_def)
  moreover have "\<forall>e\<in>set (tl (new_chain c i j)). curr_phy_page_nb e = 0"
    by (auto simp: new_chain_def dest!: in_set_tl)
  ultimately show "chains_ok c (int k) (new_chain c i j) []" using d by (simp add: chains_ok_def)
qed

text \<open>Without saved tables every page of the device is free and nothing is mapped.\<close>

lemma roots_doneD:
  assumes "roots_done c s0 ys s" "(i, j) \<in> set ys"
  shows "empty_block_list s ! nat (i * FLASH_NB c + j) = mk_empty (new_chain c i j)"
    and "k \<in> set (plane_blocks c i) \<Longrightarrow> q div PAGE_NB c = block_index c j k \<Longrightarrow> page_state c s q = CHR ''0''"
  using assms unfolding roots_done_def by blast+

lemma roots_done_lists:
  assumes wf: "wf_config c" and s: "roots_done c s0 (List.product [0..PLANES_PER_FLASH c - 1] [0..FLASH_NB c - 1]) s"
    and k: "k < reg_count c"
  shows "empty_block_list s ! k = mk_empty (new_chain c (int k div FLASH_NB c) (int k mod FLASH_NB c))"
proof -
  note n = new_chain_ok [OF wf k refl refl]
  have "(int k div FLASH_NB c, int k mod FLASH_NB c) \<in> set (List.product [0..PLANES_PER_FLASH c - 1] [0..FLASH_NB c - 1])"
    using n(1-4) by simp
  then have "empty_block_list s ! nat (int k div FLASH_NB c * FLASH_NB c + int k mod FLASH_NB c) =
      mk_empty (new_chain c (int k div FLASH_NB c) (int k mod FLASH_NB c))"
    using roots_doneD [OF s] by blast
  then show ?thesis unfolding n(5) .
qed

lemma roots_done_pages:
  assumes wf: "wf_config c" and s: "roots_done c s0 (List.product [0..PLANES_PER_FLASH c - 1] [0..FLASH_NB c - 1]) s"
    and q: "in_ssd c q"
  shows "page_state c s q = CHR ''0''"
proof -
  note g = wf_configD [OF wf] and b = in_ssd_block [OF wf q]
  let ?a = "q div PAGE_NB c"
  let ?f = "?a div BLOCK_NB c" and ?b = "?a mod BLOCK_NB c"
  have f: "0 \<le> ?f" "?f < FLASH_NB c"
    using b g by (simp_all add: pos_imp_zdiv_nonneg_iff div_less_bound mult.commute [of "FLASH_NB c"] del: zdiv_zmult2_eq)
  have i: "0 \<le> ?b mod PLANES_PER_FLASH c" "?b mod PLANES_PER_FLASH c < PLANES_PER_FLASH c" using g by simp_all
  have bb: "?b \<in> set (plane_blocks c (?b mod PLANES_PER_FLASH c))"
    using g by (simp add: plane_blocks_iff [OF g(6) i])
  have "?a = block_index c ?f ?b" by (simp add: block_index_def)
  moreover have "(?b mod PLANES_PER_FLASH c, ?f) \<in> set (List.product [0..PLANES_PER_FLASH c - 1] [0..FLASH_NB c - 1])"
    using f i by simp
  ultimately show ?thesis using roots_doneD [OF s] bb by blast
qed

definition new_device :: "ssd_config \<Rightarrow> ftl_state \<Rightarrow> bool" where
  "new_device c t \<longleftrightarrow> blocks_ok c t \<and> (\<forall>q. in_ssd c q \<longrightarrow> page_state c t q = CHR ''0'') \<and>
    mapping_table t = replicate (nat (PAGE_NB c * BLOCK_NB c * FLASH_NB c)) (-1) \<and>
    inverse_mapping_table t = replicate (nat (PAGE_NB c * BLOCK_NB c * FLASH_NB c)) (-1) \<and>
    length (empty_block_list t) = reg_count c \<and> length (victim_block_list t) = reg_count c \<and>
    (\<forall>k<reg_count c. empty_block_list t ! k = mk_empty (new_chain c (int k div FLASH_NB c) (int k mod FLASH_NB c)) \<and>
      victim_block_list t ! k = mk_victim []) \<and>
    total_empty_block_nb t = BLOCK_NB c * FLASH_NB c \<and> total_victim_block_nb t = 0 \<and> empty_block_table_index t = 0"

lemma new_device_total:
  assumes wf: "wf_config c" and t: "new_device c t"
  shows "(\<Sum>k<reg_count c. int (length (echain t k))) = BLOCK_NB c * FLASH_NB c"
proof -
  note g = wf_configD [OF wf]
  have "int (length (echain t k)) = BLOCK_NB c div PLANES_PER_FLASH c" if k: "k < reg_count c" for k
  proof -
    have "echain t k = new_chain c (int k div FLASH_NB c) (int k mod FLASH_NB c)"
      using t k by (simp add: new_device_def)
    then show ?thesis
      using plane_blocks_length(2) [OF g(6,7) _ new_chain_ok(1,2) [OF wf k refl refl]] g by (simp add: new_chain_def)
  qed
  then have "(\<Sum>k<reg_count c. int (length (echain t k))) = (\<Sum>k<reg_count c. BLOCK_NB c div PLANES_PER_FLASH c)"
    by (intro sum.cong) simp_all
  also have "\<dots> = (FLASH_NB c * PLANES_PER_FLASH c) * (BLOCK_NB c div PLANES_PER_FLASH c)" using g by simp
  also have "\<dots> = BLOCK_NB c * FLASH_NB c" using g(7) by (simp add: mult.assoc mult.commute)
  finally show ?thesis .
qed

lemma new_device_lists:
  assumes wf: "wf_config c" and t: "new_device c t"
  shows "lists_ok c t"
  unfolding lists_ok_def
proof (intro conjI allI impI)
  fix k
  assume k: "k < reg_count c"
  have e: "empty_block_list t ! k = mk_empty (new_chain c (int k div FLASH_NB c) (int k mod FLASH_NB c))"
    and v: "victim_block_list t ! k = mk_victim []"
    using t k by (simp_all add: new_device_def)
  show "empty_block_list t ! k = mk_empty (echain t k)" using e by simp
  show "victim_block_list t ! k = mk_victim (vchain t k)" using v by simp
  show "chains_ok c (int k) (echain t k) (vchain t k)" using new_chain_ok(6) [OF wf k refl refl] e v by simp
next
  show "total_empty_block_nb t = (\<Sum>k<reg_count c. int (length (echain t k)))"
    using new_device_total [OF wf t] t by (simp add: new_device_def)
  show "total_victim_block_nb t = (\<Sum>k<reg_count c. int (length (vchain t k)))"
    using t by (simp add: new_device_def)
  show "empty_block_table_index t < int (reg_count c)"
    using wf_configD(10) [OF wf] t by (simp add: new_device_def)
qed (use t in \<open>simp_all add: new_device_def\<close>)

lemma new_device_free:
  assumes wf: "wf_config c" and t: "new_device c t"
  shows "q \<in> free_pages c t \<longleftrightarrow> in_ssd c q"
proof
  show "q \<in> free_pages c t \<Longrightarrow> in_ssd c q"
    using free_pages_in_ssd [OF wf new_device_lists [OF wf t]] by blast
next
  assume q: "in_ssd c q"
  note g = wf_configD [OF wf] and b = in_ssd_block [OF wf q]
  let ?a = "q div PAGE_NB c"
  let ?f = "?a div BLOCK_NB c" and ?b = "?a mod BLOCK_NB c"
  have f: "0 \<le> ?f" "?f < FLASH_NB c"
    using b g by (simp_all add: pos_imp_zdiv_nonneg_iff div_less_bound mult.commute [of "FLASH_NB c"] del: zdiv_zmult2_eq)
  define k where "k = nat (root_index c ?f ?b)"
  have k: "k < reg_count c" "int k = (?b mod PLANES_PER_FLASH c) * FLASH_NB c + ?f"
    using root_index_range [OF wf f, of ?b] mult_pos_pos [OF g(4,6)] by (simp_all add: k_def root_index_def nat_less_iff)
  have d: "int k div FLASH_NB c = ?b mod PLANES_PER_FLASH c" "int k mod FLASH_NB c = ?f"
    unfolding k(2) using f by simp_all
  have i: "0 \<le> ?b mod PLANES_PER_FLASH c" "?b mod PLANES_PER_FLASH c < PLANES_PER_FLASH c" using g by simp_all
  have bb: "?b \<in> set (plane_blocks c (?b mod PLANES_PER_FLASH c))"
    using g by (simp add: plane_blocks_iff [OF g(6) i])
  have "echain t k = new_chain c (int k div FLASH_NB c) (int k mod FLASH_NB c)"
    using t k(1) by (simp add: new_device_def)
  then have "\<lparr>phy_flash_nb = ?f, phy_block_nb = ?b, curr_phy_page_nb = 0\<rparr> \<in> set (echain t k)"
    using bb unfolding d new_chain_def by simp
  moreover have "q \<in> entry_free c \<lparr>phy_flash_nb = ?f, phy_block_nb = ?b, curr_phy_page_nb = 0\<rparr>"
    using b by (simp add: entry_free_def block_index_def)
  ultimately show "q \<in> free_pages c t" using k(1) unfolding free_pages_def by blast
qed

lemma new_device_inv:
  assumes wf: "wf_config c" and t: "new_device c t"
  shows "ftl_inv c t" and "\<And>lpn. in_ssd c lpn \<Longrightarrow> ppn_of t lpn = -1"
proof -
  have ps: "\<And>q. in_ssd c q \<Longrightarrow> page_state c t q = CHR ''0''" and bo: "blocks_ok c t"
    and tabs: "mapping_table t = replicate (nat (PAGE_NB c * BLOCK_NB c * FLASH_NB c)) (-1)"
      "inverse_mapping_table t = replicate (nat (PAGE_NB c * BLOCK_NB c * FLASH_NB c)) (-1)"
    using t by (simp_all add: new_device_def)
  show "ppn_of t lpn = -1" if "in_ssd c lpn" for lpn
    using that unfolding tabs by (simp add: in_ssd_def nat_less_iff)
  have "map_ok c UNIV L t" for L
    using ps unfolding map_ok_def tabs by (auto simp: in_ssd_def nat_less_iff)
  then show "ftl_inv c t"
    unfolding ftl_inv_def pages_ok_def using new_device_lists [OF wf t] new_device_free [OF wf t] bo ps by blast
qed

lemma init_tables_fresh:
  assumes wf: "wf_config c"
  shows "returns (init_tables c no_files t0) (new_device c)"
proof -
  have pg: "PAGE_MAPPING_ENTRY_NB c = PAGE_NB c * BLOCK_NB c * FLASH_NB c"
    "BLOCK_MAPPING_ENTRY_NB c = BLOCK_NB c * FLASH_NB c"
    using wf by (simp_all add: wf_config_def)
  have R: "nat (PLANES_PER_FLASH c * FLASH_NB c) = reg_count c" by (simp only: mult.commute)
  let ?N = "nat (PAGE_NB c * BLOCK_NB c * FLASH_NB c)" and ?B = "nat (BLOCK_NB c * FLASH_NB c)"
  let ?e = "\<lparr>valid_page_nb = 0, bs_type = EMPTY_BLOCK, erase_count = 0, valid_array = replicate (nat (PAGE_NB c)) (CHR 0x00)\<rparr>"
  let ?s1 = "t0\<lparr>mapping_table := replicate ?N (-1), inverse_mapping_table := replicate ?N (-1),
    block_state_table := replicate ?B ?e,
    empty_block_list := replicate (reg_count c) \<lparr>empty_chain = [], empty_block_nb = 0\<rparr>\<rparr>"
  let ?P = "List.product [0..PLANES_PER_FLASH c - 1] [0..FLASH_NB c - 1]"
  have "returns (ofold (init_empty_root c) ?P ?s1) (roots_done c ?s1 ?P)"
  proof (rule ofold_done [where I = "roots_done c ?s1"])
    show "roots_done c ?s1 [] ?s1" by (simp add: roots_done_def blocks_ok_def)
  next
    fix ys x s
    assume x: "set (ys @ [x]) \<subseteq> set ?P" and s: "roots_done c ?s1 ys s"
    obtain i j where ij: "x = (i, j)" by (cases x)
    show "returns (init_empty_root c x s) (roots_done c ?s1 (ys @ [x]))"
      unfolding ij by (rule init_empty_root_done [OF wf _ _ _ _ s]) (use x ij in auto)
  qed
  then obtain s2 where s2: "ofold (init_empty_root c) ?P ?s1 = Some s2" "roots_done c ?s1 ?P s2"
    unfolding returns_def by blast
  let ?t = "s2\<lparr>total_empty_block_nb := BLOCK_NB c * FLASH_NB c, empty_block_table_index := 0,
    victim_block_list := replicate (reg_count c) \<lparr>victim_chain = [], victim_block_nb = 0\<rparr>,
    total_victim_block_nb := 0\<rparr>"
  have run: "init_tables c no_files t0 = Some ?t"
    using s2(1) by (simp add: init_tables_def no_files_def INIT_MAPPING_TABLE_def INIT_INVERSE_MAPPING_TABLE_def
        INIT_BLOCK_STATE_TABLE_def INIT_VALID_ARRAY_def INIT_EMPTY_BLOCK_LIST_def INIT_VICTIM_BLOCK_LIST_def
        pg R Let_def map_replicate_const)
  obtain x y where xy: "s2 = ?s1\<lparr>block_state_table := x, empty_block_list := y\<rparr>"
    using s2(2) unfolding roots_done_def by blast
  then have tabs: "mapping_table s2 = replicate ?N (-1)" "inverse_mapping_table s2 = replicate ?N (-1)"
    by simp_all
  have "blocks_ok c s2" "length (empty_block_list s2) = reg_count c" using s2(2) by (simp_all add: roots_done_def)
  then have "new_device c ?t"
    using tabs roots_done_lists [OF wf s2(2)] roots_done_pages [OF wf s2(2)]
    by (simp add: new_device_def blocks_ok_def page_state_def mk_victim_def)
  then show ?thesis using run by simp
qed

end
