(* ===== verification/Ftl.thy ===== *)
theory Ftl
  imports Gc_Manager Ftl_Tables
begin

text \<open>
  \<^verbatim>\<open>FTL/PAGE_MAP/ftl.c\<close> and \<^verbatim>\<open>FIRMWARE/ssd.c\<close> without \<^verbatim>\<open>FIRM_IO_BUFFER\<close>: reading and
  writing a range of sectors. The leading underscore of \<^verbatim>\<open>_FTL_READ\<close> and
  \<^verbatim>\<open>_FTL_WRITE\<close> is no Isabelle name: they are \<open>FTL_READ_impl\<close> and \<open>FTL_WRITE_impl\<close>.
\<close>

section \<open>Initialisation and termination\<close>

text \<open>
  \<^verbatim>\<open>FTL_INIT\<close> runs once per process. It reads the text \<open>conf\<close> of the configuration file
  (\<open>None\<close>: it cannot be opened) and the saved tables \<open>d\<close>, and sets the configuration
  globals, which are the first half of the state here.
\<close>

definition FTL_INIT :: "string option \<Rightarrow> disk \<Rightarrow> ssd_config \<times> ssd \<Rightarrow> (ssd_config \<times> ssd) option" where
  "FTL_INIT conf d = (\<lambda>(c, s).
     if g_init s = 0 then do {
       c \<leftarrow> INIT_SSD_CONFIG False conf c;
       t \<leftarrow> init_tables c d (tables s);
       Some (c, s\<lparr>tables := t, dev := SSD_IO_INIT c (INIT_PERF_CHECKER (dev s)), g_init := 1\<rparr>)
     }
     else Some (c, s))"

text \<open>\<^verbatim>\<open>TERM_PERF_CHECKER\<close> prints the statistics and changes no state.\<close>

definition FTL_TERM :: "ssd_config \<Rightarrow> ssd \<Rightarrow> disk \<Rightarrow> disk option" where
  "FTL_TERM c s d = term_tables c (tables s) d"

section \<open>Reading\<close>

text \<open>\<^verbatim>\<open>sector_nb + length > SECTOR_NB\<close>: an unsigned sum against an \<^verbatim>\<open>int64_t\<close>.\<close>

definition exceeds_sectors :: "ssd_config \<Rightarrow> int \<Rightarrow> int \<Rightarrow> bool" where
  "exceeds_sectors c sector_nb len \<longleftrightarrow> u32 (sector_nb + len) > SECTOR_NB c"

text \<open>The first loop of \<^verbatim>\<open>_FTL_READ\<close>: is every page of the range mapped?\<close>

partial_function (option) read_check ::
  "ssd_config \<Rightarrow> int \<Rightarrow> int \<Rightarrow> int \<Rightarrow> ftl_state \<Rightarrow> status option" where
  "read_check c lba remain left_skip t =
     (if remain > 0 then do {
        let sects = request_sects (SECTORS_PER_PAGE c) remain left_skip;
        ppn \<leftarrow> GET_MAPPING_INFO (lba sdiv SECTORS_PER_PAGE c) t;
        if ppn = -1 then Some FAIL
        else read_check c (i32 (lba + sects)) (u32 (remain - sects)) 0 t
      }
      else Some SUCCESS)"

partial_function (option) read_pages ::
  "clock \<Rightarrow> ssd_config \<Rightarrow> int \<Rightarrow> int \<Rightarrow> int \<Rightarrow> int \<Rightarrow> ftl_state \<Rightarrow> status \<Rightarrow> io_state
    \<Rightarrow> (status \<times> io_state) option" where
  "read_pages gt c lba remain left_skip n t ret d =
     (if remain > 0 then do {
        let sects = request_sects (SECTORS_PER_PAGE c) remain left_skip;
        ppn \<leftarrow> GET_MAPPING_INFO (lba sdiv SECTORS_PER_PAGE c) t;
        (ret', d') \<leftarrow> SSD_PAGE_READ gt c (CALC_FLASH c ppn) (CALC_BLOCK c ppn) n READ d;
        read_pages gt c (i32 (lba + sects)) (u32 (remain - sects)) 0 (n + 1) t ret' d'
      }
      else Some (ret, d))"

definition FTL_READ_impl :: "clock \<Rightarrow> ssd_config \<Rightarrow> int \<Rightarrow> int \<Rightarrow> ssd \<Rightarrow> (status \<times> ssd) option" where
  "FTL_READ_impl gt c sector_nb len s =
     (if exceeds_sectors c sector_nb len then Some (FAIL, s)
      else do {
        skip \<leftarrow> cmod sector_nb (SECTORS_PER_PAGE c);
        ok \<leftarrow> read_check c sector_nb len (u32 skip) (tables s);
        if ok = FAIL then Some (FAIL, s)
        else do {
          ((overhead, io_page_nb), d) \<leftarrow> ALLOC_IO_REQUEST gt c sector_nb len READ (dev s);
          (ret, d) \<leftarrow> read_pages gt c sector_nb len (u32 skip) 0 (tables s) FAIL
                       (d\<lparr>io_alloc_overhead := overhead\<rparr>);
          Some (ret, s\<lparr>dev := INCREASE_IO_REQUEST_SEQ_NB d\<rparr>)
        }
      })"

section \<open>Writing\<close>

definition write_page ::
  "clock \<Rightarrow> ssd_config \<Rightarrow> int \<Rightarrow> int \<Rightarrow> bool \<Rightarrow> int \<Rightarrow> ssd \<Rightarrow> (status \<times> ssd) option" where
  "write_page gt c lpn new_ppn partial n s = do {
     old_ppn \<leftarrow> GET_MAPPING_INFO lpn (tables s);
     (ret, d) \<leftarrow> (if partial \<and> old_ppn \<noteq> -1
        then SSD_PAGE_PARTIAL_WRITE gt c (CALC_FLASH c old_ppn) (CALC_BLOCK c old_ppn)
               (CALC_FLASH c new_ppn) (CALC_BLOCK c new_ppn) n WRITE (dev s)
        else SSD_PAGE_WRITE gt c (CALC_FLASH c new_ppn) (CALC_BLOCK c new_ppn) n WRITE (dev s));
     t \<leftarrow> UPDATE_OLD_PAGE_MAPPING c lpn (tables s);
     t \<leftarrow> UPDATE_NEW_PAGE_MAPPING c lpn new_ppn t;
     Some (ret, s\<lparr>tables := t, dev := d\<rparr>)
   }"

text \<open>
  The loop of \<^verbatim>\<open>_FTL_WRITE\<close>. The Boolean of the result says whether the loop was left by the
  early \<^verbatim>\<open>return FAIL\<close>.
\<close>

partial_function (option) write_pages ::
  "clock \<Rightarrow> ssd_config \<Rightarrow> int \<Rightarrow> int \<Rightarrow> int \<Rightarrow> int \<Rightarrow> status \<Rightarrow> ssd
    \<Rightarrow> ((bool \<times> status) \<times> ssd) option" where
  "write_pages gt c lba remain left_skip n ret s =
     (if remain > 0 then do {
        let right_skip = request_right_skip (SECTORS_PER_PAGE c) remain left_skip;
        let sects = request_sects (SECTORS_PER_PAGE c) remain left_skip;
        (page, t) \<leftarrow> GET_NEW_PAGE c VICTIM_OVERALL (EMPTY_TABLE_ENTRY_NB c) (tables s);
        case page of
          None \<Rightarrow> Some ((True, FAIL), s\<lparr>tables := t\<rparr>)
        | Some new_ppn \<Rightarrow> do {
            (ret', s') \<leftarrow> write_page gt c (lba sdiv SECTORS_PER_PAGE c) new_ppn
                          (left_skip \<noteq> 0 \<or> right_skip \<noteq> 0) n (s\<lparr>tables := t\<rparr>);
            write_pages gt c (i32 (lba + sects)) (u32 (remain - sects)) 0 (n + 1) ret' s'
          }
      }
      else Some ((False, ret), s))"

definition FTL_WRITE_impl :: "clock \<Rightarrow> ssd_config \<Rightarrow> int \<Rightarrow> int \<Rightarrow> ssd \<Rightarrow> (status \<times> ssd) option" where
  "FTL_WRITE_impl gt c sector_nb len s =
     (if exceeds_sectors c sector_nb len then Some (FAIL, s)
      else do {
        ((overhead, io_page_nb), d) \<leftarrow> ALLOC_IO_REQUEST gt c sector_nb len WRITE (dev s);
        skip \<leftarrow> cmod sector_nb (SECTORS_PER_PAGE c);
        ((early, ret), s) \<leftarrow> write_pages gt c sector_nb len (u32 skip) 0 FAIL
                                (s\<lparr>dev := d\<lparr>io_alloc_overhead := overhead\<rparr>\<rparr>);
        if early then Some (FAIL, s)
        else do {
          s \<leftarrow> GC_CHECK gt c (s\<lparr>dev := INCREASE_IO_REQUEST_SEQ_NB (dev s)\<rparr>);
          Some (ret, s)
        }
      })"

definition FTL_READ :: "clock \<Rightarrow> ssd_config \<Rightarrow> int \<Rightarrow> int \<Rightarrow> ssd \<Rightarrow> ssd option" where
  "FTL_READ gt c sector_nb len s = map_option snd (FTL_READ_impl gt c sector_nb len s)"

definition FTL_WRITE :: "clock \<Rightarrow> ssd_config \<Rightarrow> int \<Rightarrow> int \<Rightarrow> ssd \<Rightarrow> ssd option" where
  "FTL_WRITE gt c sector_nb len s = map_option snd (FTL_WRITE_impl gt c sector_nb len s)"

section \<open>The interface of the firmware\<close>

definition SSD_INIT :: "string option \<Rightarrow> disk \<Rightarrow> ssd_config \<times> ssd \<Rightarrow> (ssd_config \<times> ssd) option" where
  "SSD_INIT conf d cs = FTL_INIT conf d cs"

definition SSD_TERM :: "ssd_config \<Rightarrow> ssd \<Rightarrow> disk \<Rightarrow> disk option" where
  "SSD_TERM c s d = FTL_TERM c s d"

definition SSD_WRITE :: "clock \<Rightarrow> ssd_config \<Rightarrow> int \<Rightarrow> int \<Rightarrow> ssd \<Rightarrow> ssd option" where
  "SSD_WRITE gt c len sector_nb s = FTL_WRITE gt c sector_nb len s"

definition SSD_READ :: "clock \<Rightarrow> ssd_config \<Rightarrow> int \<Rightarrow> int \<Rightarrow> ssd \<Rightarrow> ssd option" where
  "SSD_READ gt c len sector_nb s = FTL_READ gt c sector_nb len s"

text \<open>The body of \<^verbatim>\<open>SSD_DSM_TRIM\<close> is commented out: a trim changes nothing, and none is announced.\<close>

definition SSD_DSM_TRIM :: "int \<Rightarrow> int list \<Rightarrow> ssd \<Rightarrow> ssd" where
  "SSD_DSM_TRIM len trim_data s = s"

definition SSD_IS_SUPPORT_TRIM :: int where
  "SSD_IS_SUPPORT_TRIM = 0"

section \<open>The logical pages of a request\<close>

definition request_pages :: "ssd_config \<Rightarrow> int \<Rightarrow> int \<Rightarrow> int set" where
  "request_pages c lba len = (\<lambda>sec. sec div SECTORS_PER_PAGE c) ` {lba..<lba + len}"

text \<open>Requests that the code serves: a nonempty range of existing sectors, not too many pages.\<close>

definition in_range :: "ssd_config \<Rightarrow> int \<Rightarrow> int \<Rightarrow> bool" where
  "in_range c sector_nb len \<longleftrightarrow> 0 \<le> sector_nb \<and> 0 < len \<and> sector_nb + len \<le> SECTOR_NB c \<and>
     page_span (SECTORS_PER_PAGE c) (sector_nb mod SECTORS_PER_PAGE c) len < 32768"

lemma div_image_interval:
  assumes "0 < (p :: int)" "x mod p + n \<le> p" "0 < n"
  shows "(\<lambda>k. k div p) ` {x..<x + n} = {x div p}"
proof -
  have same: "k div p = x div p" if "x \<le> k" "k < x + n" for k
  proof -
    have "x div p * p + (x mod p + (k - x)) = k" using div_mult_mod_eq [of x p] by linarith
    moreover have "(x div p * p + (x mod p + (k - x))) div p = x div p + (x mod p + (k - x)) div p"
      using assms(1) by (intro div_mult_self3) simp
    moreover have "(x mod p + (k - x)) div p = 0"
      using that assms pos_mod_sign [OF assms(1), of x] by (intro div_pos_pos_trivial) linarith+
    ultimately show ?thesis by simp
  qed
  have "(\<lambda>k. k div p) ` {x..<x + n} = (\<lambda>k. x div p) ` {x..<x + n}"
    by (intro image_cong refl same) (simp_all only: atLeastLessThan_iff)
  then show ?thesis using assms(3) by (simp add: image_constant_conv)
qed

lemma request_pages_step:
  assumes spp: "0 < SECTORS_PER_PAGE c" and len: "0 < len"
    and m: "m = min len (SECTORS_PER_PAGE c - lba mod SECTORS_PER_PAGE c)"
  shows "request_pages c lba len = insert (lba div SECTORS_PER_PAGE c) (request_pages c (lba + m) (len - m))"
    and "lba div SECTORS_PER_PAGE c \<notin> request_pages c (lba + m) (len - m)"
    and "0 < len - m \<Longrightarrow> (lba + m) mod SECTORS_PER_PAGE c = 0"
proof -
  let ?p = "SECTORS_PER_PAGE c"
  have m0: "0 < m" "m \<le> len" "lba mod ?p + m \<le> ?p"
    using m len pos_mod_bound [OF spp, of lba] by auto
  have "{lba..<lba + len} = {lba..<lba + m} \<union> {lba + m..<(lba + m) + (len - m)}" using m0 by auto
  then show "request_pages c lba len = insert (lba div ?p) (request_pages c (lba + m) (len - m))"
    unfolding request_pages_def using div_image_interval [OF spp m0(3,1)] by (simp add: image_Un)
  have e: "lba + m = (lba div ?p + 1) * ?p" if "m < len"
  proof -
    have "m = ?p - lba mod ?p" using that m by simp
    then have "lba + m = lba div ?p * ?p + ?p" using div_mult_mod_eq [of lba ?p] by linarith
    then show ?thesis by (simp only: distrib_right mult_1)
  qed
  show "(lba + m) mod ?p = 0" if "0 < len - m"
  proof -
    have "m < len" using that by simp
    then show ?thesis unfolding e [OF \<open>m < len\<close>] by simp
  qed
  show "lba div ?p \<notin> request_pages c (lba + m) (len - m)"
  proof
    assume "lba div ?p \<in> request_pages c (lba + m) (len - m)"
    then obtain k where k: "lba + m \<le> k" "k < lba + len" "k div ?p = lba div ?p"
      by (auto simp: request_pages_def)
    then have "(lba div ?p + 1) * ?p \<le> k" using e [symmetric] by simp
    then have "(lba div ?p + 1) * ?p div ?p \<le> k div ?p" using spp by (intro zdiv_mono1)
    then show False using k(3) spp by simp
  qed
qed

lemma finite_request_pages [simp]: "finite (request_pages c lba len)"
  by (simp add: request_pages_def)

lemma request_pages_empty: "len \<le> 0 \<Longrightarrow> request_pages c lba len = {}"
  by (simp add: request_pages_def)

lemma request_pages_in_ssd:
  assumes wf: "wf_config c" and r: "0 \<le> lba" "lba + len \<le> SECTOR_NB c" and l: "l \<in> request_pages c lba len"
  shows "in_ssd c l"
proof -
  obtain k where "k \<in> {lba..<lba + len}" and l': "l = k div SECTORS_PER_PAGE c"
    using l unfolding request_pages_def by blast
  then have k: "0 \<le> k" "k < SECTOR_NB c" using r by simp_all
  note spp = wf_configD(1) [OF wf]
  have "SECTOR_NB c = PAGE_NB c * BLOCK_NB c * FLASH_NB c * SECTORS_PER_PAGE c"
    using wf by (simp add: wf_config_def)
  then have "l < PAGE_NB c * BLOCK_NB c * FLASH_NB c"
    unfolding l' using k(2) by (intro div_less_bound [OF spp]) simp
  then show ?thesis using k(1) spp by (simp add: l' in_ssd_def pos_imp_zdiv_nonneg_iff)
qed

lemma card_request_pages:
  assumes spp: "0 < SECTORS_PER_PAGE c"
  shows "int (card (request_pages c lba len)) = page_span (SECTORS_PER_PAGE c) (lba mod SECTORS_PER_PAGE c) len"
proof (induction "nat len" arbitrary: lba len rule: less_induct)
  case less
  show ?case
  proof (cases "0 < len")
    case True
    let ?p = "SECTORS_PER_PAGE c"
    define m where "m = min len (?p - lba mod ?p)"
    have m0: "0 < m" using m_def True pos_mod_bound [OF spp, of lba] by auto
    note st = request_pages_step [OF spp True m_def]
    have "int (card (request_pages c lba len)) = 1 + int (card (request_pages c (lba + m) (len - m)))"
      unfolding st(1) using st(2) by (subst card_insert_disjoint) auto
    also have "int (card (request_pages c (lba + m) (len - m))) = page_span ?p ((lba + m) mod ?p) (len - m)"
      using True m0 by (intro less.hyps) auto
    also have "\<dots> = page_span ?p 0 (len - m)" using st(3) by (cases "0 < len - m") (auto simp: page_span_def)
    finally show ?thesis
      using page_span_step [of "lba mod ?p" ?p len] True spp by (simp add: m_def)
  qed (simp add: request_pages_def page_span_def)
qed

lemma wf_sectors:
  assumes "wf_config c"
  shows "SECTOR_NB c = SECTORS_PER_PAGE c * PAGES_IN_SSD c" "SECTOR_NB c < 2147483648"
    "SECTORS_PER_PAGE c \<le> SECTOR_NB c"
proof -
  show e: "SECTOR_NB c = SECTORS_PER_PAGE c * PAGES_IN_SSD c" and "SECTOR_NB c < 2147483648"
    using assms unfolding wf_config_def by blast+
  have "SECTORS_PER_PAGE c * 1 \<le> SECTORS_PER_PAGE c * PAGES_IN_SSD c"
    using wf_configD(1-4) [OF assms] wf_small(2) [OF assms] by (intro mult_left_mono) (auto simp: zero_less_mult_iff Suc_leI int_one_le_iff_zero_less)
  then show "SECTORS_PER_PAGE c \<le> SECTOR_NB c" using e by simp
qed

section \<open>Request numbers\<close>

text \<open>
  Between two requests (\<open>idle\<close>) every pending request and every register has a number below
  the current one. While a request of \<open>n\<close> pages is served (\<open>serving\<close>), the pending
  requests with the current number all have \<open>n\<close> pages.
\<close>

definition idle :: "ssd_config \<Rightarrow> io_state \<Rightarrow> bool" where
  "idle c d \<longleftrightarrow> io_inv c d \<and> (\<forall>q\<in>set (io_requests d). request_nb q < io_request_seq_nb d) \<and>
     (\<forall>r<reg_count c. fst (access_nb d ! r) = -1 \<or> fst (access_nb d ! r) < io_request_seq_nb d)"

definition serving :: "ssd_config \<Rightarrow> int \<Rightarrow> io_state \<Rightarrow> bool" where
  "serving c n d \<longleftrightarrow> io_inv c d \<and>
     (\<forall>q\<in>set (io_requests d). request_nb q \<le> io_request_seq_nb d \<and>
        (request_nb q = io_request_seq_nb d \<longrightarrow> sint (request_size q) = n)) \<and>
     (\<forall>r<reg_count c. fst (access_nb d ! r) = -1 \<or> fst (access_nb d ! r) \<le> io_request_seq_nb d)"

lemma serving_off: "serving c n d \<Longrightarrow> 0 \<le> k \<Longrightarrow> k < n \<Longrightarrow> off_ok (io_request_seq_nb d) k d"
  by (simp add: serving_def off_ok_def)

lemma serving_good:
  assumes "serving c n d" "io_good c k d d'"
  shows "serving c n d'" "io_request_seq_nb d' = io_request_seq_nb d" "io_inv c d'"
proof -
  have g: "io_inv c d'" "reqs_from d d'" and sq: "io_request_seq_nb d' = io_request_seq_nb d"
    and a: "\<And>r. r < reg_count c \<Longrightarrow> fst (access_nb d' ! r) = -1 \<or> access_nb d' ! r = access_nb d ! r \<or>
      access_nb d' ! r = (io_request_seq_nb d, k)"
    using assms(2) by (simp_all add: io_good_def)
  show "io_request_seq_nb d' = io_request_seq_nb d" "io_inv c d'" by (fact sq, fact g(1))
  have "request_nb q \<le> io_request_seq_nb d \<and> (request_nb q = io_request_seq_nb d \<longrightarrow> sint (request_size q) = n)"
    if "q \<in> set (io_requests d')" for q
    using g(2) that assms(1) unfolding reqs_from_def serving_def by metis
  moreover have "fst (access_nb d' ! r) = -1 \<or> fst (access_nb d' ! r) \<le> io_request_seq_nb d"
    if "r < reg_count c" for r
    using a [OF that] assms(1) that unfolding serving_def by (metis fst_conv order_refl)
  ultimately show "serving c n d'" using g(1) by (simp add: serving_def sq)
qed

lemma idle_quiet:
  assumes "idle c d" "io_quiet c d d'"
  shows "idle c d'" "io_request_seq_nb d' = io_request_seq_nb d"
proof -
  have g: "io_inv c d'" "reqs_from d d'" and sq: "io_request_seq_nb d' = io_request_seq_nb d"
    and a: "\<And>r. r < reg_count c \<Longrightarrow> fst (access_nb d' ! r) = -1 \<or> access_nb d' ! r = access_nb d ! r"
    using assms(2) by (simp_all add: io_quiet_def)
  show "io_request_seq_nb d' = io_request_seq_nb d" by (fact sq)
  have "request_nb q < io_request_seq_nb d" if "q \<in> set (io_requests d')" for q
    using g(2) that assms(1) unfolding reqs_from_def idle_def by metis
  moreover have "fst (access_nb d' ! r) = -1 \<or> fst (access_nb d' ! r) < io_request_seq_nb d"
    if "r < reg_count c" for r
    using a [OF that] assms(1) that unfolding idle_def by metis
  ultimately show "idle c d'" using g(1) by (simp add: idle_def sq)
qed

lemma serving_irrelevant [simp]: "serving c n (d\<lparr>io_alloc_overhead := x\<rparr>) = serving c n d"
  by (simp add: serving_def io_inv_def reqs_ok_def off_ok_def)

lemma ALLOC_serving:
  assumes wf: "wf_config c" and d: "idle c d" and r: "in_range c sector_nb len"
  shows "returns (ALLOC_IO_REQUEST gt c sector_nb len ty d) (\<lambda>((ov, n), d').
    n = page_span (SECTORS_PER_PAGE c) (sector_nb mod SECTORS_PER_PAGE c) len \<and> serving c n d' \<and>
    io_request_seq_nb d' = io_request_seq_nb d)"
proof -
  let ?n = "page_span (SECTORS_PER_PAGE c) (sector_nb mod SECTORS_PER_PAGE c) len"
  note g = wf_configD [OF wf]
  have b: "SECTORS_PER_PAGE c < 4294967296" "0 \<le> sector_nb" "0 < len" "len < 4294967296" "?n < 32768"
    using wf_sectors [OF wf] r by (simp_all add: in_range_def)
  have ok: "reqs_ok d" using d by (simp add: idle_def io_inv_def)
  obtain ov d' q where a: "ALLOC_IO_REQUEST gt c sector_nb len ty d = Some ((ov, ?n), d')" "reqs_ok d'"
    "io_request_seq_nb d' = io_request_seq_nb d" "perf_state.more d' = perf_state.more d"
    "io_requests d' = io_requests d @ [q]" "request_nb q = io_request_seq_nb d" "sint (request_size q) = ?n"
    using ALLOC_IO_REQUEST_returns [OF ok g(1) b, of gt ty] by (auto elim!: returnsE)
  note m = io_more [OF a(4)]
  have off: "fst (access_nb d ! k) = -1 \<or> off_ok (fst (access_nb d ! k)) (snd (access_nb d ! k)) d'"
    if k: "k < reg_count c" for k
  proof -
    have "fst (access_nb d ! k) = -1 \<or> off_ok (fst (access_nb d ! k)) (snd (access_nb d ! k)) d \<and>
      fst (access_nb d ! k) < io_request_seq_nb d"
      using d k by (auto simp: idle_def io_inv_def)
    then show ?thesis using a(6) by (auto simp: off_ok_def a(5))
  qed
  have "io_inv c d'" using d a(2) off by (simp add: idle_def io_inv_def m)
  moreover have "fst (access_nb d ! k) = -1 \<or> fst (access_nb d ! k) \<le> io_request_seq_nb d"
    if "k < reg_count c" for k using d that by (auto simp: idle_def)
  moreover have "request_nb x \<le> io_request_seq_nb d \<and> (request_nb x = io_request_seq_nb d \<longrightarrow> sint (request_size x) = ?n)"
    if "x \<in> set (io_requests d')" for x
    using that d a(6,7) unfolding a(5) idle_def by auto
  ultimately have "serving c ?n d'" by (simp add: serving_def a(3) m)
  then show ?thesis using a(1,3) by simp
qed

lemma INCREASE_idle:
  assumes "serving c n d" "io_request_seq_nb d \<noteq> -1"
  shows "idle c (INCREASE_IO_REQUEST_SEQ_NB d)"
    "io_request_seq_nb (INCREASE_IO_REQUEST_SEQ_NB d) = io_request_seq_nb d + 1"
proof -
  have lt: "w < io_request_seq_nb d + 1" if "w \<le> io_request_seq_nb d" for w
    using that assms(2) by (rule word_less_inc)
  have i: "INCREASE_IO_REQUEST_SEQ_NB d = d\<lparr>io_request_seq_nb := io_request_seq_nb d + 1\<rparr>"
    using assms(2) by (simp add: INCREASE_IO_REQUEST_SEQ_NB_def)
  show "io_request_seq_nb (INCREASE_IO_REQUEST_SEQ_NB d) = io_request_seq_nb d + 1" by (simp add: i)
  show "idle c (INCREASE_IO_REQUEST_SEQ_NB d)"
    unfolding idle_def
  proof (intro conjI ballI allI impI)
    show "io_inv c (INCREASE_IO_REQUEST_SEQ_NB d)"
      using assms(1) by (simp add: i serving_def io_inv_def reqs_ok_def off_ok_def)
  qed (use assms(1) lt in \<open>auto simp: i serving_def\<close>)
qed

section \<open>One step of the loops\<close>

text \<open>The place of a loop in its request: \<open>left_skip\<close> is the offset of \<open>lba\<close> in its page.\<close>

definition at_sector :: "ssd_config \<Rightarrow> int \<Rightarrow> int \<Rightarrow> int \<Rightarrow> bool" where
  "at_sector c lba remain left_skip \<longleftrightarrow> 0 \<le> lba \<and> 0 \<le> remain \<and> lba + remain \<le> SECTOR_NB c \<and>
     0 \<le> left_skip \<and> (0 < remain \<longrightarrow> left_skip = lba mod SECTORS_PER_PAGE c)"

lemma at_sector_step:
  assumes wf: "wf_config c" and a: "at_sector c lba remain left_skip" and r: "0 < remain"
  obtains m where "request_sects (SECTORS_PER_PAGE c) remain left_skip = m" "0 < m" "m \<le> remain"
    "lba sdiv SECTORS_PER_PAGE c = lba div SECTORS_PER_PAGE c" "in_ssd c (lba div SECTORS_PER_PAGE c)"
    "i32 (lba + m) = lba + m" "u32 (remain - m) = remain - m" "at_sector c (lba + m) (remain - m) 0"
    "request_pages c lba remain = insert (lba div SECTORS_PER_PAGE c) (request_pages c (lba + m) (remain - m))"
    "lba div SECTORS_PER_PAGE c \<notin> request_pages c (lba + m) (remain - m)"
    "page_span (SECTORS_PER_PAGE c) left_skip remain = 1 + page_span (SECTORS_PER_PAGE c) 0 (remain - m)"
proof -
  let ?p = "SECTORS_PER_PAGE c"
  define m where "m = min remain (?p - lba mod ?p)"
  note spp = wf_configD(1) [OF wf] and S = wf_sectors(2,3) [OF wf] and st = request_pages_step [OF spp r m_def]
  have b: "0 \<le> lba" "lba + remain \<le> SECTOR_NB c" "left_skip = lba mod ?p"
    using a r by (simp_all add: at_sector_def)
  have k: "0 \<le> left_skip" "left_skip < ?p" using b(3) spp by simp_all
  have m0: "0 < m" "m \<le> remain" using k r by (simp_all add: m_def b(3))
  show thesis
  proof (rule that [of m])
    show "request_sects ?p remain left_skip = m"
      unfolding m_def b(3) using k S b r by (intro request_sects_min) auto
    show "lba sdiv ?p = lba div ?p" using b(1) spp by (simp add: sdiv_nonneg)
    show "in_ssd c (lba div ?p)" using request_pages_in_ssd [OF wf b(1,2)] st(1) by simp
    show "i32 (lba + m) = lba + m" "u32 (remain - m) = remain - m"
      using b m0 S by (simp_all add: i32_id u32_id)
    show "at_sector c (lba + m) (remain - m) 0" using b m0 st(3) by (auto simp: at_sector_def)
    show "page_span ?p left_skip remain = 1 + page_span ?p 0 (remain - m)"
      unfolding m_def using page_span_step [OF k r] b(3) by simp
  qed (fact m0 st)+
qed

section \<open>Reading\<close>

lemma read_check_result:
  assumes wf: "wf_config c" and t: "length (mapping_table t) = nat (PAGE_NB c * BLOCK_NB c * FLASH_NB c)"
    and a: "at_sector c lba remain left_skip"
  shows "read_check c lba remain left_skip t =
    Some (if \<forall>l\<in>request_pages c lba remain. ppn_of t l \<noteq> -1 then SUCCESS else FAIL)"
  using a
proof (induction "nat remain" arbitrary: lba remain left_skip rule: less_induct)
  case less
  show ?case
  proof (cases "0 < remain")
    case False
    then show ?thesis by (simp add: read_check.simps [of c lba] request_pages_empty)
  next
    case True
    obtain m where m: "request_sects (SECTORS_PER_PAGE c) remain left_skip = m" "0 < m" "m \<le> remain"
      "lba sdiv SECTORS_PER_PAGE c = lba div SECTORS_PER_PAGE c" "in_ssd c (lba div SECTORS_PER_PAGE c)"
      "i32 (lba + m) = lba + m" "u32 (remain - m) = remain - m" "at_sector c (lba + m) (remain - m) 0"
      "request_pages c lba remain = insert (lba div SECTORS_PER_PAGE c) (request_pages c (lba + m) (remain - m))"
      by (rule at_sector_step [OF wf less.prems True])
    have g: "GET_MAPPING_INFO (lba div SECTORS_PER_PAGE c) t = Some (ppn_of t (lba div SECTORS_PER_PAGE c))"
      using m(5) t by (simp add: GET_MAPPING_INFO_def aget_def in_ssd_def)
    have ih: "read_check c (lba + m) (remain - m) 0 t =
        Some (if \<forall>l\<in>request_pages c (lba + m) (remain - m). ppn_of t l \<noteq> -1 then SUCCESS else FAIL)"
      using m(2,3) True by (intro less.hyps m(8)) auto
    show ?thesis
      unfolding read_check.simps [of c lba] m(1,4,6,7) g Let_def m(9) using True by (simp add: ih)
  qed
qed

lemma read_pages_good:
  assumes wf: "wf_config c" and clk: "clock_advances gt" and t: "ftl_inv c t"
    and mapped: "\<forall>l\<in>request_pages c lba remain. ppn_of t l \<noteq> -1"
    and a: "at_sector c lba remain left_skip" and d: "serving c N d"
    and n: "0 \<le> n" "n + page_span (SECTORS_PER_PAGE c) left_skip remain = N"
  shows "returns (read_pages gt c lba remain left_skip n t ret d) (\<lambda>(r, d').
    r = (if 0 < remain then SUCCESS else ret) \<and> serving c N d' \<and> io_request_seq_nb d' = io_request_seq_nb d)"
  using mapped a d n
proof (induction "nat remain" arbitrary: lba remain left_skip n ret d rule: less_induct)
  case less
  show ?case
  proof (cases "0 < remain")
    case False
    then show ?thesis using less.prems by (simp add: read_pages.simps [of gt c lba])
  next
    case True
    obtain m where m: "request_sects (SECTORS_PER_PAGE c) remain left_skip = m" "0 < m" "m \<le> remain"
      "lba sdiv SECTORS_PER_PAGE c = lba div SECTORS_PER_PAGE c" "in_ssd c (lba div SECTORS_PER_PAGE c)"
      "i32 (lba + m) = lba + m" "u32 (remain - m) = remain - m" "at_sector c (lba + m) (remain - m) 0"
      "request_pages c lba remain = insert (lba div SECTORS_PER_PAGE c) (request_pages c (lba + m) (remain - m))"
      "page_span (SECTORS_PER_PAGE c) left_skip remain = 1 + page_span (SECTORS_PER_PAGE c) 0 (remain - m)"
      by (rule at_sector_step [OF wf less.prems(2) True])
    let ?l = "lba div SECTORS_PER_PAGE c"
    have mo: "map_ok c UNIV (listed_pages c t) t" using t by (simp add: ftl_inv_def pages_ok_def)
    have g: "GET_MAPPING_INFO ?l t = Some (ppn_of t ?l)"
      using map_ok_lengths [OF mo m(5)] by (simp add: GET_MAPPING_INFO_def aget_def)
    have ne: "ppn_of t ?l \<noteq> -1" and rest: "\<forall>l\<in>request_pages c (lba + m) (remain - m). ppn_of t l \<noteq> -1"
      using less.prems(1) m(9) by simp_all
    have "in_ssd c (ppn_of t ?l)" using map_okD(1) [OF mo _ m(5) ne] by simp
    then have f: "0 \<le> CALC_FLASH c (ppn_of t ?l)" "CALC_FLASH c (ppn_of t ?l) < FLASH_NB c"
      using calc_ppn(4) [OF wf] by (simp_all add: in_chip_def)
    have sp: "0 \<le> page_span (SECTORS_PER_PAGE c) 0 (remain - m)"
      using wf_configD(1) [OF wf] by (simp add: page_span_nonneg)
    have h: "READ \<in> {GC_READ, GC_WRITE, ERASE} \<or> n = n \<and> off_ok (io_request_seq_nb d) n d"
      using serving_off [OF less.prems(3,4)] less.prems(5) sp m(10) by simp
    have io: "io_inv c d" using less.prems(3) by (simp add: serving_def)
    obtain d' where d': "SSD_PAGE_READ gt c (CALC_FLASH c (ppn_of t ?l)) (CALC_BLOCK c (ppn_of t ?l)) n READ d = Some (SUCCESS, d')"
      "io_good c n d d'"
      using SSD_PAGE_READ_good [OF wf f clk io h] unfolding returns_def by blast
    note s = serving_good [OF less.prems(3) d'(2)]
    have "returns (read_pages gt c (lba + m) (remain - m) 0 (n + 1) t SUCCESS d') (\<lambda>(r, d').
      r = (if 0 < remain - m then SUCCESS else SUCCESS) \<and> serving c N d' \<and> io_request_seq_nb d' = io_request_seq_nb d)"
      using less.hyps [OF _ rest m(8) s(1), of "n + 1" SUCCESS] less.prems(4,5) m(2,3,10) True s(2) by simp
    then show ?thesis
      using True d'(1) by (simp add: read_pages.simps [of gt c lba] m(1,4,6,7) g)
  qed
qed

lemma in_range_start:
  assumes wf: "wf_config c" and r: "in_range c sector_nb len"
  shows "\<not> exceeds_sectors c sector_nb len"
    "sector_nb smod SECTORS_PER_PAGE c = sector_nb mod SECTORS_PER_PAGE c"
    "u32 (sector_nb mod SECTORS_PER_PAGE c) = sector_nb mod SECTORS_PER_PAGE c"
    "at_sector c sector_nb len (sector_nb mod SECTORS_PER_PAGE c)"
proof -
  note spp = wf_configD(1) [OF wf] and S = wf_sectors(2,3) [OF wf]
  have b: "0 \<le> sector_nb" "0 < len" "sector_nb + len \<le> SECTOR_NB c" using r by (simp_all add: in_range_def)
  have k: "0 \<le> sector_nb mod SECTORS_PER_PAGE c" "sector_nb mod SECTORS_PER_PAGE c < SECTORS_PER_PAGE c"
    using spp by simp_all
  show "\<not> exceeds_sectors c sector_nb len" using b S by (simp add: exceeds_sectors_def u32_id)
  show "sector_nb smod SECTORS_PER_PAGE c = sector_nb mod SECTORS_PER_PAGE c" using b spp by (simp add: smod_nonneg)
  show "u32 (sector_nb mod SECTORS_PER_PAGE c) = sector_nb mod SECTORS_PER_PAGE c" using k S by (intro u32_id) linarith+
  show "at_sector c sector_nb len (sector_nb mod SECTORS_PER_PAGE c)" using b k by (simp add: at_sector_def)
qed

lemma FTL_READ_impl_result:
  assumes wf: "wf_config c" and clk: "clock_advances gt" and t: "ftl_inv c (tables s)"
    and d: "idle c (dev s)" "io_request_seq_nb (dev s) \<noteq> -1" and r: "in_range c sector_nb len"
  shows "returns (FTL_READ_impl gt c sector_nb len s) (\<lambda>(ret, s'). 
    if \<forall>l\<in>request_pages c sector_nb len. ppn_of (tables s) l \<noteq> -1
    then ret = SUCCESS \<and> tables s' = tables s \<and> idle c (dev s') \<and>
      io_request_seq_nb (dev s') = io_request_seq_nb (dev s) + 1
    else ret = FAIL \<and> s' = s)"
proof -
  let ?p = "SECTORS_PER_PAGE c" and ?skip = "sector_nb mod SECTORS_PER_PAGE c"
  note st = in_range_start [OF wf r]
  have spp: "?p \<noteq> 0" using wf_configD(1) [OF wf] by simp
  have len: "length (mapping_table (tables s)) = nat (PAGE_NB c * BLOCK_NB c * FLASH_NB c)"
    using t by (simp add: ftl_inv_def pages_ok_def map_ok_def)
  note rc = read_check_result [OF wf len st(4)]
  show ?thesis
  proof (cases "\<forall>l\<in>request_pages c sector_nb len. ppn_of (tables s) l \<noteq> -1")
    case False
    then have "read_check c sector_nb len ?skip (tables s) = Some FAIL" unfolding rc by (simp only: if_False)
    then have "FTL_READ_impl gt c sector_nb len s = Some (FAIL, s)"
      using st(1-3) spp by (simp add: FTL_READ_impl_def cmod_def)
    then show ?thesis using False by auto
  next
    case True
    let ?N = "page_span ?p ?skip len"
    obtain ov d1 where a: "ALLOC_IO_REQUEST gt c sector_nb len READ (dev s) = Some ((ov, ?N), d1)"
      "serving c ?N d1" "io_request_seq_nb d1 = io_request_seq_nb (dev s)"
      using ALLOC_serving [OF wf d(1) r, of gt READ] by (auto elim!: returnsE)
    have a2: "serving c ?N (d1\<lparr>io_alloc_overhead := ov\<rparr>)" using a(2) by simp
    have l0: "0 < len" using r by (simp add: in_range_def)
    obtain d2 where p: "read_pages gt c sector_nb len ?skip 0 (tables s) FAIL (d1\<lparr>io_alloc_overhead := ov\<rparr>) = Some (SUCCESS, d2)"
      "serving c ?N d2" "io_request_seq_nb d2 = io_request_seq_nb (dev s)"
      using read_pages_good [OF wf clk t True st(4) a2, of 0 FAIL] l0 a(3) by (auto elim!: returnsE)
    have ne: "io_request_seq_nb d2 \<noteq> -1" using p(3) d(2) by simp
    have rd: "read_check c sector_nb len ?skip (tables s) = Some SUCCESS" unfolding rc if_P [OF True] ..
    have "FTL_READ_impl gt c sector_nb len s = Some (SUCCESS, s\<lparr>dev := INCREASE_IO_REQUEST_SEQ_NB d2\<rparr>)"
      using st(1-3) spp rd a(1) p(1) by (simp add: FTL_READ_impl_def cmod_def)
    then show ?thesis using True INCREASE_idle [OF p(2) ne] p(3) by auto
  qed
qed

section \<open>Writing\<close>

text \<open>
  The logical pages of \<open>A\<close> moved to pages that were free before, one each; the others are
  where they were.
\<close>

definition written :: "ssd_config \<Rightarrow> int set \<Rightarrow> ftl_state \<Rightarrow> ftl_state \<Rightarrow> bool" where
  "written c A t t' \<longleftrightarrow>
     (\<forall>l. in_ssd c l \<longrightarrow> (if l \<in> A then ppn_of t' l \<in> free_pages c t else ppn_of t' l = ppn_of t l)) \<and>
     free_pages c t' \<subseteq> free_pages c t \<and> listed c t' = listed c t \<and>
     card (free_pages c t) = card (free_pages c t') + card A"

lemma written_refl [simp]: "written c {} t t"
  by (simp add: written_def)

lemma written_trans:
  assumes "written c A t u" "written c B u v" "A \<inter> B = {}" "finite A" "finite B"
  shows "written c (A \<union> B) t v"
proof -
  have "card (A \<union> B) = card A + card B" using assms(3-5) by (rule card_Un_disjoint [rotated 2])
  moreover have "if l \<in> A \<union> B then ppn_of v l \<in> free_pages c t else ppn_of v l = ppn_of t l" if "in_ssd c l" for l
    using assms(1,2) that unfolding written_def by (cases "l \<in> B"; cases "l \<in> A") auto
  ultimately show ?thesis using assms(1,2) unfolding written_def by auto
qed

lemma write_page_good:
  assumes wf: "wf_config c" and clk: "clock_advances gt" and t: "ftl_inv c (tables s)"
    and g: "GET_NEW_PAGE c VICTIM_OVERALL i (tables s) = Some (Some ppn, u)"
    and l: "in_ssd c l" and d: "serving c N (dev s)" and n: "0 \<le> n" "n < N"
  shows "returns (write_page gt c l ppn partial n (s\<lparr>tables := u\<rparr>)) (\<lambda>(r, s'). r = SUCCESS \<and>
    ftl_inv c (tables s') \<and> written c {l} (tables s) (tables s') \<and> serving c N (dev s') \<and>
    io_request_seq_nb (dev s') = io_request_seq_nb (dev s) \<and> g_init s' = g_init s)"
proof -
  let ?t = "tables s" and ?L = "listed_pages c (tables s)"
  have tp: "pages_ok c ?L ?t" using t by (simp add: ftl_inv_def)
  have lo: "lists_ok c ?t" using tp by (simp add: pages_ok_def)
  have pg: "pages_ok c ?L u" "mapping_table u = mapping_table ?t" "in_ssd c ppn" "ppn \<in> free_pages c ?t"
    using overall.page_or_full [OF wf TrueI tp, of i] g by (simp_all add: same_tables_def)
  have mo: "map_ok c UNIV ?L u" using pg(1) by (simp add: pages_ok_def)
  note len = map_ok_lengths [OF mo l]
  have gm: "GET_MAPPING_INFO l u = Some (ppn_of u l)"
    using len by (simp add: GET_MAPPING_INFO_def aget_def)
  have f: "0 \<le> CALC_FLASH c p" "CALC_FLASH c p < FLASH_NB c" if "in_ssd c p" for p
    using calc_ppn(4) [OF wf that] by (simp_all add: in_chip_def)
  have io: "io_inv c (dev s)" using d by (simp add: serving_def)
  have h: "WRITE \<in> {GC_READ, GC_WRITE, ERASE} \<or> n = n \<and> off_ok (io_request_seq_nb (dev s)) n (dev s)"
    using serving_off [OF d n] by simp
  have old: "in_ssd c (ppn_of u l)" if "ppn_of u l \<noteq> -1" using map_okD(1) [OF mo _ l that] by simp
  let ?io = "if partial \<and> ppn_of u l \<noteq> -1
    then SSD_PAGE_PARTIAL_WRITE gt c (CALC_FLASH c (ppn_of u l)) (CALC_BLOCK c (ppn_of u l))
      (CALC_FLASH c ppn) (CALC_BLOCK c ppn) n WRITE (dev s)
    else SSD_PAGE_WRITE gt c (CALC_FLASH c ppn) (CALC_BLOCK c ppn) n WRITE (dev s)"
  have "returns ?io (\<lambda>(r, d'). r = SUCCESS \<and> io_good c n (dev s) d')"
    using SSD_PAGE_PARTIAL_WRITE_good [OF wf f [OF old] f [OF pg(3)] clk io h]
      SSD_PAGE_WRITE_good [OF wf f [OF pg(3)] clk io h] by simp
  then obtain d' where d': "?io = Some (SUCCESS, d')" "io_good c n (dev s) d'" unfolding returns_def by blast
  obtain v w where w: "UPDATE_OLD_PAGE_MAPPING c l u = Some v" "UPDATE_NEW_PAGE_MAPPING c l ppn v = Some w"
    "pages_ok c ?L w" "listed c w = listed c ?t" "mapping_table w = (mapping_table ?t)[nat l := ppn]"
    "free_pages c w = free_pages c ?t - {ppn}"
    using overall.replace_page [OF wf TrueI tp l g] unfolding returns_def bind_eq_Some_conv by blast
  have "ppn_of w q = (if l = q then ppn else ppn_of ?t q)" if "in_ssd c q" for q
    unfolding w(5) using that l len pg(2) by (intro nth_nat_update) (auto simp: in_ssd_def)
  moreover have "card (free_pages c ?t) = card (free_pages c w) + 1"
    unfolding w(6) using card_Suc_Diff1 [OF finite_free_pages [OF wf lo] pg(4)] by simp
  ultimately have "written c {l} ?t w" using w(4,6) pg(4) by (auto simp: written_def)
  moreover have "ftl_inv c w" using w(3,4) by (simp add: ftl_inv_def)
  moreover have "write_page gt c l ppn partial n (s\<lparr>tables := u\<rparr>) = Some (SUCCESS, s\<lparr>tables := w, dev := d'\<rparr>)"
    using gm d'(1) w(1,2) by (cases "partial \<and> ppn_of u l \<noteq> -1") (auto simp: write_page_def)
  ultimately show ?thesis using serving_good [OF d d'(2)] by simp
qed

text \<open>The result of the write loop for the pages \<open>A\<close> of a request of \<open>N\<close> pages.\<close>

definition wrote :: "ssd_config \<Rightarrow> int set \<Rightarrow> int \<Rightarrow> ssd \<Rightarrow> bool \<times> status \<Rightarrow> ssd \<Rightarrow> bool" where
  "wrote c A N s = (\<lambda>(early, ret) s'. ftl_inv c (tables s') \<and> serving c N (dev s') \<and>
     io_request_seq_nb (dev s') = io_request_seq_nb (dev s) \<and> g_init s' = g_init s \<and>
     early = (card (free_pages c (tables s)) < card A) \<and>
     (if early then ret = FAIL \<and> free_pages c (tables s') = {} \<and> (\<exists>B\<subseteq>A. written c B (tables s) (tables s'))
      else (A \<noteq> {} \<longrightarrow> ret = SUCCESS) \<and> written c A (tables s) (tables s')))"

lemma wrote_step:
  assumes w: "written c {l} (tables s) (tables s1)" "g_init s1 = g_init s"
      "io_request_seq_nb (dev s1) = io_request_seq_nb (dev s)"
    and l: "l \<notin> A" "finite A" and r: "wrote c A N s1 (early, ret) s'" and ne: "A = {} \<longrightarrow> ret = SUCCESS"
  shows "wrote c (insert l A) N s (early, ret) s'"
proof -
  have c: "card (free_pages c (tables s)) = card (free_pages c (tables s1)) + 1" using w(1) by (simp add: written_def)
  have un: "written c (insert l B) (tables s) (tables s')" if B: "B \<subseteq> A" "written c B (tables s1) (tables s')" for B
  proof -
    have "{l} \<inter> B = {}" "finite {l}" "finite B" using B(1) l finite_subset by auto
    then have "written c ({l} \<union> B) (tables s) (tables s')" by (rule written_trans [OF w(1) B(2)])
    then show ?thesis by simp
  qed
  have cd: "card (insert l A) = card A + 1" using l by simp
  have f: "ftl_inv c (tables s')" "serving c N (dev s')" "io_request_seq_nb (dev s') = io_request_seq_nb (dev s)"
    "g_init s' = g_init s" "early = (card (free_pages c (tables s)) < card (insert l A))"
    using r w(2,3) c cd by (auto simp: wrote_def)
  show ?thesis
  proof (cases early)
    case True
    then obtain B where B: "B \<subseteq> A" "written c B (tables s1) (tables s')" and e: "ret = FAIL" "free_pages c (tables s') = {}"
      using r by (auto simp: wrote_def)
    have "insert l B \<subseteq> insert l A" using B(1) by blast
    then have "\<exists>B\<subseteq>insert l A. written c B (tables s) (tables s')" using un [OF B] by blast
    then show ?thesis unfolding wrote_def prod.case using f True e by (simp only: if_True simp_thms)
  next
    case False
    then have "ret = SUCCESS" "written c A (tables s1) (tables s')" using r ne by (auto simp: wrote_def)
    then show ?thesis unfolding wrote_def prod.case using f False un [OF order_refl] by (simp only: if_False simp_thms)
  qed
qed

lemma write_pages_wrote:
  assumes wf: "wf_config c" and clk: "clock_advances gt" and t: "ftl_inv c (tables s)"
    and a: "at_sector c lba remain left_skip" and d: "serving c N (dev s)"
    and n: "0 \<le> n" "n + page_span (SECTORS_PER_PAGE c) left_skip remain = N"
  shows "returns (write_pages gt c lba remain left_skip n ret s)
    (\<lambda>(er, s'). wrote c (request_pages c lba remain) N s er s' \<and> (remain \<le> 0 \<longrightarrow> er = (False, ret)))"
  using t a d n
proof (induction "nat remain" arbitrary: lba remain left_skip n ret s rule: less_induct)
  case less
  show ?case
  proof (cases "0 < remain")
    case False
    then show ?thesis
      using less.prems by (simp add: write_pages.simps [of gt c lba] request_pages_empty wrote_def)
  next
    case True
    obtain m where m: "request_sects (SECTORS_PER_PAGE c) remain left_skip = m" "0 < m" "m \<le> remain"
      "lba sdiv SECTORS_PER_PAGE c = lba div SECTORS_PER_PAGE c" "in_ssd c (lba div SECTORS_PER_PAGE c)"
      "i32 (lba + m) = lba + m" "u32 (remain - m) = remain - m" "at_sector c (lba + m) (remain - m) 0"
      "request_pages c lba remain = insert (lba div SECTORS_PER_PAGE c) (request_pages c (lba + m) (remain - m))"
      "lba div SECTORS_PER_PAGE c \<notin> request_pages c (lba + m) (remain - m)"
      "page_span (SECTORS_PER_PAGE c) left_skip remain = 1 + page_span (SECTORS_PER_PAGE c) 0 (remain - m)"
      by (rule at_sector_step [OF wf less.prems(2) True])
    let ?l = "lba div SECTORS_PER_PAGE c" and ?A = "request_pages c (lba + m) (remain - m)"
    let ?pt = "left_skip \<noteq> 0 \<or> request_right_skip (SECTORS_PER_PAGE c) remain left_skip \<noteq> 0"
    let ?L = "listed_pages c (tables s)"
    have tp: "pages_ok c ?L (tables s)" using less.prems(1) by (simp add: ftl_inv_def)
    obtain page u where g: "GET_NEW_PAGE c VICTIM_OVERALL (EMPTY_TABLE_ENTRY_NB c) (tables s) = Some (page, u)"
      and pg: "pages_ok c ?L u" "same_tables (tables s) u" "listed c u = listed c (tables s)"
        "page = None \<Longrightarrow> free_pages c (tables s) = {} \<and> free_pages c u = {}"
        "\<And>p. page = Some p \<Longrightarrow> p \<in> free_pages c (tables s)"
      using overall.page_or_full [OF wf TrueI tp, of "EMPTY_TABLE_ENTRY_NB c"]
      unfolding returns_def by (auto split: option.splits)
    show ?thesis
    proof (cases page)
      case None
      have inv: "ftl_inv c u" using pg(1,3) by (simp add: ftl_inv_def)
      have "written c {} (tables s) u" using pg(2-4) None by (simp add: written_def same_tables_def)
      then have "wrote c (insert ?l ?A) N s (True, FAIL) (s\<lparr>tables := u\<rparr>)"
        using inv less.prems(3) pg(4) None m(10) by (auto simp: wrote_def card_gt_0_iff)
      then show ?thesis using True None g by (simp add: write_pages.simps [of gt c lba] m(9))
    next
      case (Some ppn)
      have sp: "0 \<le> page_span (SECTORS_PER_PAGE c) 0 (remain - m)"
        using wf_configD(1) [OF wf] by (simp add: page_span_nonneg)
      then have n: "n < N" "0 \<le> n + 1" "n + 1 + page_span (SECTORS_PER_PAGE c) 0 (remain - m) = N"
        using less.prems(4,5) m(11) by simp_all
      obtain s1 where w: "write_page gt c ?l ppn ?pt n (s\<lparr>tables := u\<rparr>) = Some (SUCCESS, s1)"
        "ftl_inv c (tables s1)" "written c {?l} (tables s) (tables s1)" "serving c N (dev s1)"
        "io_request_seq_nb (dev s1) = io_request_seq_nb (dev s)" "g_init s1 = g_init s"
        using write_page_good [OF wf clk less.prems(1) g [unfolded Some] m(5) less.prems(3,4) n(1)]
        unfolding returns_def by blast
      have sm: "nat (remain - m) < nat remain" using m(2,3) True by simp
      obtain early r s' where ih: "write_pages gt c (lba + m) (remain - m) 0 (n + 1) SUCCESS s1 = Some ((early, r), s')"
        "wrote c ?A N s1 (early, r) s'" "remain - m \<le> 0 \<longrightarrow> (early, r) = (False, SUCCESS)"
        using less.hyps [OF sm w(2) m(8) w(4) n(2,3), of SUCCESS] unfolding returns_def by auto
      have "?A = {} \<longrightarrow> r = SUCCESS" using ih(2,3) by (auto simp: request_pages_def)
      then have "wrote c (insert ?l ?A) N s (early, r) s'"
        using wrote_step [OF w(3,6,5) m(10) _ ih(2)] by simp
      then show ?thesis
        using True Some g w(1) ih(1) by (simp add: write_pages.simps [of gt c lba] m Let_def)
    qed
  qed
qed

lemma written_mapped:
  assumes wf: "wf_config c" and t: "ftl_inv c t" and w: "written c A t t'" and l: "in_ssd c l"
  shows "ppn_of t' l \<noteq> -1 \<longleftrightarrow> l \<in> A \<or> ppn_of t l \<noteq> -1"
proof (cases "l \<in> A")
  case True
  have "lists_ok c t" using t by (simp add: ftl_inv_def pages_ok_def)
  moreover have "ppn_of t' l \<in> free_pages c t" using w l True by (simp add: written_def)
  ultimately have "in_ssd c (ppn_of t' l)" using free_pages_in_ssd [OF wf] by blast
  then show ?thesis using True by (simp add: in_ssd_def)
next
  case False
  then show ?thesis using w l by (simp add: written_def)
qed

text \<open>The effect of a write: on success all its pages are mapped, on failure some of them.\<close>

definition write_result ::
  "ssd_config \<Rightarrow> int \<Rightarrow> int \<Rightarrow> ssd \<Rightarrow> status \<Rightarrow> ssd \<Rightarrow> bool" where
  "write_result c sector_nb len s ret s' \<longleftrightarrow>
     ftl_inv c (tables s') \<and>
     (if card (request_pages c sector_nb len) \<le> card (free_pages c (tables s))
      then ret = SUCCESS \<and> idle c (dev s') \<and>
        io_request_seq_nb (dev s') = io_request_seq_nb (dev s) + 1 \<and>
        (\<forall>l. in_ssd c l \<longrightarrow>
           (ppn_of (tables s') l \<noteq> -1 \<longleftrightarrow> l \<in> request_pages c sector_nb len \<or> ppn_of (tables s) l \<noteq> -1))
      else ret = FAIL \<and> free_pages c (tables s') = {} \<and> io_inv c (dev s') \<and>
        io_request_seq_nb (dev s') = io_request_seq_nb (dev s) \<and>
        (\<forall>l. in_ssd c l \<longrightarrow> l \<notin> request_pages c sector_nb len \<longrightarrow> ppn_of (tables s') l = ppn_of (tables s) l) \<and>
        (\<forall>l. in_ssd c l \<longrightarrow> ppn_of (tables s) l \<noteq> -1 \<longrightarrow> ppn_of (tables s') l \<noteq> -1))"

lemma wrote_failed:
  assumes wf: "wf_config c" and t: "ftl_inv c (tables s)"
    and w: "wrote c (request_pages c sector_nb len) N s (True, ret) s'"
  shows "write_result c sector_nb len s FAIL s'"
proof -
  let ?A = "request_pages c sector_nb len"
  obtain B where B: "B \<subseteq> ?A" "written c B (tables s) (tables s')" and f: "ftl_inv c (tables s')" "serving c N (dev s')"
    "io_request_seq_nb (dev s') = io_request_seq_nb (dev s)" "g_init s' = g_init s"
    "card (free_pages c (tables s)) < card ?A" "free_pages c (tables s') = {}"
    using w by (auto simp: wrote_def)
  have "ppn_of (tables s') l = ppn_of (tables s) l" if "in_ssd c l" "l \<notin> ?A" for l
  proof -
    have "l \<notin> B" using B(1) that(2) by blast
    then show ?thesis using B(2) that(1) by (simp add: written_def)
  qed
  moreover have "ppn_of (tables s') l \<noteq> -1" if "in_ssd c l" "ppn_of (tables s) l \<noteq> -1" for l
    using written_mapped [OF wf t B(2) that(1)] that(2) by simp
  moreover have "io_inv c (dev s')" using f(2) by (simp add: serving_def)
  ultimately show ?thesis using f unfolding write_result_def by (simp add: not_le)
qed

text \<open>With enough free pages the loop writes all pages and garbage collection follows.\<close>

lemma FTL_WRITE_impl_enough:
  assumes wf: "wf_config c" and clk: "clock_advances gt"
    and t: "ftl_inv c (tables s)" and d: "idle c (dev s)" "io_request_seq_nb (dev s) \<noteq> -1"
    and r: "in_range c sector_nb len"
  obtains (failed) s' where "card (free_pages c (tables s)) < card (request_pages c sector_nb len)"
      "FTL_WRITE_impl gt c sector_nb len s = Some (FAIL, s')" "write_result c sector_nb len s FAIL s'"
  | (complete) s' where "card (request_pages c sector_nb len) \<le> card (free_pages c (tables s))"
      "FTL_WRITE_impl gt c sector_nb len s = map_option (Pair SUCCESS) (GC_CHECK gt c s')"
      "ftl_inv c (tables s')" "idle c (dev s')" "io_request_seq_nb (dev s') = io_request_seq_nb (dev s) + 1"
      "written c (request_pages c sector_nb len) (tables s) (tables s')"
proof -
  let ?p = "SECTORS_PER_PAGE c" and ?skip = "sector_nb mod SECTORS_PER_PAGE c"
  let ?N = "page_span ?p ?skip len" and ?A = "request_pages c sector_nb len"
  note st = in_range_start [OF wf r]
  have spp: "?p \<noteq> 0" using wf_configD(1) [OF wf] by simp
  obtain ov d1 where a: "ALLOC_IO_REQUEST gt c sector_nb len WRITE (dev s) = Some ((ov, ?N), d1)"
    "serving c ?N d1" "io_request_seq_nb d1 = io_request_seq_nb (dev s)"
    using ALLOC_serving [OF wf d(1) r, of gt WRITE] by (auto elim!: returnsE)
  let ?s1 = "s\<lparr>dev := d1\<lparr>io_alloc_overhead := ov\<rparr>\<rparr>"
  have s1: "ftl_inv c (tables ?s1)" "serving c ?N (dev ?s1)" using t a(2) by simp_all
  obtain early ret s2 where w: "write_pages gt c sector_nb len ?skip 0 FAIL ?s1 = Some ((early, ret), s2)"
    "wrote c ?A ?N ?s1 (early, ret) s2"
    using write_pages_wrote [OF wf clk s1(1) st(4) s1(2), of 0 FAIL] by (auto elim!: returnsE)
  show thesis
  proof (cases early)
    case True
    then have wr: "wrote c ?A ?N s (True, ret) s2" using w(2) a(3) by (simp add: wrote_def)
    have "FTL_WRITE_impl gt c sector_nb len s = Some (FAIL, s2)"
      using st(1-3) spp a(1) w(1) True by (simp add: FTL_WRITE_impl_def cmod_def)
    with wr show thesis by (intro failed [OF _ _ wrote_failed [OF wf t wr]]) (simp_all add: wrote_def)
  next
    case False
    have ne: "?A \<noteq> {}" using r by (auto simp: request_pages_def in_range_def)
    have f: "ftl_inv c (tables s2)" "serving c ?N (dev s2)" "io_request_seq_nb (dev s2) = io_request_seq_nb (dev s)"
      "\<not> card (free_pages c (tables s)) < card ?A" "ret = SUCCESS" "written c ?A (tables s) (tables s2)"
      using w(2) False ne a(3) by (auto simp: wrote_def)
    let ?s3 = "s2\<lparr>dev := INCREASE_IO_REQUEST_SEQ_NB (dev s2)\<rparr>"
    have "FTL_WRITE_impl gt c sector_nb len s = map_option (Pair SUCCESS) (GC_CHECK gt c ?s3)"
      using st(1-3) spp a(1) w(1) False f(5)
      by (cases "GC_CHECK gt c ?s3") (simp_all add: FTL_WRITE_impl_def cmod_def)
    then show thesis using f INCREASE_idle [OF f(2)] d(2) by (intro complete [of ?s3]) simp_all
  qed
qed

lemma FTL_WRITE_impl_result:
  assumes wf: "wf_config c" "PLANES_PER_FLASH c = 1" and clk: "clock_advances gt"
    and t: "ftl_inv c (tables s)" and d: "idle c (dev s)" "io_request_seq_nb (dev s) \<noteq> -1"
    and r: "in_range c sector_nb len"
  shows "returns (FTL_WRITE_impl gt c sector_nb len s) (\<lambda>(ret, s'). write_result c sector_nb len s ret s')"
proof (rule FTL_WRITE_impl_enough [OF wf(1) clk t d r])
  fix s'
  assume "FTL_WRITE_impl gt c sector_nb len s = Some (FAIL, s')" "write_result c sector_nb len s FAIL s'"
  then show ?thesis by simp
next
  fix s3
  let ?A = "request_pages c sector_nb len"
  assume a: "card ?A \<le> card (free_pages c (tables s))"
    "FTL_WRITE_impl gt c sector_nb len s = map_option (Pair SUCCESS) (GC_CHECK gt c s3)"
    "ftl_inv c (tables s3)" "idle c (dev s3)" "io_request_seq_nb (dev s3) = io_request_seq_nb (dev s) + 1"
    "written c ?A (tables s) (tables s3)"
  have io: "io_inv c (dev s3)" using a(4) by (simp add: idle_def)
  obtain s4 where g: "GC_CHECK gt c s3 = Some s4" "ftl_inv c (tables s4)" "io_quiet c (dev s3) (dev s4)"
    "same_mapped c (tables s3) (tables s4)"
    using GC_CHECK_collects [OF wf clk a(3) io] by (auto elim!: returnsE)
  have m: "ppn_of (tables s4) l \<noteq> -1 \<longleftrightarrow> l \<in> ?A \<or> ppn_of (tables s) l \<noteq> -1" if "in_ssd c l" for l
    using written_mapped [OF wf(1) t a(6) that] g(4) that by (simp add: same_mapped_def)
  have "write_result c sector_nb len s SUCCESS s4"
    using a g m idle_quiet [OF a(4) g(3)] by (simp add: write_result_def)
  then show ?thesis using a(2) g(1) by simp
qed

end
