(* ===== verification/Ftl_Runs.thy ===== *)
theory Ftl_Runs
  imports Ftl
begin

text \<open>
  The life of a device: how \<^verbatim>\<open>SSD_INIT\<close> and \<^verbatim>\<open>SSD_TERM\<close> start and stop it, sequences of
  requests between the two, and what happens when its free pages are used up.
\<close>

section \<open>A full device\<close>

lemma FTL_WRITE_impl_full:
  assumes wf: "wf_config c" and t: "ftl_inv c (tables s)" "free_pages c (tables s) = {}"
    and d: "reqs_ok (dev s)" and r: "in_range c sector_nb len"
  shows "returns (FTL_WRITE_impl gt c sector_nb len s) (\<lambda>(ret, s'). ret = FAIL \<and>
    ftl_inv c (tables s') \<and> free_pages c (tables s') = {} \<and>
    mapping_table (tables s') = mapping_table (tables s) \<and> reqs_ok (dev s') \<and>
    io_request_nb (dev s') = io_request_nb (dev s) + 1 \<and>
    io_request_seq_nb (dev s') = io_request_seq_nb (dev s))"
proof -
  let ?p = "SECTORS_PER_PAGE c" and ?skip = "sector_nb mod SECTORS_PER_PAGE c"
  let ?N = "page_span ?p ?skip len" and ?L = "listed_pages c (tables s)"
  note st = in_range_start [OF wf r]
  have spp: "0 < ?p" "?p < 4294967296" using wf_configD(1) [OF wf] wf_sectors(2,3) [OF wf] by simp_all
  have b: "0 \<le> sector_nb" "0 < len" "len < 4294967296" "?N < 32768"
    using r wf_sectors(2) [OF wf] by (simp_all add: in_range_def)
  obtain ov n d1 q where a: "ALLOC_IO_REQUEST gt c sector_nb len WRITE (dev s) = Some ((ov, n), d1)" "reqs_ok d1"
    "io_request_seq_nb d1 = io_request_seq_nb (dev s)" "io_requests d1 = io_requests (dev s) @ [q]"
    using ALLOC_IO_REQUEST_returns [OF d spp b, of gt WRITE] by (auto elim!: returnsE)
  have nb: "io_request_nb d1 = io_request_nb (dev s) + 1" using a(2,4) d by (simp add: reqs_ok_def)
  have tp: "pages_ok c ?L (tables s)" using t(1) by (simp add: ftl_inv_def)
  obtain page u where g: "GET_NEW_PAGE c VICTIM_OVERALL (EMPTY_TABLE_ENTRY_NB c) (tables s) = Some (page, u)"
    and pg: "pages_ok c ?L u" "same_tables (tables s) u" "listed c u = listed c (tables s)"
      "page = None" "free_pages c u = {}"
    using overall.page_or_full [OF wf TrueI tp, of "EMPTY_TABLE_ENTRY_NB c"] t(2)
    unfolding returns_def by (auto split: option.splits)
  let ?s1 = "s\<lparr>dev := d1\<lparr>io_alloc_overhead := ov\<rparr>\<rparr>"
  have "write_pages gt c sector_nb len ?skip 0 FAIL ?s1 = Some ((True, FAIL), ?s1\<lparr>tables := u\<rparr>)"
    using b(2) g pg(4) by (simp add: write_pages.simps [of gt c sector_nb])
  then have "FTL_WRITE_impl gt c sector_nb len s = Some (FAIL, ?s1\<lparr>tables := u\<rparr>)"
    using st(1-3) spp a(1) by (simp add: FTL_WRITE_impl_def cmod_def)
  moreover have "ftl_inv c u" using pg(1,3) by (simp add: ftl_inv_def)
  moreover have "reqs_ok (d1\<lparr>io_alloc_overhead := ov\<rparr>)" using a(2) by (simp add: reqs_ok_def)
  ultimately show ?thesis using pg(2,5) nb a(3) by (simp add: same_tables_def)
qed

lemma writes_to_full_device:
  assumes wf: "wf_config c" and t: "ftl_inv c (tables s)" "free_pages c (tables s) = {}"
    and d: "reqs_ok (dev s)" and r: "\<forall>(sector_nb, len)\<in>set rs. in_range c sector_nb len"
  shows "returns (ofold (\<lambda>(sector_nb, len). FTL_WRITE gt c sector_nb len) rs s) (\<lambda>s'.
    ftl_inv c (tables s') \<and> free_pages c (tables s') = {} \<and>
    mapping_table (tables s') = mapping_table (tables s) \<and> reqs_ok (dev s') \<and>
    io_request_nb (dev s') = io_request_nb (dev s) + int (length rs))"
  using t d r
proof (induction rs arbitrary: s)
  case (Cons x rs)
  obtain sec len where x: "x = (sec, len)" by (cases x)
  have "in_range c sec len" using Cons.prems(4) x by simp
  then obtain s' where s': "FTL_WRITE gt c sec len s = Some s'" "ftl_inv c (tables s')" "free_pages c (tables s') = {}"
    "mapping_table (tables s') = mapping_table (tables s)" "reqs_ok (dev s')"
    "io_request_nb (dev s') = io_request_nb (dev s) + 1"
    using FTL_WRITE_impl_full [OF wf Cons.prems(1-3), of sec len gt] unfolding returns_def FTL_WRITE_def by auto
  have r: "\<forall>(sector_nb, len)\<in>set rs. in_range c sector_nb len" using Cons.prems(4) by simp
  show ?case using Cons.IH [OF s'(2,3,5) r] s' by (simp add: x returns_def add.assoc)
qed simp

section \<open>Starting and stopping\<close>

lemma SSD_IO_INIT_idle: "idle c (SSD_IO_INIT c (INIT_PERF_CHECKER d))"
  by (simp add: idle_def io_inv_def SSD_IO_INIT_def INIT_PERF_CHECKER_def reqs_ok_def)

lemma FTL_INIT_new:
  assumes "INIT_SSD_CONFIG False conf c0 = Some c" "wf_config c" "g_init s = 0"
  shows "returns (FTL_INIT conf no_files (c0, s)) (\<lambda>(c', s'). c' = c \<and> new_device c (tables s') \<and>
    idle c (dev s') \<and> io_request_seq_nb (dev s') = 0 \<and> g_init s' = 1)"
proof -
  obtain t where "init_tables c no_files (tables s) = Some t" "new_device c t"
    using init_tables_fresh [OF assms(2), of "tables s"] unfolding returns_def by blast
  then show ?thesis
    using assms SSD_IO_INIT_idle [of c "dev s"]
    by (simp add: FTL_INIT_def) (simp add: SSD_IO_INIT_def INIT_PERF_CHECKER_def)
qed

lemma ftl_inv_restart:
  assumes "wf_config c" "ftl_inv c t"
  shows "ftl_inv c (t\<lparr>empty_block_table_index := 0, gc_count := g, fail_cnt := f\<rparr>)"
proof -
  have "0 < reg_count c" by (rule wf_configD(10) [OF assms(1)])
  then show ?thesis
    using assms(2) by (simp add: ftl_inv_def pages_ok_def lists_ok_def blocks_ok_def map_ok_def page_state_def
      free_pages_def listed_def)
qed

lemma FTL_INIT_restart:
  assumes "INIT_SSD_CONFIG False conf c0 = Some c" "wf_config c" "g_init s0 = 0"
    and "ftl_inv c (tables s)" "FTL_TERM c s d0 = Some d"
  shows "returns (FTL_INIT conf d (c0, s0)) (\<lambda>(c', s'). c' = c \<and> ftl_inv c (tables s') \<and>
    tables s' = (tables s)\<lparr>empty_block_table_index := 0, gc_count := gc_count (tables s0), fail_cnt := fail_cnt (tables s0)\<rparr> \<and>
    idle c (dev s') \<and> io_request_seq_nb (dev s') = 0 \<and> g_init s' = 1)"
  using assms SSD_IO_INIT_idle [of c "dev s0"] saved_tables_load [OF assms(2,4) assms(5) [unfolded FTL_TERM_def], of "tables s0"]
    ftl_inv_restart [OF assms(2,4)]
  by (simp add: FTL_INIT_def) (simp add: SSD_IO_INIT_def INIT_PERF_CHECKER_def)

section \<open>Runs\<close>

text \<open>
  The states of a device that is started, serves requests until a write fails, is stopped and
  started again. The number counts the requests since the last start; it stays below
  4294967296, where the code would start to reuse request numbers.
\<close>

inductive reached :: "clock \<Rightarrow> ssd_config \<Rightarrow> nat \<Rightarrow> ssd \<Rightarrow> bool" for gt c where
  start: "INIT_SSD_CONFIG False conf zero_config = Some c \<Longrightarrow> g_init s0 = 0 \<Longrightarrow>
    SSD_INIT conf no_files (zero_config, s0) = Some (c, s) \<Longrightarrow> reached gt c 0 s"
| read: "reached gt c n s \<Longrightarrow> n < 4294967295 \<Longrightarrow> in_range c sector_nb len \<Longrightarrow>
    FTL_READ_impl gt c sector_nb len s = Some (ret, s') \<Longrightarrow> reached gt c (Suc n) s'"
| wrote: "reached gt c n s \<Longrightarrow> n < 4294967295 \<Longrightarrow> in_range c sector_nb len \<Longrightarrow>
    FTL_WRITE_impl gt c sector_nb len s = Some (SUCCESS, s') \<Longrightarrow> reached gt c (Suc n) s'"
| restart: "reached gt c n s \<Longrightarrow> SSD_TERM c s d0 = Some d \<Longrightarrow>
    INIT_SSD_CONFIG False conf zero_config = Some c \<Longrightarrow> g_init s0 = 0 \<Longrightarrow>
    SSD_INIT conf d (zero_config, s0) = Some (c, s') \<Longrightarrow> reached gt c 0 s'"

lemma seq_step:
  assumes "unat (q :: 32 word) \<le> n" "n < 4294967295"
  shows "q \<noteq> -1" "unat (q + 1) \<le> Suc n"
proof -
  show "q \<noteq> -1" using assms by (auto simp: unsigned_minus_1_eq_mask mask_eq_exp_minus_1)
  show "unat (q + 1) \<le> Suc n" using assms unat_add_lem [of q 1] by simp
qed


lemma reached_inv:
  assumes wf: "wf_config c" "PLANES_PER_FLASH c = 1" and clk: "clock_advances gt"
    and r: "reached gt c n s"
  shows "ftl_inv c (tables s) \<and> idle c (dev s) \<and> unat (io_request_seq_nb (dev s)) \<le> n"
  using r
proof (induction rule: reached.induct)
  case (start conf s0 s)
  then have "new_device c (tables s)" "idle c (dev s)" "io_request_seq_nb (dev s) = 0"
    using FTL_INIT_new [OF start(1) wf(1) start(2)] by (simp_all add: SSD_INIT_def)
  then show ?case using new_device_inv(1) [OF wf(1)] by simp
next
  case (read n s sector_nb len ret s')
  then have ih: "ftl_inv c (tables s)" "idle c (dev s)" "unat (io_request_seq_nb (dev s)) \<le> n" by simp_all
  note q = seq_step [OF ih(3) read.hyps(2)]
  have "s' = s \<or> tables s' = tables s \<and> idle c (dev s') \<and> io_request_seq_nb (dev s') = io_request_seq_nb (dev s) + 1"
    using FTL_READ_impl_result [OF wf(1) clk ih(1,2) q(1) read.hyps(3)] read.hyps(4) by (auto split: if_splits)
  then show ?case using ih q(2) by auto
next
  case (wrote n s sector_nb len s')
  then have ih: "ftl_inv c (tables s)" "idle c (dev s)" "unat (io_request_seq_nb (dev s)) \<le> n" by simp_all
  note q = seq_step [OF ih(3) wrote.hyps(2)]
  show ?case
    using FTL_WRITE_impl_result [OF wf clk ih(1,2) q(1) wrote.hyps(3)] wrote.hyps(4) q(2)
    by (auto simp: write_result_def split: if_splits)
next
  case (restart n s d0 d conf s0 s')
  then show ?case
    using FTL_INIT_restart [OF restart(3) wf(1) restart(4), of s d0 d] by (simp add: SSD_INIT_def SSD_TERM_def ftl_inv_restart [OF wf(1)])
qed

end
