(* ===== verification/Provisioning.thy ===== *)
theory Provisioning
  imports Ftl_Runs
begin

text \<open>
  How many spare blocks keep the device writable: if the host touches few enough logical
  pages, greedy garbage collection always finds a victim that can be copied, and no write
  ever fails.
\<close>

section \<open>Counting blocks and valid pages\<close>

lemma card_root_blocks:
  assumes "chains_ok c i es vs"
  shows "card (root_blocks c es vs) = length es + length vs"
proof -
  have d: "distinct (map (addr c) es)" "distinct (map (addr c) vs)" "addr c ` set es \<inter> addr c ` set vs = {}"
    using assms by (auto simp: chains_ok_def)
  have "card (addr c ` set es) = length es" "card (addr c ` set vs) = length vs"
    using distinct_card [OF d(1)] distinct_card [OF d(2)] by simp_all
  then show ?thesis unfolding root_blocks_def using d(3) by (subst card_Un_disjoint) auto
qed

lemma card_listed:
  assumes "lists_ok c t"
  shows "int (card (listed c t)) = total_empty_block_nb t + total_victim_block_nb t"
proof -
  have "card (listed c t) = (\<Sum>k<reg_count c. card (root_blocks c (echain t k) (vchain t k)))"
    unfolding listed_def using root_blocks_disjoint [OF assms]
    by (intro card_UN_disjoint) (auto simp: root_blocks_def)
  also have "\<dots> = (\<Sum>k<reg_count c. length (echain t k) + length (vchain t k))"
    by (intro sum.cong card_root_blocks [OF lists_okD(3) [OF assms]]) simp_all
  finally show ?thesis using assms by (simp add: sum.distrib lists_ok_def)
qed

text \<open>With more empty blocks than roots, some empty block is entirely free.\<close>

lemma spare_empty_block:
  assumes wf: "wf_config c" and t: "lists_ok c t" and n: "int (reg_count c) < total_empty_block_nb t"
  shows "PAGE_NB c \<le> int (card (free_pages c t))"
proof -
  have "\<exists>k<reg_count c. 1 < length (echain t k)"
  proof (rule ccontr)
    assume "\<not> ?thesis"
    then have "int (length (echain t k)) \<le> 1" if "k < reg_count c" for k using that by force
    then have "(\<Sum>k<reg_count c. int (length (echain t k))) \<le> (\<Sum>k<reg_count c. 1)"
      by (intro sum_mono) simp
    then show False using n t by (simp add: lists_ok_def)
  qed
  then obtain k where k: "k < reg_count c" "1 < length (echain t k)" by blast
  then obtain a e es where e: "echain t k = a # e # es"
    by (cases "echain t k"; cases "tl (echain t k)") auto
  have "curr_phy_page_nb e = 0" using lists_okD(3) [OF t k(1)] e by (simp add: chains_ok_def)
  then have "{q. q div PAGE_NB c = addr c e} \<subseteq> entry_free c e"
    using wf_configD(2) [OF wf] by (auto simp: entry_free_def)
  also have "\<dots> \<subseteq> free_pages c t" using k(1) e by (auto simp: free_pages_def)
  finally have "card {q. q div PAGE_NB c = addr c e} \<le> card (free_pages c t)"
    by (rule card_mono [OF finite_free_pages [OF wf t]])
  then show ?thesis using card_block_pages(2) [OF wf_configD(2) [OF wf], of "addr c e"] by simp
qed

definition valid_pages :: "ssd_config \<Rightarrow> ftl_state \<Rightarrow> int \<Rightarrow> int set" where
  "valid_pages c t a = {q. q div PAGE_NB c = a \<and> page_state c t q = CHR ''V''}"

lemma card_valid_pages:
  assumes wf: "wf_config c" and b: "blocks_ok c t" and a: "0 \<le> a" "a < BLOCK_NB c * FLASH_NB c"
  shows "finite (valid_pages c t a)" "int (card (valid_pages c t a)) = valid_page_nb (block_state_table t ! nat a)"
proof -
  let ?P = "PAGE_NB c" and ?xs = "valid_array (block_state_table t ! nat a)"
  have P: "0 < ?P" by (rule wf_configD(2) [OF wf])
  have m: "block_state_table t ! nat a \<in> set (block_state_table t)" using a b by (simp add: blocks_ok_def nat_less_iff)
  have len: "length ?xs = nat ?P" and cnt: "valid_page_nb (block_state_table t ! nat a) = int (count_list ?xs (CHR ''V''))"
    using m b by (simp_all add: blocks_ok_def)
  have "valid_pages c t a = (\<lambda>i. a * ?P + int i) ` {i. i < length ?xs \<and> ?xs ! i = CHR ''V''}"
  proof (intro set_eqI iffI)
    fix q
    assume q: "q \<in> valid_pages c t a"
    have r: "0 \<le> q mod ?P" "q mod ?P < ?P" using P by simp_all
    have "q = a * ?P + int (nat (q mod ?P))" using q r div_mult_mod_eq [of q ?P] by (simp add: valid_pages_def)
    moreover have "nat (q mod ?P) < length ?xs" "?xs ! nat (q mod ?P) = CHR ''V''"
      using q r len by (auto simp: valid_pages_def page_state_def nat_less_iff)
    ultimately show "q \<in> (\<lambda>i. a * ?P + int i) ` {i. i < length ?xs \<and> ?xs ! i = CHR ''V''}" by blast
  next
    fix q
    assume "q \<in> (\<lambda>i. a * ?P + int i) ` {i. i < length ?xs \<and> ?xs ! i = CHR ''V''}"
    then obtain i where i: "q = a * ?P + int i" "i < length ?xs" "?xs ! i = CHR ''V''" by blast
    have "0 \<le> int i" "int i < ?P" using i(2) len P by simp_all
    note d = in_ssd_page(2,3) [OF a this]
    show "q \<in> valid_pages c t a" using i(3) d by (simp add: valid_pages_def page_state_def i(1))
  qed
  moreover have "inj_on (\<lambda>i. a * ?P + int i) {i. i < length ?xs \<and> ?xs ! i = CHR ''V''}" by (auto simp: inj_on_def)
  moreover have "count_list ?xs (CHR ''V'') = card {i. i < length ?xs \<and> ?xs ! i = CHR ''V''}"
    by (simp add: count_list_eq_length_filter length_filter_conv_card eq_commute)
  ultimately show "finite (valid_pages c t a)" "int (card (valid_pages c t a)) = valid_page_nb (block_state_table t ! nat a)"
    using cnt by (simp_all add: card_image)
qed

text \<open>The valid pages of listed blocks hold different logical pages.\<close>

lemma sum_valid_pages:
  assumes wf: "wf_config c" and t: "ftl_inv c t" and A: "A \<subseteq> listed c t"
    and U: "finite U" "\<And>l. in_ssd c l \<Longrightarrow> ppn_of t l \<noteq> -1 \<Longrightarrow> l \<in> U"
  shows "(\<Sum>a\<in>A. valid_page_nb (block_state_table t ! nat a)) \<le> int (card U)"
proof -
  have l: "lists_ok c t" and b: "blocks_ok c t" and m: "map_ok c UNIV (listed_pages c t) t"
    using t by (simp_all add: ftl_inv_def pages_ok_def)
  have ar: "0 \<le> a" "a < BLOCK_NB c * FLASH_NB c" if "a \<in> A" for a
    using listed_range [OF l] that A by blast+
  have "finite (listed c t)"
    by (rule finite_subset [of _ "{0..<BLOCK_NB c * FLASH_NB c}"]) (auto dest: listed_range [OF l])
  then have fA: "finite A" using A by (rule finite_subset [rotated])
  let ?Q = "\<Union>a\<in>A. valid_pages c t a"
  have q: "in_ssd c q" "q \<in> listed_pages c t" "page_state c t q = CHR ''V''" if q': "q \<in> ?Q" for q
  proof -
    obtain a where a: "a \<in> A" "q div PAGE_NB c = a" "page_state c t q = CHR ''V''"
      using q' by (auto simp: valid_pages_def)
    then show "q \<in> listed_pages c t" "page_state c t q = CHR ''V''" using A by auto
    show "in_ssd c q" using ar [OF a(1)] a(2) by (simp add: in_ssd_iff_block [OF wf])
  qed
  have "inj_on (lpn_of t) ?Q"
    by (rule inj_on_inverseI [where g = "ppn_of t"]) (use map_okD(5) [OF m] q in blast)
  then have "card ?Q = card ((\<lambda>q. lpn_of t q) ` ?Q)" by (simp add: card_image)
  also have "\<dots> \<le> card U"
  proof (rule card_mono [OF U(1)], rule subsetI)
    fix x
    assume "x \<in> (\<lambda>q. lpn_of t q) ` ?Q"
    then obtain p where p: "x = lpn_of t p" "p \<in> ?Q" by blast
    have "in_ssd c x" "ppn_of t x = p"
      using map_okD(4,5) [OF m q(2,1,3) [OF p(2)]] by (simp_all add: p(1))
    moreover have "p \<noteq> -1" using q(1) [OF p(2)] by (simp add: in_ssd_def)
    ultimately show "x \<in> U" using U(2) by simp
  qed
  finally have "int (card ?Q) \<le> int (card U)" by simp
  moreover have "card ?Q = (\<Sum>a\<in>A. card (valid_pages c t a))"
    using fA card_valid_pages(1) [OF wf b ar] by (intro card_UN_disjoint) (auto simp: valid_pages_def)
  then have "int (card ?Q) = (\<Sum>a\<in>A. valid_page_nb (block_state_table t ! nat a))"
    using card_valid_pages(2) [OF wf b ar] by simp
  ultimately show ?thesis by simp
qed

lemma card_victims:
  assumes t: "lists_ok c t"
  shows "int (card (addr c ` set (all_victims t))) = total_victim_block_nb t"
    "addr c ` set (all_victims t) \<subseteq> listed c t"
proof -
  have vs: "addr c ` set (all_victims t) = (\<Union>k<reg_count c. addr c ` set (vchain t k))"
    by (auto simp: all_victims_set [OF t])
  have sub: "addr c ` set (vchain t k) \<subseteq> root_blocks c (echain t k) (vchain t k)" for k
    by (simp add: root_blocks_def)
  then show "addr c ` set (all_victims t) \<subseteq> listed c t" unfolding vs listed_def by blast
  have "card (\<Union>k<reg_count c. addr c ` set (vchain t k)) = (\<Sum>k<reg_count c. card (addr c ` set (vchain t k)))"
    using root_blocks_disjoint [OF t] sub by (intro card_UN_disjoint) (simp_all, blast)
  also have "\<dots> = (\<Sum>k<reg_count c. length (vchain t k))"
  proof (rule sum.cong [OF refl])
    fix k
    assume "k \<in> {..<reg_count c}"
    then have "distinct (map (addr c) (vchain t k))" using lists_okD(3) [OF t] by (simp add: chains_ok_def)
    from distinct_card [OF this] show "card (addr c ` set (vchain t k)) = length (vchain t k)" by simp
  qed
  finally show "int (card (addr c ` set (all_victims t))) = total_victim_block_nb t"
    using t by (simp add: vs lists_ok_def)
qed

lemma low_victim:
  assumes wf: "wf_config c" and t: "ftl_inv c t" and v: "0 < total_victim_block_nb t"
    and U: "finite U" "\<And>l. in_ssd c l \<Longrightarrow> ppn_of t l \<noteq> -1 \<Longrightarrow> l \<in> U"
    and le: "int (card U) \<le> p * total_victim_block_nb t"
  shows "\<exists>e\<in>set (all_victims t). valid_of c t e \<le> p"
proof (rule ccontr)
  assume n: "\<not> ?thesis"
  have l: "lists_ok c t" using t by (simp add: ftl_inv_def pages_ok_def)
  let ?A = "addr c ` set (all_victims t)"
  note A = card_victims [OF l]
  have "p + 1 \<le> valid_page_nb (block_state_table t ! nat a)" if "a \<in> ?A" for a
    using that n by (force simp: valid_of_def)
  then have "(\<Sum>a\<in>?A. p + 1) \<le> (\<Sum>a\<in>?A. valid_page_nb (block_state_table t ! nat a))" by (intro sum_mono)
  also have "\<dots> \<le> int (card U)" by (rule sum_valid_pages [OF wf t A(2) U])
  finally have "(p + 1) * total_victim_block_nb t \<le> int (card U)" using A(1) by (simp add: mult.commute)
  then show False using le v by (simp add: distrib_right)
qed

section \<open>A device with spare blocks never runs full\<close>

text \<open>
  \<open>spare c n U\<close>: the host uses only the logical pages \<open>U\<close> and at most \<open>n\<close> of them per
  request, and the pages of \<open>U\<close> would fit into the blocks that are not needed as open blocks
  even if \<open>n\<close> pages of every block stayed unused. \<open>provisioned\<close>: no block is lost, a
  block's worth of pages is free, and only pages of \<open>U\<close> are mapped.
\<close>

definition spare :: "ssd_config \<Rightarrow> int \<Rightarrow> int set \<Rightarrow> bool" where
  "spare c n U \<longleftrightarrow> finite U \<and> 0 < n \<and> 0 < GC_VICTIM_NB c \<and> FLASH_NB c < BLOCK_NB c * FLASH_NB c \<and>
     n \<le> PAGE_NB c \<and> int (card U) \<le> (PAGE_NB c - n) * (BLOCK_NB c * FLASH_NB c - FLASH_NB c)"

definition provisioned :: "ssd_config \<Rightarrow> int set \<Rightarrow> ftl_state \<Rightarrow> bool" where
  "provisioned c U t \<longleftrightarrow> listed c t = {0..<BLOCK_NB c * FLASH_NB c} \<and>
     PAGE_NB c \<le> int (card (free_pages c t)) \<and>
     (\<forall>l. in_ssd c l \<longrightarrow> ppn_of t l \<noteq> -1 \<longrightarrow> l \<in> U)"

lemma collect_keeps_free:
  assumes wf: "wf_config c" and t: "ftl_inv c (tables s)" and g: "collected c s (r, s')"
    and f: "r = SUCCESS \<or> PAGE_NB c \<le> int (card (free_pages c (tables s)))"
  shows "card (free_pages c (tables s)) \<le> card (free_pages c (tables s'))"
    "listed c (tables s') = listed c (tables s)"
proof -
  let ?t = "tables s" and ?t' = "tables s'"
  have l: "lists_ok c ?t" "blocks_ok c ?t" using t by (simp_all add: ftl_inv_def pages_ok_def)
  have "card (free_pages c ?t) \<le> card (free_pages c ?t') \<and> listed c ?t' = listed c ?t"
  proof (cases r)
    case SUCCESS
    then obtain e where "reclaimed c ?t ?t' e" using g by (auto simp: collected_def)
    then have "valid_of c ?t e < PAGE_NB c" "listed c ?t' = listed c ?t"
      "int (card (free_pages c ?t')) = int (card (free_pages c ?t)) + PAGE_NB c - valid_of c ?t e"
      by (simp_all add: reclaimed_def)
    then show ?thesis by linarith
  next
    case FAIL
    have "all_valid c ?t"
    proof (rule ccontr)
      assume "\<not> all_valid c ?t"
      then obtain e where e: "e \<in> set (all_victims ?t)" "int (card (free_pages c ?t)) < valid_of c ?t e"
        using g FAIL by (auto simp: collected_def stuck_def all_valid_def)
      obtain k where "k < reg_count c" "e \<in> set (vchain ?t k)" using e(1) by (auto simp: all_victims_set [OF l(1)])
      then have "valid_of c ?t e \<le> PAGE_NB c"
        using valid_of_le [OF l(2) victim_entry_in(1) [OF l]] wf_configD(2) [OF wf] by blast
      then show False using e(2) f FAIL by simp
    qed
    then obtain x where "?t' = ?t\<lparr>fail_cnt := x\<rparr>" using g FAIL by (auto simp: collected_def)
    then show ?thesis by (simp add: free_pages_def listed_def)
  qed
  then show "card (free_pages c ?t) \<le> card (free_pages c ?t')" "listed c ?t' = listed c ?t" by simp_all
qed

lemma gc_repeat_keeps_free:
  assumes wf: "wf_config c" "PLANES_PER_FLASH c = 1" and clk: "clock_advances gt"
    and s: "ftl_inv c (tables s)" "io_inv c (dev s)" "PAGE_NB c \<le> int (card (free_pages c (tables s)))"
  shows "returns (gc_repeat gt c n s) (\<lambda>s'. PAGE_NB c \<le> int (card (free_pages c (tables s'))) \<and>
    listed c (tables s') = listed c (tables s))"
  using s
proof (induction n arbitrary: s)
  case (Suc n)
  obtain r t where t: "GARBAGE_COLLECTION gt c s = Some (r, t)" "collected c s (r, t)"
    using GARBAGE_COLLECTION_collects [OF wf clk Suc.prems(1,2)] unfolding returns_def by auto
  note k = collect_keeps_free [OF wf(1) Suc.prems(1) t(2) disjI2 [OF Suc.prems(3)]]
  have i: "ftl_inv c (tables t)" "io_inv c (dev t)" "PAGE_NB c \<le> int (card (free_pages c (tables t)))"
    using t(2) k(1) Suc.prems(3) by (auto simp: collected_def io_quiet_def)
  show ?case using Suc.IH [OF i] k t(1) i by simp
qed simp

text \<open>
  Garbage collection after a write that left at least \<open>PAGE_NB - n\<close> pages free brings a whole
  block's worth of free pages back.
\<close>

lemma GC_CHECK_refills:
  assumes wf: "wf_config c" "PLANES_PER_FLASH c = 1" and clk: "clock_advances gt"
    and s: "ftl_inv c (tables s)" "io_inv c (dev s)" and sp: "spare c n U"
    and l: "listed c (tables s) = {0..<BLOCK_NB c * FLASH_NB c}"
    and U: "\<forall>l. in_ssd c l \<longrightarrow> ppn_of (tables s) l \<noteq> -1 \<longrightarrow> l \<in> U"
    and f: "PAGE_NB c - n \<le> int (card (free_pages c (tables s)))"
  shows "returns (GC_CHECK gt c s) (\<lambda>s'. PAGE_NB c \<le> int (card (free_pages c (tables s'))) \<and>
    listed c (tables s') = listed c (tables s))"
proof (cases "total_empty_block_nb (tables s) \<le> FLASH_NB c * PLANES_PER_FLASH c")
  case False
  have "lists_ok c (tables s)" using s(1) by (simp add: ftl_inv_def pages_ok_def)
  then have "PAGE_NB c \<le> int (card (free_pages c (tables s)))"
    using False wf wf_configD(4) [OF wf(1)] by (intro spare_empty_block) simp_all
  then show ?thesis using False by (simp add: GC_CHECK_def)
next
  case True
  let ?t = "tables s" and ?B = "BLOCK_NB c * FLASH_NB c"
  have lo: "lists_ok c ?t" using s(1) by (simp add: ftl_inv_def pages_ok_def)
  have sp': "finite U" "0 < n" "0 < GC_VICTIM_NB c" "FLASH_NB c < ?B" "n \<le> PAGE_NB c"
    "int (card U) \<le> (PAGE_NB c - n) * (?B - FLASH_NB c)" using sp by (simp_all add: spare_def)
  have "int (card (listed c ?t)) = ?B" using sp'(4) wf_configD(4) [OF wf(1)] by (simp add: l)
  then have tv: "?B - FLASH_NB c \<le> total_victim_block_nb ?t" using card_listed [OF lo] True wf(2) by simp
  have "(PAGE_NB c - n) * (?B - FLASH_NB c) \<le> (PAGE_NB c - n) * total_victim_block_nb ?t"
    using tv sp'(5) by (intro mult_left_mono) simp_all
  then have "int (card U) \<le> (PAGE_NB c - n) * total_victim_block_nb ?t" using sp'(6) by linarith
  then obtain e where e: "e \<in> set (all_victims ?t)" "valid_of c ?t e \<le> PAGE_NB c - n"
    using low_victim [OF wf(1) s(1) _ sp'(1) _] U tv sp'(4) by fastforce
  obtain r s1 where g: "GARBAGE_COLLECTION gt c s = Some (r, s1)" "collected c s (r, s1)"
    using GARBAGE_COLLECTION_collects [OF wf clk s] unfolding returns_def by auto
  have "\<not> stuck c ?t" using e f sp'(2) unfolding stuck_def all_valid_def by force
  then have r: "r = SUCCESS" using g(2) by (cases r) (auto simp: collected_def)
  then obtain e' where e': "reclaimed c ?t (tables s1) e'" using g(2) by (auto simp: collected_def)
  then have "valid_of c ?t e' \<le> PAGE_NB c - n"
    "int (card (free_pages c (tables s1))) = int (card (free_pages c ?t)) + PAGE_NB c - valid_of c ?t e'"
    using e by (auto simp: reclaimed_def)
  then have f1: "PAGE_NB c \<le> int (card (free_pages c (tables s1)))" using f by linarith
  have i1: "ftl_inv c (tables s1)" "io_inv c (dev s1)" using g(2) by (auto simp: collected_def io_quiet_def)
  have l1: "listed c (tables s1) = listed c ?t" using e' by (simp add: reclaimed_def)
  obtain m where m: "nat (GC_VICTIM_NB c) = Suc m" using sp'(3) by (cases "nat (GC_VICTIM_NB c)") auto
  show ?thesis
    using gc_repeat_keeps_free [OF wf clk i1 f1, of m] True g(1) r l1 by (simp add: GC_CHECK_def m)
qed

lemma FTL_WRITE_impl_provisioned:
  assumes wf: "wf_config c" "PLANES_PER_FLASH c = 1" and clk: "clock_advances gt"
    and t: "ftl_inv c (tables s)" and d: "idle c (dev s)" "io_request_seq_nb (dev s) \<noteq> -1"
    and r: "in_range c sector_nb len" and sp: "spare c n U" and pv: "provisioned c U (tables s)"
    and A: "request_pages c sector_nb len \<subseteq> U" "int (card (request_pages c sector_nb len)) \<le> n"
  shows "returns (FTL_WRITE_impl gt c sector_nb len s) (\<lambda>(ret, s'). ret = SUCCESS \<and>
    ftl_inv c (tables s') \<and> idle c (dev s') \<and> io_request_seq_nb (dev s') = io_request_seq_nb (dev s) + 1 \<and>
    provisioned c U (tables s'))"
proof (rule FTL_WRITE_impl_enough [OF wf(1) clk t d r])
  fix s'
  let ?A = "request_pages c sector_nb len"
  assume "card (free_pages c (tables s)) < card ?A"
  then have False using A(2) sp pv unfolding spare_def provisioned_def by linarith
  then show ?thesis ..
next
  fix s3
  let ?A = "request_pages c sector_nb len"
  assume a: "card ?A \<le> card (free_pages c (tables s))"
    "FTL_WRITE_impl gt c sector_nb len s = map_option (Pair SUCCESS) (GC_CHECK gt c s3)"
    "ftl_inv c (tables s3)" "idle c (dev s3)" "io_request_seq_nb (dev s3) = io_request_seq_nb (dev s) + 1"
    "written c ?A (tables s) (tables s3)"
  have io: "io_inv c (dev s3)" using a(4) by (simp add: idle_def)
  have l3: "listed c (tables s3) = {0..<BLOCK_NB c * FLASH_NB c}"
    "PAGE_NB c - n \<le> int (card (free_pages c (tables s3)))"
    using a(6) pv A(2) by (simp_all add: written_def provisioned_def)
  have U: "\<forall>l. in_ssd c l \<longrightarrow> ppn_of (tables s3) l \<noteq> -1 \<longrightarrow> l \<in> U"
    using written_mapped [OF wf(1) t a(6)] A(1) pv by (auto simp: provisioned_def)
  obtain s4 where g: "GC_CHECK gt c s3 = Some s4" "ftl_inv c (tables s4)" "io_quiet c (dev s3) (dev s4)"
    "same_mapped c (tables s3) (tables s4)" "PAGE_NB c \<le> int (card (free_pages c (tables s4)))"
    "listed c (tables s4) = listed c (tables s3)"
    using returns_conj [OF GC_CHECK_collects [OF wf clk a(3) io] GC_CHECK_refills [OF wf clk a(3) io sp l3(1) U l3(2)]]
    unfolding returns_def by blast
  have "provisioned c U (tables s4)" using g l3(1) U by (simp add: provisioned_def same_mapped_def)
  then show ?thesis using a(2,5) g idle_quiet [OF a(4) g(3)] by simp
qed

text \<open>A sequence of writes that must all succeed.\<close>

definition write_all :: "clock \<Rightarrow> ssd_config \<Rightarrow> (int \<times> int) list \<Rightarrow> ssd \<Rightarrow> ssd option" where
  "write_all gt c = ofold (\<lambda>(sector_nb, len) s. do {
     (ret, s) \<leftarrow> FTL_WRITE_impl gt c sector_nb len s;
     if ret = SUCCESS then Some s else None
   })"

lemma write_all_provisioned:
  assumes wf: "wf_config c" "PLANES_PER_FLASH c = 1" and clk: "clock_advances gt" and sp: "spare c n U"
    and s: "ftl_inv c (tables s)" "idle c (dev s)" "provisioned c U (tables s)"
    and q: "unat (io_request_seq_nb (dev s)) + length rs \<le> 4294967295"
    and rs: "\<forall>(sector_nb, len)\<in>set rs. in_range c sector_nb len \<and> request_pages c sector_nb len \<subseteq> U \<and>
      int (card (request_pages c sector_nb len)) \<le> n"
  shows "returns (write_all gt c rs s) (\<lambda>s'. ftl_inv c (tables s') \<and> idle c (dev s') \<and> provisioned c U (tables s'))"
  using s q rs
proof (induction rs arbitrary: s)
  case Nil
  then show ?case by (simp add: write_all_def)
next
  case (Cons x rs)
  obtain sec len where x: "x = (sec, len)" by (cases x)
  have r: "in_range c sec len" "request_pages c sec len \<subseteq> U" "int (card (request_pages c sec len)) \<le> n"
    using Cons.prems(5) x by simp_all
  note sq = seq_step [OF order_refl, of "io_request_seq_nb (dev s)"]
  have lt: "unat (io_request_seq_nb (dev s)) < 4294967295" using Cons.prems(4) by simp
  obtain s' where s': "FTL_WRITE_impl gt c sec len s = Some (SUCCESS, s')" "ftl_inv c (tables s')" "idle c (dev s')"
    "io_request_seq_nb (dev s') = io_request_seq_nb (dev s) + 1" "provisioned c U (tables s')"
    using FTL_WRITE_impl_provisioned [OF wf clk Cons.prems(1,2) sq(1) [OF lt] r(1) sp Cons.prems(3) r(2,3)]
    unfolding returns_def by blast
  have "unat (io_request_seq_nb (dev s')) + length rs \<le> 4294967295" using sq(2) [OF lt] s'(4) Cons.prems(4) by simp
  moreover have "\<forall>(sector_nb, len)\<in>set rs. in_range c sector_nb len \<and> request_pages c sector_nb len \<subseteq> U \<and>
      int (card (request_pages c sector_nb len)) \<le> n" using Cons.prems(5) by simp
  ultimately have "returns (write_all gt c rs s') (\<lambda>s'. ftl_inv c (tables s') \<and> idle c (dev s') \<and> provisioned c U (tables s'))"
    by (rule Cons.IH [OF s'(2,3,5)])
  then show ?case using s'(1) by (simp add: write_all_def x)
qed

lemma new_device_provisioned:
  assumes wf: "wf_config c" and t: "new_device c t"
  shows "provisioned c U t"
proof -
  note l = new_device_lists [OF wf t] and P = wf_configD(2) [OF wf]
  have "a \<in> listed c t" if a: "0 \<le> a" "a < BLOCK_NB c * FLASH_NB c" for a
  proof -
    note q = in_ssd_page [OF a order_refl P]
    have "a * PAGE_NB c + 0 \<in> free_pages c t" using q(1) new_device_free [OF wf t] by blast
    then show ?thesis using free_pages_listed [OF l] q(2) by metis
  qed
  then have li: "listed c t = {0..<BLOCK_NB c * FLASH_NB c}" using listed_range [OF l] by auto
  have "{q. q div PAGE_NB c = 0} \<subseteq> free_pages c t"
    using wf_configD(3,4) [OF wf] by (auto simp: new_device_free [OF wf t] in_ssd_iff_block [OF wf])
  then have "card {q. q div PAGE_NB c = 0} \<le> card (free_pages c t)" by (rule card_mono [OF finite_free_pages [OF wf l]])
  then show ?thesis using li new_device_inv(2) [OF wf t] card_block_pages(2) [OF P, of 0] by (simp add: provisioned_def)
qed

end
