(* ===== verification/Host_Spec.thy ===== *)
theory Host_Spec
  imports Provisioning
begin

text \<open>
  What the device promises its host, and that it keeps the promise. To the host the device is
  the set of logical pages that were ever written: a read succeeds if all its pages are in the
  set, a write succeeds and adds its pages, and switching the device off and on again loses
  nothing.
\<close>

datatype host_op = Host_Read int int | Host_Write int int | Host_Restart

fun spec_op :: "ssd_config \<Rightarrow> host_op \<Rightarrow> int set \<Rightarrow> status \<times> int set" where
  "spec_op c (Host_Read sector_nb len) A =
     (if request_pages c sector_nb len \<subseteq> A then SUCCESS else FAIL, A)"
| "spec_op c (Host_Write sector_nb len) A = (SUCCESS, A \<union> request_pages c sector_nb len)"
| "spec_op c Host_Restart A = (SUCCESS, A)"

text \<open>
  The same on the model of the code. A restart saves the tables over the files \<open>d0\<close>, and then
  the process starts with the globals \<open>s0\<close> and reads the configuration file \<open>conf\<close> again.
\<close>

fun run_op ::
  "clock \<Rightarrow> ssd_config \<Rightarrow> string option \<Rightarrow> disk \<Rightarrow> ssd \<Rightarrow> host_op \<Rightarrow> ssd \<Rightarrow> (status \<times> ssd) option" where
  "run_op gt c conf d0 s0 (Host_Read sector_nb len) s = FTL_READ_impl gt c sector_nb len s"
| "run_op gt c conf d0 s0 (Host_Write sector_nb len) s = FTL_WRITE_impl gt c sector_nb len s"
| "run_op gt c conf d0 s0 Host_Restart s = do {
     d \<leftarrow> SSD_TERM c s d0;
     (c', s') \<leftarrow> SSD_INIT conf d (zero_config, s0);
     Some (SUCCESS, s')
   }"

definition mapped :: "ssd_config \<Rightarrow> ftl_state \<Rightarrow> int set" where
  "mapped c t = {l. in_ssd c l \<and> ppn_of t l \<noteq> -1}"

text \<open>
  Requests the host may issue: ranges of existing sectors, writes to at most \<open>n\<close> pages, all
  of them in \<open>U\<close>.
\<close>

fun allowed :: "ssd_config \<Rightarrow> int \<Rightarrow> int set \<Rightarrow> host_op \<Rightarrow> bool" where
  "allowed c n U (Host_Read sector_nb len) = in_range c sector_nb len"
| "allowed c n U (Host_Write sector_nb len) \<longleftrightarrow> in_range c sector_nb len \<and>
     request_pages c sector_nb len \<subseteq> U \<and> int (card (request_pages c sector_nb len)) \<le> n"
| "allowed c n U Host_Restart = True"

text \<open>
  The surroundings in which the device keeps the promise: a well-formed configuration with one
  plane per chip, which the restarted process reads again, a clock that advances, and spare
  blocks. \<open>ready_for c U k s\<close>: the device can serve the host, and \<open>k\<close> more requests fit
  into the 32-bit request numbers.
\<close>

definition surroundings ::
  "clock \<Rightarrow> ssd_config \<Rightarrow> string option \<Rightarrow> ssd \<Rightarrow> int \<Rightarrow> int set \<Rightarrow> bool" where
  "surroundings gt c conf s0 n U \<longleftrightarrow> wf_config c \<and> PLANES_PER_FLASH c = 1 \<and> clock_advances gt \<and>
     INIT_SSD_CONFIG False conf zero_config = Some c \<and> g_init s0 = 0 \<and> spare c n U"

definition ready_for :: "ssd_config \<Rightarrow> int set \<Rightarrow> nat \<Rightarrow> ssd \<Rightarrow> bool" where
  "ready_for c U k s \<longleftrightarrow> ftl_inv c (tables s) \<and> idle c (dev s) \<and> provisioned c U (tables s) \<and>
     unat (io_request_seq_nb (dev s)) + k \<le> 4294967295"

lemma ready_forD:
  assumes "ready_for c U (Suc k) s"
  shows "ftl_inv c (tables s)" "idle c (dev s)" "provisioned c U (tables s)"
    "io_request_seq_nb (dev s) \<noteq> -1" "unat (io_request_seq_nb (dev s) + 1) + k \<le> 4294967295"
    "unat (io_request_seq_nb (dev s)) + k \<le> 4294967295"
proof -
  have b: "unat (io_request_seq_nb (dev s)) < 4294967295" "unat (io_request_seq_nb (dev s)) + k < 4294967295"
    using assms by (simp_all add: ready_for_def)
  show "io_request_seq_nb (dev s) \<noteq> -1" "unat (io_request_seq_nb (dev s) + 1) + k \<le> 4294967295"
    using seq_step [OF order_refl b(1)] b(2) by simp_all
  show "ftl_inv c (tables s)" "idle c (dev s)" "provisioned c U (tables s)"
    "unat (io_request_seq_nb (dev s)) + k \<le> 4294967295"
    using assms by (simp_all add: ready_for_def)
qed

lemma mapped_request:
  assumes "wf_config c" "in_range c sector_nb len"
  shows "request_pages c sector_nb len \<subseteq> mapped c t \<longleftrightarrow>
    (\<forall>l\<in>request_pages c sector_nb len. ppn_of t l \<noteq> -1)"
  using request_pages_in_ssd [OF assms(1)] assms(2) by (auto simp: mapped_def in_range_def)

text \<open>The two kinds of request refine the specification.\<close>

lemma host_read_refines:
  assumes wf: "wf_config c" and clk: "clock_advances gt" and s: "ready_for c U (Suc k) s"
    and r: "in_range c sec len"
  shows "returns (FTL_READ_impl gt c sec len s) (\<lambda>(r, s'). ready_for c U k s' \<and>
    (r, mapped c (tables s')) = spec_op c (Host_Read sec len) (mapped c (tables s)))"
  using FTL_READ_impl_result [OF wf clk ready_forD(1,2,4) [OF s] r] ready_forD [OF s]
    mapped_request [OF wf r, of "tables s"]
  by (auto simp: returns_def ready_for_def split: if_splits)

lemma host_write_refines:
  assumes wf: "wf_config c" "PLANES_PER_FLASH c = 1" and clk: "clock_advances gt" and sp: "spare c n U"
    and s: "ready_for c U (Suc k) s" and r: "in_range c sec len" "request_pages c sec len \<subseteq> U"
      "int (card (request_pages c sec len)) \<le> n"
  shows "returns (FTL_WRITE_impl gt c sec len s) (\<lambda>(r, s'). ready_for c U k s' \<and>
    (r, mapped c (tables s')) = spec_op c (Host_Write sec len) (mapped c (tables s)))"
proof -
  note d = ready_forD [OF s]
  obtain ret s' where w: "FTL_WRITE_impl gt c sec len s = Some (ret, s')" "ret = SUCCESS" "ftl_inv c (tables s')"
    "idle c (dev s')" "io_request_seq_nb (dev s') = io_request_seq_nb (dev s) + 1" "provisioned c U (tables s')"
    "write_result c sec len s ret s'"
    using returns_conj [OF FTL_WRITE_impl_provisioned [OF wf clk d(1,2,4) r(1) sp d(3) r(2,3)]
        FTL_WRITE_impl_result [OF wf clk d(1,2,4) r(1)]] unfolding returns_def by auto
  have "mapped c (tables s') = mapped c (tables s) \<union> request_pages c sec len"
    using w(2,7) request_pages_in_ssd [OF wf(1)] r(1)
    by (auto simp: write_result_def mapped_def in_range_def split: if_splits)
  then show ?thesis using w d(5) by (simp add: ready_for_def)
qed

lemma run_op_refines:
  assumes h: "surroundings gt c conf s0 n U" and s: "ready_for c U (Suc k) s" and x: "allowed c n U x"
  shows "returns (run_op gt c conf d0 s0 x s) (\<lambda>(r, s'). ready_for c U k s' \<and>
    (r, mapped c (tables s')) = spec_op c x (mapped c (tables s)))"
proof -
  have wf: "wf_config c" "PLANES_PER_FLASH c = 1" and clk: "clock_advances gt"
    and conf: "INIT_SSD_CONFIG False conf zero_config = Some c" "g_init s0 = 0" and sp: "spare c n U"
    using h by (simp_all add: surroundings_def)
  show ?thesis
  proof (cases x)
    case (Host_Read sec len)
    then show ?thesis using host_read_refines [OF wf(1) clk s] x by simp
  next
    case (Host_Write sec len)
    then show ?thesis using host_write_refines [OF wf clk sp s] x by simp
  next
    case Host_Restart
    note d = ready_forD [OF s]
    obtain d' where t: "SSD_TERM c s d0 = Some d'"
      using term_tables_saves [OF wf(1) d(1)] by (auto simp: SSD_TERM_def FTL_TERM_def)
    obtain s' where i: "SSD_INIT conf d' (zero_config, s0) = Some (c, s')" "ftl_inv c (tables s')" "idle c (dev s')"
      "io_request_seq_nb (dev s') = 0" "tables s' = (tables s)\<lparr>empty_block_table_index := 0,
        gc_count := gc_count (tables s0), fail_cnt := fail_cnt (tables s0)\<rparr>"
      using FTL_INIT_restart [OF conf(1) wf(1) conf(2) d(1) t [unfolded SSD_TERM_def]]
      unfolding returns_def SSD_INIT_def by auto
    have "provisioned c U (tables s')" "mapped c (tables s') = mapped c (tables s)"
      using d(3) i(5) by (simp_all add: provisioned_def mapped_def listed_def free_pages_def)
    then show ?thesis using t i d(6) Host_Restart by (simp add: ready_for_def)
  qed
qed

interpretation host: implements "run_op gt c conf d0 s0" "spec_op c" "\<lambda>s. mapped c (tables s)"
  "\<lambda>k s. surroundings gt c conf s0 n U \<and> ready_for c U k s" "allowed c n U"
  for gt c conf d0 s0 n U
  by unfold_locales (use run_op_refines in \<open>auto intro: returns_mono\<close>)

end
