(* ===== verification/Small_Device.thy ===== *)
theory Small_Device
  imports Host_Spec
begin

text \<open>
  A concrete device on which the theorems of the development are instantiated: two chips of
  three blocks of two pages of two sectors, one plane per chip, one channel, and a clock that
  advances by a second with every call.
\<close>

definition small_text :: string where
  "small_text = ''PAGE_SIZE 1024 PAGE_NB 2 SECTOR_SIZE 512 FLASH_NB 2 BLOCK_NB 3 PLANES_PER_FLASH 1 CHANNEL_NB 1''"

definition small_conf :: ssd_config where
  "small_conf = zero_config\<lparr>PAGE_SIZE := 1024, PAGE_NB := 2, SECTOR_SIZE := 512, FLASH_NB := 2, BLOCK_NB := 3,
     PLANES_PER_FLASH := 1, CHANNEL_NB := 1\<rparr>"

definition small :: ssd_config where
  "small = (case derive_config False small_conf of Some c \<Rightarrow> c | None \<Rightarrow> small_conf)"

definition tick :: clock where
  "tick n = (int n, 0)"

text \<open>The globals before \<^verbatim>\<open>SSD_INIT\<close>.\<close>

definition off_tables :: ftl_state where
  "off_tables = \<lparr>mapping_table = [], inverse_mapping_table = [], block_state_table = [], empty_block_list = [],
     victim_block_list = [], total_empty_block_nb = 0, total_victim_block_nb = 0, empty_block_table_index = 0,
     gc_count = 0, fail_cnt = 0\<rparr>"

definition off_dev :: io_state where
  "off_dev = \<lparr>ticks = 0, stat = (\<lambda>_. zero_stat), io_request_nb = 0, io_request_seq_nb = 0, io_requests = [],
     read_latency_count = 0, write_latency_count = 0, avg_read_latency = 0, avg_write_latency = 0,
     ssd_util = 0, written_page_nb = 0, reg_io_cmd = [], reg_io_type = [], reg_io_time = [], cell_io_time = [],
     access_nb = [], io_overhead = [], old_channel_nb = 0, old_channel_cmd = NOOP, old_channel_time = 0,
     init_diff_reg = 0, io_alloc_overhead = 0, io_update_overhead = 0\<rparr>"

definition off_ssd :: ssd where
  "off_ssd = \<lparr>tables = off_tables, dev = off_dev, g_init = 0\<rparr>"

definition small_ssd :: ssd where
  "small_ssd = (case SSD_INIT (Some small_text) no_files (zero_config, off_ssd) of
     Some (c, s) \<Rightarrow> s | None \<Rightarrow> off_ssd)"

lemma tick_advances: "clock_advances tick"
  unfolding clock_advances_def
proof (intro allI)
  fix n :: nat and t :: int
  have "t \<le> usec_at tick (max n (nat t))" by (simp add: usec_at_def tick_def)
  then show "\<exists>m\<ge>n. t \<le> usec_at tick m" by (intro exI [of _ "max n (nat t)"]) simp
qed

lemma small_scan: "scan_conf False small_text zero_config = Some small_conf"
  by code_simp

lemma small_valid: "valid_conf small_conf"
  by (simp add: valid_conf_def small_conf_def zero_config_def in_int_def)

lemma small_derived:
  "derive_config False small_conf = Some small" "wf_config small"
  "PAGE_NB small = 2" "BLOCK_NB small = 3" "FLASH_NB small = 2" "CHANNEL_NB small = 1"
  "PLANES_PER_FLASH small = 1" "SECTORS_PER_PAGE small = 2" "GC_VICTIM_NB small = 20"
proof -
  obtain c where c: "derive_config False small_conf = Some c" "wf_config c" "PAGE_NB c = 2" "BLOCK_NB c = 3"
    "FLASH_NB c = 2" "CHANNEL_NB c = 1" "PLANES_PER_FLASH c = 1" "SECTORS_PER_PAGE c = 2" "GC_VICTIM_NB c = 20"
    using derive_config_wf [OF small_valid] unfolding returns_def by (auto simp: small_conf_def zero_config_def)
  moreover have "small = c" using c(1) by (simp add: small_def)
  ultimately show "derive_config False small_conf = Some small" "wf_config small"
    "PAGE_NB small = 2" "BLOCK_NB small = 3" "FLASH_NB small = 2" "CHANNEL_NB small = 1"
    "PLANES_PER_FLASH small = 1" "SECTORS_PER_PAGE small = 2" "GC_VICTIM_NB small = 20" by simp_all
qed

lemma small_sectors: "SECTOR_NB small = 24" "EMPTY_TABLE_ENTRY_NB small = 2" "WAY_NB small = 2"
  using small_derived(2-8) by (simp_all add: wf_config_def)

lemma small_delays: "REG_WRITE_DELAY small = 0" "CELL_READ_DELAY small = 0"
  by (simp_all add: small_def derive_config_def small_conf_def zero_config_def gc_victim_count_def
      cdiv_def imul_def lmul_def in_int_def in_long_def)

lemma small_config: "INIT_SSD_CONFIG False (Some small_text) zero_config = Some small"
  by (simp add: INIT_SSD_CONFIG_def small_scan small_derived)

lemma small_start:
  "SSD_INIT (Some small_text) no_files (zero_config, off_ssd) = Some (small, small_ssd)"
  "new_device small (tables small_ssd)" "idle small (dev small_ssd)" "io_request_seq_nb (dev small_ssd) = 0"
proof -
  have "g_init off_ssd = 0" by (simp add: off_ssd_def)
  then obtain s where s: "SSD_INIT (Some small_text) no_files (zero_config, off_ssd) = Some (small, s)"
    "new_device small (tables s)" "idle small (dev s)" "io_request_seq_nb (dev s) = 0"
    using FTL_INIT_new [OF small_config small_derived(2), of off_ssd] unfolding returns_def SSD_INIT_def by auto
  moreover have "small_ssd = s" using s(1) by (simp add: small_ssd_def)
  ultimately show "SSD_INIT (Some small_text) no_files (zero_config, off_ssd) = Some (small, small_ssd)"
    "new_device small (tables small_ssd)" "idle small (dev small_ssd)" "io_request_seq_nb (dev small_ssd) = 0"
    by simp_all
qed

lemma small_inv: "ftl_inv small (tables small_ssd)"
  by (rule new_device_inv(1) [OF small_derived(2) small_start(2)])

lemma small_reached: "reached tick small 0 small_ssd"
  by (rule reached.start [OF small_config _ small_start(1)]) (simp add: off_ssd_def)

lemma small_pages:
  "request_pages small 0 2 = {0}" "request_pages small 0 4 = {0, 1}"
  "request_pages small 2 2 = {1}" "request_pages small 1 2 = {0, 1}"
proof -
  have "{0..<2 :: int} = {0, 1}" "{0..<4 :: int} = {0, 1, 2, 3}" "{2..<4 :: int} = {2, 3}" "{1..<3 :: int} = {1, 2}" by auto
  then show "request_pages small 0 2 = {0}" "request_pages small 0 4 = {0, 1}"
    "request_pages small 2 2 = {1}" "request_pages small 1 2 = {0, 1}"
    by (auto simp: request_pages_def small_derived)
qed

lemma small_in_range: "in_range small 0 2" "in_range small 0 4" "in_range small 2 2" "in_range small 1 2"
  by (simp_all add: in_range_def small_derived small_sectors page_span_def)

lemma small_spare: "spare small 1 {0, 1, 2, 3}"
  by (simp add: spare_def small_derived)

lemma small_surroundings: "surroundings tick small (Some small_text) off_ssd 1 {0, 1, 2, 3}"
  using small_derived small_spare tick_advances small_config by (simp add: surroundings_def off_ssd_def)

lemma small_mapped: "mapped small (tables small_ssd) = {}"
  using new_device_inv(2) [OF small_derived(2) small_start(2)] by (simp add: mapped_def)

lemma small_ready: "k \<le> 4294967295 \<Longrightarrow> ready_for small {0, 1, 2, 3} k small_ssd"
  using small_inv small_start new_device_provisioned [OF small_derived(2) small_start(2)] by (simp add: ready_for_def)

text \<open>The device after its first page was written.\<close>

definition small_one :: ssd where
  "small_one = (case FTL_WRITE_impl tick small 0 2 small_ssd of Some (r, s) \<Rightarrow> s | None \<Rightarrow> small_ssd)"

lemma small_write:
  "FTL_WRITE_impl tick small 0 2 small_ssd = Some (SUCCESS, small_one)"
  "ready_for small {0, 1, 2, 3} 1000 small_one" "mapped small (tables small_one) = {0}"
proof -
  have "returns (run_op tick small (Some small_text) no_files off_ssd (Host_Write 0 2) small_ssd)
    (\<lambda>(r, s'). ready_for small {0, 1, 2, 3} 1000 s' \<and>
      (r, mapped small (tables s')) = spec_op small (Host_Write 0 2) (mapped small (tables small_ssd)))"
    by (rule run_op_refines [OF small_surroundings small_ready]) (simp_all add: small_in_range small_pages)
  then obtain s where s: "FTL_WRITE_impl tick small 0 2 small_ssd = Some (SUCCESS, s)"
    "ready_for small {0, 1, 2, 3} 1000 s" "mapped small (tables s) = {0}"
    by (auto simp: returns_def small_mapped small_pages)
  moreover have "small_one = s" using s(1) by (simp add: small_one_def)
  ultimately show "FTL_WRITE_impl tick small 0 2 small_ssd = Some (SUCCESS, small_one)"
    "ready_for small {0, 1, 2, 3} 1000 small_one" "mapped small (tables small_one) = {0}" by simp_all
qed

lemma small_one_reached: "reached tick small 1 small_one"
  using reached.wrote [OF small_reached _ small_in_range(1) small_write(1)] by simp

text \<open>
  The tables of the same device in use: block 0 (chip 0) and block 3 (chip 1) are full, the
  first with one and the second with two valid pages, and block 4 is half written.
\<close>

definition block_row :: "string \<Rightarrow> int \<Rightarrow> block_state_entry" where
  "block_row marks n = \<lparr>valid_page_nb = n, bs_type = DATA_BLOCK, erase_count = 0, valid_array = marks\<rparr>"

definition worn :: ftl_state where
  "worn = \<lparr>mapping_table = [0, 6, 7, 8, -1, -1, -1, -1, -1, -1, -1, -1],
     inverse_mapping_table = [0, -1, -1, -1, -1, -1, 1, 2, 3, -1, -1, -1],
     block_state_table = [block_row ''VI'' 1, block_row ''00'' 0, block_row ''00'' 0,
       block_row ''VV'' 2, block_row ''V0'' 1, block_row ''00'' 0],
     empty_block_list = [mk_empty [\<lparr>phy_flash_nb = 0, phy_block_nb = 1, curr_phy_page_nb = 0\<rparr>,
         \<lparr>phy_flash_nb = 0, phy_block_nb = 2, curr_phy_page_nb = 0\<rparr>],
       mk_empty [\<lparr>phy_flash_nb = 1, phy_block_nb = 1, curr_phy_page_nb = 1\<rparr>,
         \<lparr>phy_flash_nb = 1, phy_block_nb = 2, curr_phy_page_nb = 0\<rparr>]],
     victim_block_list = [mk_victim [\<lparr>phy_flash_nb = 0, phy_block_nb = 0\<rparr>],
       mk_victim [\<lparr>phy_flash_nb = 1, phy_block_nb = 0\<rparr>]],
     total_empty_block_nb = 4, total_victim_block_nb = 2, empty_block_table_index = 0, gc_count = 0, fail_cnt = 0\<rparr>"

definition worn_ssd :: ssd where
  "worn_ssd = small_ssd\<lparr>tables := worn\<rparr>"

lemma below2: "k < (2 :: nat) \<longleftrightarrow> k = 0 \<or> k = 1" "{..<2 :: nat} = {0, 1}" by auto

lemma small_regs: "reg_count small = 2" by (simp add: small_derived)

lemma small_in_ssd:
  "in_ssd small l \<longleftrightarrow> l = 0 \<or> l = 1 \<or> l = 2 \<or> l = 3 \<or> l = 4 \<or> l = 5 \<or> l = 6 \<or> l = 7 \<or> l = 8 \<or> l = 9 \<or> l = 10 \<or> l = 11"
  by (simp add: in_ssd_def small_derived) presburger

lemma worn_lists: "lists_ok small worn"
  unfolding lists_ok_def small_regs below2
  by (auto simp: worn_def chains_ok_def entry_ok_def block_index_def root_index_def small_derived)

lemma worn_blocks: "blocks_ok small worn"
  by (simp add: blocks_ok_def worn_def small_derived block_row_def)

lemma worn_free: "free_pages small worn = {2, 3, 4, 5, 9, 10, 11}"
proof -
  have "q div 2 = 1 \<and> 0 \<le> q mod 2 \<longleftrightarrow> q = 2 \<or> q = 3" "q div 2 = 2 \<and> 0 \<le> q mod 2 \<longleftrightarrow> q = 4 \<or> q = 5"
    "q div 2 = 4 \<and> 1 \<le> q mod 2 \<longleftrightarrow> q = 9" "q div 2 = 5 \<and> 0 \<le> q mod 2 \<longleftrightarrow> q = 10 \<or> q = 11" for q :: int
    by presburger+
  then show ?thesis
    unfolding free_pages_def small_regs below2
    by (auto simp: worn_def entry_free_def block_index_def small_derived)
qed

lemma worn_listed: "listed small worn = {0, 1, 2, 3, 4, 5}"
  unfolding listed_def small_regs below2
  by (auto simp: worn_def root_blocks_def block_index_def small_derived)

lemma worn_map: "map_ok small UNIV L worn"
  unfolding map_ok_def small_in_ssd
  by (auto simp: worn_def small_derived page_state_def block_row_def)

lemma worn_inv: "ftl_inv small worn"
  unfolding ftl_inv_def pages_ok_def using worn_lists worn_blocks worn_map
  by (auto simp: worn_free) (simp_all add: page_state_def worn_def small_derived block_row_def)

lemma worn_victims: "all_victims worn = [\<lparr>phy_flash_nb = 0, phy_block_nb = 0\<rparr>, \<lparr>phy_flash_nb = 1, phy_block_nb = 0\<rparr>]"
  "valid_of small worn \<lparr>phy_flash_nb = 0, phy_block_nb = 0\<rparr> = 1"
  "valid_of small worn \<lparr>phy_flash_nb = 1, phy_block_nb = 0\<rparr> = 2"
  by (simp_all add: all_victims_def valid_of_def worn_def block_row_def block_index_def small_derived)

lemma worn_idle: "idle small (dev worn_ssd)" "io_inv small (dev worn_ssd)" "io_request_seq_nb (dev worn_ssd) = 0"
  using small_start(3,4) by (simp_all add: worn_ssd_def idle_def)

lemma worn_ssd_tables [simp]: "tables worn_ssd = worn"
  by (simp add: worn_ssd_def)

lemma worn_mapping [simp]: "mapping_table worn = [0, 6, 7, 8, -1, -1, -1, -1, -1, -1, -1, -1]"
  by (simp add: worn_def)

text \<open>The device with every page in use.\<close>

definition full :: ftl_state where
  "full = worn\<lparr>mapping_table := [0..11], inverse_mapping_table := [0..11],
     block_state_table := replicate 6 (block_row ''VV'' 2),
     empty_block_list := [mk_empty [], mk_empty []],
     victim_block_list := map (\<lambda>f. mk_victim (map (\<lambda>b. \<lparr>phy_flash_nb = f, phy_block_nb = b\<rparr>) [0..2])) [0..1],
     total_empty_block_nb := 0, total_victim_block_nb := 6\<rparr>"

definition full_ssd :: ssd where
  "full_ssd = small_ssd\<lparr>tables := full\<rparr>"

lemma full_ssd_fields [simp]: "tables full_ssd = full" "dev full_ssd = dev small_ssd"
  by (simp_all add: full_ssd_def)

lemma upto_small: "[0..1 :: int] = [0, 1]" "[0..2 :: int] = [0, 1, 2]"
  "[0..11 :: int] = [0, 1, 2, 3, 4, 5, 6, 7, 8, 9, 10, 11]"
  by (simp_all add: upto_rec1)

lemma full_lists: "lists_ok small full"
  unfolding lists_ok_def small_regs below2
  by (auto simp: full_def worn_def upto_small chains_ok_def entry_ok_def block_index_def root_index_def small_derived)

lemma full_free: "free_pages small full = {}"
  unfolding free_pages_def small_regs below2 by (simp add: full_def worn_def)

lemma full_map: "map_ok small UNIV L full"
  unfolding map_ok_def small_in_ssd
  by (auto simp: full_def worn_def upto_small small_derived page_state_def block_row_def numeral_nat)

lemma full_inv: "ftl_inv small full"
  unfolding ftl_inv_def pages_ok_def using full_lists full_map
  by (auto simp: full_free) (simp add: blocks_ok_def full_def worn_def small_derived block_row_def)

lemma small_dev: "dev small_ssd = SSD_IO_INIT small (INIT_PERF_CHECKER off_dev)"
  using small_start(1) small_config
  by (cases "init_tables small no_files off_tables") (auto simp: SSD_INIT_def FTL_INIT_def off_ssd_def dest!: arg_cong [where f = dev])

lemma small_reqs: "reqs_ok (dev small_ssd)" "io_requests (dev small_ssd) = []" "io_request_nb (dev small_ssd) = 0"
  by (simp_all add: small_dev SSD_IO_INIT_def INIT_PERF_CHECKER_def reqs_ok_def)

lemma full_chains: "echain full (Suc 0) = []" "vchain full (Suc 0) = [\<lparr>phy_flash_nb = 1, phy_block_nb = 0\<rparr>,
    \<lparr>phy_flash_nb = 1, phy_block_nb = 1\<rparr>, \<lparr>phy_flash_nb = 1, phy_block_nb = 2\<rparr>]"
  by (simp_all add: full_def upto_small)

end
