(* ===== verification/Firm_Buffer.thy ===== *)
theory Firm_Buffer
  imports Vssim_Common
begin

text \<open>
  \<^verbatim>\<open>FIRMWARE/firm_buffer_manager.c\<close>, the part that does not call the FTL: the event queue, the
  two buffers, and the marks of the write buffer. It is in use when \<^verbatim>\<open>FIRM_IO_BUFFER\<close> is
  defined (and \<^verbatim>\<open>SSD_THREAD\<close> is not).

  A buffer is the list of its frames, one sector each. A pointer into a buffer moves by whole
  frames and is the number of the frame it points to, so that \<^verbatim>\<open>write_buffer_end\<close> is
  \<open>WRITE_BUFFER_FRAME_NB\<close>, and \<^verbatim>\<open>(p - write_buffer)/SECTOR_SIZE\<close> is \<open>p\<close> itself. A queue
  keeps the chain of its entries from \<^verbatim>\<open>head\<close> along \<^verbatim>\<open>next\<close> beside its counter, and a
  pointer to an entry of \<^verbatim>\<open>e_queue\<close> is the position of the entry in the chain.
\<close>

section \<open>State\<close>

datatype frame_ptr = Null | Write_Frame int | Read_Frame int

record event_queue_entry =
  ev_io_type :: io_op
  ev_valid :: page_mark
  ev_sector_nb :: int
  ev_length :: int
  ev_buf :: frame_ptr

record event_queue =
  q_entry_nb :: int
  q_entries :: "event_queue_entry list"

record io_buffer =
  e_queue :: event_queue
  c_e_queue :: event_queue
  write_buffer :: "string list"
  read_buffer :: "string list"
  wb_valid_array :: string
  ftl_write_ptr :: int
  sata_write_ptr :: int
  write_limit_ptr :: int
  ftl_read_ptr :: int
  sata_read_ptr :: int
  read_limit_ptr :: int
  last_read_entry :: "nat option"
  empty_write_buffer_frame :: int
  empty_read_buffer_frame :: int

definition INIT_WB_VALID_ARRAY :: "ssd_config \<Rightarrow> string" where
  "INIT_WB_VALID_ARRAY c = replicate (nat (WRITE_BUFFER_FRAME_NB c)) (CHR ''0'')"

text \<open>\<^verbatim>\<open>calloc\<close> of the buffers: frames of \<^verbatim>\<open>SECTOR_SIZE\<close> zero bytes.\<close>

definition empty_frames :: "ssd_config \<Rightarrow> int \<Rightarrow> string list" where
  "empty_frames c n = replicate (nat n) (replicate (nat (SECTOR_SIZE c)) (CHR 0x00))"

definition INIT_IO_BUFFER :: "ssd_config \<Rightarrow> io_buffer" where
  "INIT_IO_BUFFER c =
     \<lparr>e_queue = \<lparr>q_entry_nb = 0, q_entries = []\<rparr>,
      c_e_queue = \<lparr>q_entry_nb = 0, q_entries = []\<rparr>,
      write_buffer = empty_frames c (WRITE_BUFFER_FRAME_NB c),
      read_buffer = empty_frames c (READ_BUFFER_FRAME_NB c),
      wb_valid_array = INIT_WB_VALID_ARRAY c,
      ftl_write_ptr = 0, sata_write_ptr = 0, write_limit_ptr = 0,
      ftl_read_ptr = 0, sata_read_ptr = 0, read_limit_ptr = 0,
      last_read_entry = None,
      empty_write_buffer_frame = i32 (WRITE_BUFFER_FRAME_NB c),
      empty_read_buffer_frame = i32 (READ_BUFFER_FRAME_NB c)\<rparr>"

section \<open>Frames and their marks\<close>

text \<open>\<^verbatim>\<open>p = p + SECTOR_SIZE; if(p == end) p = start;\<close> in a buffer of \<open>n\<close> frames.\<close>

definition next_frame :: "int \<Rightarrow> int \<Rightarrow> int" where
  "next_frame n p = (if p + 1 = n then 0 else p + 1)"

definition GET_WB_VALID_ARRAY_ENTRY :: "int \<Rightarrow> io_buffer \<Rightarrow> char option" where
  "GET_WB_VALID_ARRAY_ENTRY p b = aget (wb_valid_array b) p"

definition UPDATE_WB_VALID_ARRAY_ENTRY :: "ssd_config \<Rightarrow> int \<Rightarrow> char \<Rightarrow> io_buffer \<Rightarrow> io_buffer option" where
  "UPDATE_WB_VALID_ARRAY_ENTRY c p new_value b =
     (if u32 p \<ge> WRITE_BUFFER_FRAME_NB c then Some b
      else do {
        v \<leftarrow> aset (wb_valid_array b) p new_value;
        Some (b\<lparr>wb_valid_array := v\<rparr>)
      })"

text \<open>
  The loop of \<^verbatim>\<open>UPDATE_WB_VALID_ARRAY\<close>: mark the next \<open>len\<close> frames that carry \<^verbatim>\<open>'V'\<close>,
  starting at \<open>p\<close>. It walks around the ring for as long as it takes.
\<close>

partial_function (option) mark_valid_frames ::
  "ssd_config \<Rightarrow> char \<Rightarrow> int \<Rightarrow> int \<Rightarrow> int \<Rightarrow> io_buffer \<Rightarrow> io_buffer option" where
  "mark_valid_frames c new_value len p count b =
     (if count \<noteq> len then do {
        x \<leftarrow> GET_WB_VALID_ARRAY_ENTRY p b;
        if x = CHR ''V'' then do {
          v \<leftarrow> aset (wb_valid_array b) p new_value;
          mark_valid_frames c new_value len (next_frame (WRITE_BUFFER_FRAME_NB c) p) (count + 1)
            (b\<lparr>wb_valid_array := v\<rparr>)
        }
        else mark_valid_frames c new_value len (next_frame (WRITE_BUFFER_FRAME_NB c) p) count b
      }
      else Some b)"

text \<open>A pointer into the other buffer makes the pointer difference of the code undefined.\<close>

definition UPDATE_WB_VALID_ARRAY :: "ssd_config \<Rightarrow> event_queue_entry \<Rightarrow> char \<Rightarrow> io_buffer \<Rightarrow> io_buffer option" where
  "UPDATE_WB_VALID_ARRAY c e new_value b =
     (case ev_buf e of
        Null \<Rightarrow> Some b
      | Read_Frame p \<Rightarrow> None
      | Write_Frame p \<Rightarrow> mark_valid_frames c new_value (i32 (ev_length e)) p 0 b)"

text \<open>
  The loop \<^verbatim>\<open>while(count != offset)\<close> of \<^verbatim>\<open>UPDATE_WB_VALID_ARRAY_PARTIAL\<close> and of
  \<^verbatim>\<open>COPY_DATA_TO_READ_BUFFER\<close>: the frame after \<open>offset\<close> frames that are not invalid.
\<close>

partial_function (option) skip_frames ::
  "ssd_config \<Rightarrow> int \<Rightarrow> int \<Rightarrow> int \<Rightarrow> io_buffer \<Rightarrow> int option" where
  "skip_frames c offset p count b =
     (if count \<noteq> offset then do {
        x \<leftarrow> GET_WB_VALID_ARRAY_ENTRY p b;
        skip_frames c offset (next_frame (WRITE_BUFFER_FRAME_NB c) p)
          (if x \<noteq> CHR ''I'' then count + 1 else count) b
      }
      else Some p)"

text \<open>The second loop of \<^verbatim>\<open>UPDATE_WB_VALID_ARRAY_PARTIAL\<close>.\<close>

partial_function (option) mark_frames ::
  "ssd_config \<Rightarrow> char \<Rightarrow> int \<Rightarrow> int \<Rightarrow> int \<Rightarrow> io_buffer \<Rightarrow> io_buffer option" where
  "mark_frames c new_value len p count b =
     (if count \<noteq> len then do {
        x \<leftarrow> GET_WB_VALID_ARRAY_ENTRY p b;
        if x \<noteq> CHR ''I'' then do {
          b \<leftarrow> UPDATE_WB_VALID_ARRAY_ENTRY c p new_value b;
          mark_frames c new_value len (next_frame (WRITE_BUFFER_FRAME_NB c) p) (count + 1) b
        }
        else mark_frames c new_value len (next_frame (WRITE_BUFFER_FRAME_NB c) p) count b
      }
      else Some b)"

definition UPDATE_WB_VALID_ARRAY_PARTIAL ::
  "ssd_config \<Rightarrow> event_queue_entry \<Rightarrow> char \<Rightarrow> int \<Rightarrow> int \<Rightarrow> io_buffer \<Rightarrow> io_buffer option" where
  "UPDATE_WB_VALID_ARRAY_PARTIAL c e new_value len mode b =
     (case ev_buf e of
        Write_Frame p \<Rightarrow> do {
          p \<leftarrow> (if mode = 1 then skip_frames c (i32 (ev_length e - len)) p 0 b else Some p);
          mark_frames c new_value len p 0 b
        }
      | _ \<Rightarrow> None)"

section \<open>Moving the pointers\<close>

definition INCREASE_WB_SATA_POINTER :: "ssd_config \<Rightarrow> int \<Rightarrow> io_buffer \<Rightarrow> io_buffer option" where
  "INCREASE_WB_SATA_POINTER c entry_nb b =
     ofold (\<lambda>i b. do {
        b \<leftarrow> UPDATE_WB_VALID_ARRAY_ENTRY c (sata_write_ptr b) (CHR ''V'')
               (b\<lparr>empty_write_buffer_frame := empty_write_buffer_frame b - 1\<rparr>);
        Some (b\<lparr>sata_write_ptr := next_frame (WRITE_BUFFER_FRAME_NB c) (sata_write_ptr b)\<rparr>)
      }) [0..entry_nb - 1] b"

definition INCREASE_RB_SATA_POINTER :: "ssd_config \<Rightarrow> int \<Rightarrow> io_buffer \<Rightarrow> io_buffer" where
  "INCREASE_RB_SATA_POINTER c entry_nb b =
     fold (\<lambda>i b. b\<lparr>empty_read_buffer_frame := empty_read_buffer_frame b + 1,
                   sata_read_ptr := next_frame (READ_BUFFER_FRAME_NB c) (sata_read_ptr b)\<rparr>)
       [0..entry_nb - 1] b"

partial_function (option) wb_ftl_loop ::
  "ssd_config \<Rightarrow> int \<Rightarrow> int \<Rightarrow> io_buffer \<Rightarrow> io_buffer option" where
  "wb_ftl_loop c entry_nb count b =
     (if count \<noteq> entry_nb then do {
        validity \<leftarrow> GET_WB_VALID_ARRAY_ENTRY (ftl_write_ptr b) b;
        b \<leftarrow> (if validity = CHR ''V'' then UPDATE_WB_VALID_ARRAY_ENTRY c (ftl_write_ptr b) (CHR ''F'') b
              else Some b);
        wb_ftl_loop c entry_nb (if validity = CHR ''V'' then count + 1 else count)
          (b\<lparr>ftl_write_ptr := next_frame (WRITE_BUFFER_FRAME_NB c) (ftl_write_ptr b)\<rparr>)
      }
      else Some b)"

definition INCREASE_WB_FTL_POINTER :: "ssd_config \<Rightarrow> int \<Rightarrow> io_buffer \<Rightarrow> io_buffer option" where
  "INCREASE_WB_FTL_POINTER c entry_nb b = wb_ftl_loop c entry_nb 0 b"

definition INCREASE_RB_FTL_POINTER :: "ssd_config \<Rightarrow> int \<Rightarrow> io_buffer \<Rightarrow> io_buffer" where
  "INCREASE_RB_FTL_POINTER c entry_nb b =
     fold (\<lambda>i b. b\<lparr>ftl_read_ptr := next_frame (READ_BUFFER_FRAME_NB c) (ftl_read_ptr b)\<rparr>)
       [0..entry_nb - 1] b"

text \<open>The two loops \<^verbatim>\<open>do ... while(limit != ftl pointer)\<close> make at least one step.\<close>

partial_function (option) INCREASE_WB_LIMIT_POINTER :: "ssd_config \<Rightarrow> io_buffer \<Rightarrow> io_buffer option" where
  "INCREASE_WB_LIMIT_POINTER c b = do {
     b \<leftarrow> UPDATE_WB_VALID_ARRAY_ENTRY c (write_limit_ptr b) (CHR ''0'') b;
     let b = b\<lparr>write_limit_ptr := next_frame (WRITE_BUFFER_FRAME_NB c) (write_limit_ptr b),
               empty_write_buffer_frame := empty_write_buffer_frame b + 1\<rparr>;
     if write_limit_ptr b \<noteq> ftl_write_ptr b then INCREASE_WB_LIMIT_POINTER c b else Some b
   }"

partial_function (option) INCREASE_RB_LIMIT_POINTER :: "ssd_config \<Rightarrow> io_buffer \<Rightarrow> io_buffer option" where
  "INCREASE_RB_LIMIT_POINTER c b =
     (let b = b\<lparr>read_limit_ptr := next_frame (READ_BUFFER_FRAME_NB c) (read_limit_ptr b)\<rparr>
      in if read_limit_ptr b \<noteq> ftl_read_ptr b then INCREASE_RB_LIMIT_POINTER c b else Some b)"

section \<open>Data\<close>

text \<open>The simulator moves no data from the host: a write only claims its frames.\<close>

definition WRITE_DATA_TO_BUFFER :: "ssd_config \<Rightarrow> int \<Rightarrow> io_buffer \<Rightarrow> io_buffer option" where
  "WRITE_DATA_TO_BUFFER c len b = INCREASE_WB_SATA_POINTER c (i32 len) b"

definition READ_DATA_FROM_BUFFER_TO_HOST :: "ssd_config \<Rightarrow> event_queue_entry \<Rightarrow> io_buffer \<Rightarrow> io_buffer" where
  "READ_DATA_FROM_BUFFER_TO_HOST c e b = INCREASE_RB_SATA_POINTER c (i32 (ev_length e)) b"

partial_function (option) copy_frames ::
  "ssd_config \<Rightarrow> int \<Rightarrow> int \<Rightarrow> int \<Rightarrow> int \<Rightarrow> io_buffer \<Rightarrow> io_buffer option" where
  "copy_frames c dst_length src dst count b =
     (if u32 count \<noteq> dst_length then do {
        x \<leftarrow> GET_WB_VALID_ARRAY_ENTRY src b;
        if x = CHR ''I'' then
          copy_frames c dst_length (next_frame (WRITE_BUFFER_FRAME_NB c) src) dst count b
        else do {
          frame \<leftarrow> aget (write_buffer b) src;
          r \<leftarrow> aset (read_buffer b) dst frame;
          copy_frames c dst_length (next_frame (WRITE_BUFFER_FRAME_NB c) src)
            (next_frame (READ_BUFFER_FRAME_NB c) dst) (count + 1)
            (b\<lparr>read_buffer := r,
               ftl_read_ptr := (if dst + 1 = READ_BUFFER_FRAME_NB c then 0 else ftl_read_ptr b + 1)\<rparr>)
        }
      }
      else Some b)"

definition COPY_DATA_TO_READ_BUFFER ::
  "ssd_config \<Rightarrow> event_queue_entry \<Rightarrow> event_queue_entry \<Rightarrow> io_buffer \<Rightarrow> io_buffer option" where
  "COPY_DATA_TO_READ_BUFFER c dst_entry src_entry b =
     (case (ev_buf dst_entry, ev_buf src_entry) of
        (Read_Frame dst, Write_Frame src) \<Rightarrow> do {
          src \<leftarrow> skip_frames c (i32 (ev_sector_nb dst_entry - ev_sector_nb src_entry)) src 0 b;
          b \<leftarrow> copy_frames c (ev_length dst_entry) src dst 0 b;
          INCREASE_RB_LIMIT_POINTER c b
        }
      | _ \<Rightarrow> None)"

section \<open>Checks on the queue\<close>

definition CHECK_OVERWRITE :: "event_queue_entry \<Rightarrow> int \<Rightarrow> int \<Rightarrow> status" where
  "CHECK_OVERWRITE e sector_nb len =
     (if ev_io_type e = WRITE \<and> sector_nb \<le> ev_sector_nb e \<and>
         u32 (sector_nb + len) \<ge> u32 (ev_sector_nb e + ev_length e) then SUCCESS else FAIL)"

definition CHECK_SEQUENTIALITY :: "event_queue_entry option \<Rightarrow> int \<Rightarrow> status" where
  "CHECK_SEQUENTIALITY p sector_nb =
     (case p of
        None \<Rightarrow> FAIL
      | Some e \<Rightarrow>
          if ev_io_type e = WRITE \<and> ev_valid e = VALID \<and>
             u32 (ev_sector_nb e + ev_length e) = u32 sector_nb then SUCCESS else FAIL)"

definition CHECK_IO_DEPENDENCY_FOR_WRITE :: "event_queue_entry option \<Rightarrow> int \<Rightarrow> int \<Rightarrow> status" where
  "CHECK_IO_DEPENDENCY_FOR_WRITE p sector_nb len =
     (case p of
        None \<Rightarrow> FAIL
      | Some e \<Rightarrow>
          let last_sector_nb = i32 (sector_nb + len - 1);
              temp_last_sector_nb = i32 (ev_sector_nb e + ev_length e - 1)
          in if ev_io_type e = WRITE \<and> ev_valid e = VALID \<and> ev_sector_nb e < sector_nb \<and>
                sector_nb < temp_last_sector_nb \<and> temp_last_sector_nb < last_sector_nb
             then SUCCESS else FAIL)"

text \<open>The position at which the pending writes start: the entry after \<^verbatim>\<open>last_read_entry\<close>.\<close>

definition after_reads :: "io_buffer \<Rightarrow> nat" where
  "after_reads b = (case last_read_entry b of None \<Rightarrow> 0 | Some r \<Rightarrow> Suc r)"

fun last_dependent ::
  "int \<Rightarrow> int \<Rightarrow> nat \<Rightarrow> nat option \<Rightarrow> event_queue_entry list \<Rightarrow> nat option" where
  "last_dependent sector_nb last_sector_nb i ret [] = ret"
| "last_dependent sector_nb last_sector_nb i ret (e # es) =
     last_dependent sector_nb last_sector_nb (Suc i)
       (if ev_valid e = VALID \<and> ev_sector_nb e \<le> last_sector_nb \<and>
           sector_nb \<le> i32 (ev_sector_nb e + ev_length e - 1) then Some i else ret) es"

definition CHECK_IO_DEPENDENCY_FOR_READ :: "int \<Rightarrow> int \<Rightarrow> io_buffer \<Rightarrow> nat option" where
  "CHECK_IO_DEPENDENCY_FOR_READ sector_nb len b =
     last_dependent sector_nb (i32 (sector_nb + len - 1)) (after_reads b) None
       (drop (after_reads b) (q_entries (e_queue b)))"

text \<open>The number of free frames is an \<^verbatim>\<open>int\<close>, converted to \<^verbatim>\<open>unsigned int\<close> for the comparison.\<close>

definition EVENT_QUEUE_IS_FULL :: "io_op \<Rightarrow> int \<Rightarrow> io_buffer \<Rightarrow> status" where
  "EVENT_QUEUE_IS_FULL io_type len b =
     (if io_type = WRITE then if u32 (empty_write_buffer_frame b) < len then SUCCESS else FAIL
      else if io_type = READ then if u32 (empty_read_buffer_frame b) < len then SUCCESS else FAIL
      else FAIL)"

text \<open>The reads are the first entries of the queue; the loop counts up to \<^verbatim>\<open>last_read_entry\<close>.\<close>

definition COUNT_READ_EVENT :: "io_buffer \<Rightarrow> int" where
  "COUNT_READ_EVENT b = (case last_read_entry b of None \<Rightarrow> 0 | Some r \<Rightarrow> int r + 1)"

section \<open>The queue\<close>

definition ALLOC_NEW_EVENT :: "io_op \<Rightarrow> int \<Rightarrow> int \<Rightarrow> frame_ptr \<Rightarrow> event_queue_entry" where
  "ALLOC_NEW_EVENT io_type sector_nb len buf =
     \<lparr>ev_io_type = io_type, ev_valid = VALID, ev_sector_nb = sector_nb, ev_length = len, ev_buf = buf\<rparr>"

definition queue_tail :: "event_queue \<Rightarrow> event_queue_entry option" where
  "queue_tail q = (if q_entries q = [] then None else Some (last (q_entries q)))"

text \<open>Adding an entry at the tail. With a count but no tail the code dereferences NULL.\<close>

definition append_event :: "event_queue_entry \<Rightarrow> event_queue \<Rightarrow> event_queue option" where
  "append_event e q =
     (if q_entry_nb q = 0 then Some \<lparr>q_entry_nb = 1, q_entries = [e]\<rparr>
      else if q_entries q = [] then None
      else Some \<lparr>q_entry_nb = q_entry_nb q + 1, q_entries = q_entries q @ [e]\<rparr>)"

definition set_event :: "nat \<Rightarrow> event_queue_entry \<Rightarrow> io_buffer \<Rightarrow> io_buffer" where
  "set_event i e b = b\<lparr>e_queue := (e_queue b)\<lparr>q_entries := (q_entries (e_queue b))[i := e]\<rparr>\<rparr>"

text \<open>The loop of \<^verbatim>\<open>ENQUEUE_WRITE\<close> over the pending writes.\<close>

definition check_overwritten :: "ssd_config \<Rightarrow> int \<Rightarrow> int \<Rightarrow> nat \<Rightarrow> io_buffer \<Rightarrow> io_buffer option" where
  "check_overwritten c sector_nb len i b =
     (let e = q_entries (e_queue b) ! i
      in if ev_valid e = VALID \<and> CHECK_OVERWRITE e sector_nb len = SUCCESS
         then UPDATE_WB_VALID_ARRAY c (e\<lparr>ev_valid := INVALID\<rparr>) (CHR ''I'')
                (set_event i (e\<lparr>ev_valid := INVALID\<rparr>) b)
         else Some b)"

text \<open>The end of \<^verbatim>\<open>ENQUEUE_WRITE\<close>: the new frames join the last event, or become a new event.\<close>

definition attach_write :: "ssd_config \<Rightarrow> int \<Rightarrow> int \<Rightarrow> int \<Rightarrow> io_buffer \<Rightarrow> io_buffer option" where
  "attach_write c sector_nb len p_buf b = do {
     let tail = queue_tail (e_queue b);
     let last = length (q_entries (e_queue b)) - 1;
     if CHECK_SEQUENTIALITY tail sector_nb = SUCCESS then
       (let e = the tail in Some (set_event last (e\<lparr>ev_length := u32 (ev_length e + len)\<rparr>) b))
     else if CHECK_IO_DEPENDENCY_FOR_WRITE tail sector_nb len = SUCCESS then do {
       let e = the tail;
       let invalid_len = i32 (ev_sector_nb e + ev_length e - sector_nb);
       b \<leftarrow> UPDATE_WB_VALID_ARRAY_PARTIAL c e (CHR ''I'') invalid_len 1 b;
       Some (set_event last (e\<lparr>ev_length := u32 (ev_length e + (len - invalid_len))\<rparr>) b)
     }
     else do {
       q \<leftarrow> append_event (ALLOC_NEW_EVENT WRITE sector_nb len (Write_Frame p_buf)) (e_queue b);
       Some (b\<lparr>e_queue := q\<rparr>)
     }
   }"

definition ENQUEUE_WRITE :: "ssd_config \<Rightarrow> int \<Rightarrow> int \<Rightarrow> io_buffer \<Rightarrow> io_buffer option" where
  "ENQUEUE_WRITE c sector_nb len b = do {
     let p_buf = sata_write_ptr b;
     b \<leftarrow> WRITE_DATA_TO_BUFFER c len b;
     b \<leftarrow> ofold (check_overwritten c sector_nb len)
           [after_reads b..<length (q_entries (e_queue b))] b;
     attach_write c sector_nb len p_buf b
   }"

text \<open>
  The loop frees every completed read and counts them down; the queue is reset when the count
  is then 0. With another count the code would keep pointers to the freed entries.
\<close>

definition DEQUEUE_COMPLETED_READ :: "ssd_config \<Rightarrow> io_buffer \<Rightarrow> io_buffer option" where
  "DEQUEUE_COMPLETED_READ c b =
     (if q_entry_nb (c_e_queue b) = 0 \<or> q_entries (c_e_queue b) = [] then Some b
      else
        let es = q_entries (c_e_queue b);
            b = fold (READ_DATA_FROM_BUFFER_TO_HOST c) es b
        in if q_entry_nb (c_e_queue b) = int (length es)
           then Some (b\<lparr>c_e_queue := \<lparr>q_entry_nb = 0, q_entries = []\<rparr>\<rparr>)
           else None)"

end
