(* ===== verification/Firm_Ring.thy ===== *)
theory Firm_Ring
  imports Firm_Buffer
begin

text \<open>
  What the loops of the firmware buffer do. The marks of the write buffer are read as the list
  \<open>ring\<close> that starts at the limit pointer; a loop that walks around the buffer changes a
  stretch of that list. The locale \<open>marking_loop\<close> states the two laws of a loop that marks
  frames, and both such loops of the code are instances. Every loop is shown to end.
\<close>

section \<open>The write buffer as a ring\<close>

lemma next_frame_mod: "0 \<le> p \<Longrightarrow> p < n \<Longrightarrow> next_frame n p = (p + 1) mod n"
  by (auto simp: next_frame_def)

lemma next_frame_at: "0 < n \<Longrightarrow> next_frame n ((p + i) mod n) = (p + (i + 1)) mod n"
  by (simp add: next_frame_mod mod_add_left_eq add.assoc)

definition ring :: "io_buffer \<Rightarrow> string" where
  "ring b = rotate (nat (write_limit_ptr b)) (wb_valid_array b)"

definition set_ring :: "string \<Rightarrow> io_buffer \<Rightarrow> io_buffer" where
  "set_ring xs b = b\<lparr>wb_valid_array := unrotate (nat (write_limit_ptr b)) xs\<rparr>"

definition wb_shape :: "ssd_config \<Rightarrow> io_buffer \<Rightarrow> bool" where
  "wb_shape c b \<longleftrightarrow> 0 < WRITE_BUFFER_FRAME_NB c \<and> WRITE_BUFFER_FRAME_NB c < 2147483648 \<and>
     0 \<le> write_limit_ptr b \<and> write_limit_ptr b < WRITE_BUFFER_FRAME_NB c \<and>
     length (wb_valid_array b) = nat (WRITE_BUFFER_FRAME_NB c)"

lemma ring_set_ring [simp]: "ring (set_ring xs b) = xs" "set_ring (ring b) b = b"
  "set_ring xs (set_ring ys b) = set_ring xs b" "length (ring b) = length (wb_valid_array b)"
  by (simp_all add: ring_def set_ring_def)

lemma set_ring_fields [simp]:
  "e_queue (set_ring xs b) = e_queue b" "c_e_queue (set_ring xs b) = c_e_queue b"
  "write_buffer (set_ring xs b) = write_buffer b" "read_buffer (set_ring xs b) = read_buffer b"
  "ftl_write_ptr (set_ring xs b) = ftl_write_ptr b" "sata_write_ptr (set_ring xs b) = sata_write_ptr b"
  "write_limit_ptr (set_ring xs b) = write_limit_ptr b" "ftl_read_ptr (set_ring xs b) = ftl_read_ptr b"
  "sata_read_ptr (set_ring xs b) = sata_read_ptr b" "read_limit_ptr (set_ring xs b) = read_limit_ptr b"
  "last_read_entry (set_ring xs b) = last_read_entry b"
  "empty_write_buffer_frame (set_ring xs b) = empty_write_buffer_frame b"
  "empty_read_buffer_frame (set_ring xs b) = empty_read_buffer_frame b"
  "length (wb_valid_array (set_ring xs b)) = length xs"
  by (simp_all add: set_ring_def)

lemma ring_fields [simp]:
  "ring (b\<lparr>ftl_write_ptr := x\<rparr>) = ring b" "ring (b\<lparr>sata_write_ptr := x\<rparr>) = ring b"
  "ring (b\<lparr>empty_write_buffer_frame := y\<rparr>) = ring b" "ring (b\<lparr>e_queue := q\<rparr>) = ring b"
  "ring (b\<lparr>last_read_entry := r\<rparr>) = ring b" "ring (b\<lparr>c_e_queue := q\<rparr>) = ring b"
  "ring (b\<lparr>read_buffer := f\<rparr>) = ring b" "ring (b\<lparr>ftl_read_ptr := x\<rparr>) = ring b"
  "ring (b\<lparr>read_limit_ptr := x\<rparr>) = ring b" "ring (b\<lparr>sata_read_ptr := x\<rparr>) = ring b"
  "ring (b\<lparr>empty_read_buffer_frame := y\<rparr>) = ring b"
  by (simp_all add: ring_def)

lemma set_ring_moves [simp]:
  "set_ring xs (b\<lparr>ftl_write_ptr := x\<rparr>) = (set_ring xs b)\<lparr>ftl_write_ptr := x\<rparr>"
  "set_ring xs (b\<lparr>sata_write_ptr := x\<rparr>) = (set_ring xs b)\<lparr>sata_write_ptr := x\<rparr>"
  "set_ring xs (b\<lparr>empty_write_buffer_frame := y\<rparr>) = (set_ring xs b)\<lparr>empty_write_buffer_frame := y\<rparr>"
  "set_ring xs (b\<lparr>e_queue := q\<rparr>) = (set_ring xs b)\<lparr>e_queue := q\<rparr>"
  by (simp_all add: set_ring_def)

lemma wb_shape_moves [simp]:
  "wb_shape c (b\<lparr>ftl_write_ptr := x\<rparr>) = wb_shape c b" "wb_shape c (b\<lparr>sata_write_ptr := x\<rparr>) = wb_shape c b"
  "wb_shape c (b\<lparr>empty_write_buffer_frame := y\<rparr>) = wb_shape c b" "wb_shape c (b\<lparr>e_queue := q\<rparr>) = wb_shape c b"
  "wb_shape c (set_ring xs b) = (wb_shape c (b\<lparr>wb_valid_array := xs\<rparr>))"
  by (simp_all add: wb_shape_def)

lemma wb_shapeD:
  assumes "wb_shape c b"
  shows "0 < WRITE_BUFFER_FRAME_NB c" "WRITE_BUFFER_FRAME_NB c < 2147483648"
    "0 \<le> write_limit_ptr b" "write_limit_ptr b < WRITE_BUFFER_FRAME_NB c"
    "length (wb_valid_array b) = nat (WRITE_BUFFER_FRAME_NB c)" "int (length (ring b)) = WRITE_BUFFER_FRAME_NB c"
  using assms by (simp_all add: wb_shape_def)

lemma wb_shape_set_ring: "wb_shape c b \<Longrightarrow> length xs = length (ring b) \<Longrightarrow> wb_shape c (set_ring xs b)"
  by (simp add: wb_shape_def)

text \<open>The frame \<open>i\<close> steps after the limit pointer is the \<open>i\<close>-th of the ring.\<close>

definition frame_at :: "ssd_config \<Rightarrow> io_buffer \<Rightarrow> nat \<Rightarrow> int" where
  "frame_at c b i = (write_limit_ptr b + int i) mod WRITE_BUFFER_FRAME_NB c"

lemma frame_at_moves [simp]:
  "frame_at c (b\<lparr>ftl_write_ptr := x\<rparr>) = frame_at c b" "frame_at c (b\<lparr>sata_write_ptr := x\<rparr>) = frame_at c b"
  "frame_at c (b\<lparr>empty_write_buffer_frame := y\<rparr>) = frame_at c b" "frame_at c (set_ring xs b) = frame_at c b"
  "frame_at c (b\<lparr>e_queue := q\<rparr>) = frame_at c b"
  by (simp_all add: frame_at_def fun_eq_iff)

lemma next_frame_frame_at:
  "wb_shape c b \<Longrightarrow> next_frame (WRITE_BUFFER_FRAME_NB c) (frame_at c b i) = frame_at c b (Suc i)"
  unfolding frame_at_def by (subst next_frame_at) (auto dest: wb_shapeD simp: algebra_simps)

lemma nat_frame_at:
  assumes "wb_shape c b"
  shows "nat (frame_at c b i) = (nat (write_limit_ptr b) + i) mod length (wb_valid_array b)"
    "0 \<le> frame_at c b i" "frame_at c b i < WRITE_BUFFER_FRAME_NB c"
proof -
  note w = wb_shapeD [OF assms]
  show b: "0 \<le> frame_at c b i" "frame_at c b i < WRITE_BUFFER_FRAME_NB c" using w(1) by (simp_all add: frame_at_def)
  have "frame_at c b i = int ((nat (write_limit_ptr b) + i) mod length (wb_valid_array b))"
    unfolding frame_at_def using w by (simp add: zmod_int)
  then show "nat (frame_at c b i) = (nat (write_limit_ptr b) + i) mod length (wb_valid_array b)" by simp
qed

lemma GET_ring:
  assumes "wb_shape c b" "i < length (ring b)"
  shows "GET_WB_VALID_ARRAY_ENTRY (frame_at c b i) b = Some (ring b ! i)"
  using nat_frame_at [OF assms(1), of i] assms wb_shapeD [OF assms(1)]
  by (simp add: GET_WB_VALID_ARRAY_ENTRY_def aget_def ring_def nth_rotate)

lemma aset_ring:
  assumes "wb_shape c b" "i < length (ring b)"
  shows "aset (wb_valid_array b) (frame_at c b i) v = Some (wb_valid_array (set_ring ((ring b)[i := v]) b))"
proof -
  have i: "i < length (wb_valid_array b)" using assms by simp
  have "(ring b)[i := v] = rotate (nat (write_limit_ptr b)) ((wb_valid_array b)[nat (frame_at c b i) := v])"
    unfolding ring_def nat_frame_at(1) [OF assms(1)] by (rule rotate_update [OF i, symmetric])
  then show ?thesis
    using nat_frame_at [OF assms(1), of i] wb_shapeD [OF assms(1)]
    by (simp add: aset_def set_ring_def)
qed

lemma UPDATE_ring:
  assumes "wb_shape c b" "i < length (ring b)"
  shows "UPDATE_WB_VALID_ARRAY_ENTRY c (frame_at c b i) v b = Some (set_ring ((ring b)[i := v]) b)"
proof -
  have "u32 (frame_at c b i) < WRITE_BUFFER_FRAME_NB c"
    using nat_frame_at [OF assms(1), of i] wb_shapeD(2) [OF assms(1)] by (simp add: u32_id)
  then show ?thesis
    unfolding UPDATE_WB_VALID_ARRAY_ENTRY_def aset_ring [OF assms] by (simp add: set_ring_def)
qed

section \<open>The loops on the ring\<close>

text \<open>\<open>remark hit v\<close> gives the mark \<open>v\<close> to the frames that satisfy \<open>hit\<close>; \<open>hits\<close> counts them.\<close>

definition remark :: "(char \<Rightarrow> bool) \<Rightarrow> char \<Rightarrow> string \<Rightarrow> string" where
  "remark hit v = map (\<lambda>x. if hit x then v else x)"

lemma remark_simps [simp]: "remark hit v [] = []" "remark hit v (x # xs) = (if hit x then v else x) # remark hit v xs"
  "length (remark hit v xs) = length xs" "remark hit v (xs @ ys) = remark hit v xs @ remark hit v ys"
  by (simp_all add: remark_def)

abbreviation hits :: "(char \<Rightarrow> bool) \<Rightarrow> string \<Rightarrow> int" where
  "hits hit xs \<equiv> int (length (filter hit xs))"

abbreviation is_V :: "char \<Rightarrow> bool" where
  "is_V x \<equiv> x = CHR ''V''"

abbreviation not_I :: "char \<Rightarrow> bool" where
  "not_I x \<equiv> x \<noteq> CHR ''I''"

lemma remark_none: "filter hit xs = [] \<Longrightarrow> remark hit v xs = xs"
  by (induction xs) (auto split: if_splits)

lemma ring_step:
  assumes "wb_shape c b" "ring b = P @ x # Q"
  shows "GET_WB_VALID_ARRAY_ENTRY (frame_at c b (length P)) b = Some x"
    "UPDATE_WB_VALID_ARRAY_ENTRY c (frame_at c b (length P)) v b = Some (set_ring (P @ v # Q) b)"
    "aset (wb_valid_array b) (frame_at c b (length P)) v = Some (wb_valid_array (set_ring (P @ v # Q) b))"
    "wb_shape c (set_ring (P @ v # Q) b)"
proof -
  have l: "length P < length (ring b)" and u: "(ring b)[length P := v] = P @ v # Q"
    unfolding assms(2) by (simp_all add: list_update_append)
  have "ring b ! length P = x" unfolding assms(2) by simp
  then show "GET_WB_VALID_ARRAY_ENTRY (frame_at c b (length P)) b = Some x"
    using GET_ring [OF assms(1) l] by simp
  show "UPDATE_WB_VALID_ARRAY_ENTRY c (frame_at c b (length P)) v b = Some (set_ring (P @ v # Q) b)"
    using UPDATE_ring [OF assms(1) l, of v] unfolding u .
  show "aset (wb_valid_array b) (frame_at c b (length P)) v = Some (wb_valid_array (set_ring (P @ v # Q) b))"
    using aset_ring [OF assms(1) l, of v] unfolding u .
  show "wb_shape c (set_ring (P @ v # Q) b)"
    by (intro wb_shape_set_ring assms(1)) (unfold assms(2), simp)
qed

lemma set_ring_array: "b\<lparr>wb_valid_array := wb_valid_array (set_ring xs b)\<rparr> = set_ring xs b"
  by (simp add: set_ring_def)

text \<open>
  A loop that writes the mark \<open>v\<close> into the next \<open>len\<close> frames that satisfy \<open>hit\<close>. On the
  ring it changes a stretch with that many such frames.
\<close>

locale marking_loop =
  fixes loop :: "ssd_config \<Rightarrow> char \<Rightarrow> int \<Rightarrow> int \<Rightarrow> int \<Rightarrow> io_buffer \<Rightarrow> io_buffer option"
    and hit :: "char \<Rightarrow> bool"
  assumes loop_end: "loop c v len p len b = Some b"
    and loop_hit: "wb_shape c b \<Longrightarrow> i < length (ring b) \<Longrightarrow> hit (ring b ! i) \<Longrightarrow> count \<noteq> len \<Longrightarrow>
      loop c v len (frame_at c b i) count b =
        loop c v len (frame_at c b (Suc i)) (count + 1) (set_ring ((ring b)[i := v]) b)"
    and loop_miss: "wb_shape c b \<Longrightarrow> i < length (ring b) \<Longrightarrow> \<not> hit (ring b ! i) \<Longrightarrow> count \<noteq> len \<Longrightarrow>
      loop c v len (frame_at c b i) count b = loop c v len (frame_at c b (Suc i)) count b"
begin

lemma loop_ring:
  assumes "wb_shape c b" "ring b = P @ xs @ Q" "hits hit xs = len - count"
  shows "loop c v len (frame_at c b (length P)) count b = Some (set_ring (P @ remark hit v xs @ Q) b)"
proof (cases "count = len")
  case True
  then have "remark hit v xs = xs" using assms(3) by (simp add: remark_none)
  then show ?thesis using True loop_end ring_set_ring(2) [of b] by (simp add: assms(2))
next
  case False
  then show ?thesis using assms
  proof (induction xs arbitrary: P count b)
    case Nil
    then show ?case by simp
  next
    case (Cons x xs)
    have i: "length P < length (ring b)" "ring b ! length P = x" "\<And>y. (ring b)[length P := y] = P @ y # xs @ Q"
      using Cons.prems(3) by (simp_all add: list_update_append del: ring_set_ring(4))
    show ?case
    proof (cases "hit x")
      case True
      let ?b = "set_ring (P @ v # xs @ Q) b"
      have b: "wb_shape c ?b" "ring ?b = (P @ [v]) @ xs @ Q" "hits hit xs = len - (count + 1)"
        using Cons.prems True by (auto intro!: wb_shape_set_ring simp del: wb_shape_moves(5) ring_set_ring(4))
      have "loop c v len (frame_at c ?b (length (P @ [v]))) (count + 1) ?b =
          Some (set_ring ((P @ [v]) @ remark hit v xs @ Q) ?b)"
      proof (cases "count + 1 = len")
        case eq: True
        then have "remark hit v xs = xs" using b(3) by (simp add: remark_none)
        then show ?thesis using eq loop_end by simp
      qed (use Cons.IH [OF _ b] in blast)
      then show ?thesis using loop_hit [OF Cons.prems(2) i(1) _ Cons.prems(1)] True by (simp add: i)
    next
      case miss: False
      have "loop c v len (frame_at c b (length (P @ [x]))) count b = Some (set_ring ((P @ [x]) @ remark hit v xs @ Q) b)"
        using Cons.prems miss by (intro Cons.IH) auto
      then show ?thesis using loop_miss [OF Cons.prems(2) i(1) _ Cons.prems(1)] miss by (simp add: i)
    qed
  qed
qed

end

interpretation valid_marks: marking_loop mark_valid_frames "\<lambda>x. x = CHR ''V''"
proof
  show "mark_valid_frames c v len p len b = Some b" for c v len p b
    by (subst mark_valid_frames.simps) simp
next
  fix c b i v and count len :: int
  assume w: "wb_shape c b" "i < length (ring b)" and n: "count \<noteq> len"
  note s = GET_ring [OF w] aset_ring [OF w] next_frame_frame_at [OF w(1)]
  show "mark_valid_frames c v len (frame_at c b i) count b =
      mark_valid_frames c v len (frame_at c b (Suc i)) (count + 1) (set_ring ((ring b)[i := v]) b)"
    if "ring b ! i = CHR ''V''"
    using that n s by (subst mark_valid_frames.simps) (simp add: set_ring_array)
  show "mark_valid_frames c v len (frame_at c b i) count b =
      mark_valid_frames c v len (frame_at c b (Suc i)) count b" if "ring b ! i \<noteq> CHR ''V''"
    using that n s by (subst mark_valid_frames.simps) simp
qed

interpretation marks: marking_loop mark_frames "\<lambda>x. x \<noteq> CHR ''I''"
proof
  show "mark_frames c v len p len b = Some b" for c v len p b
    by (subst mark_frames.simps) simp
next
  fix c b i v and count len :: int
  assume w: "wb_shape c b" "i < length (ring b)" and n: "count \<noteq> len"
  note s = GET_ring [OF w] UPDATE_ring [OF w] next_frame_frame_at [OF w(1)]
  show "mark_frames c v len (frame_at c b i) count b =
      mark_frames c v len (frame_at c b (Suc i)) (count + 1) (set_ring ((ring b)[i := v]) b)"
    if "ring b ! i \<noteq> CHR ''I''"
    using that n s by (subst mark_frames.simps) simp
  show "mark_frames c v len (frame_at c b i) count b =
      mark_frames c v len (frame_at c b (Suc i)) count b" if "\<not> ring b ! i \<noteq> CHR ''I''"
    using that n s by (subst mark_frames.simps) simp
qed

lemma skip_frames_ring:
  assumes "wb_shape c b" "ring b = P @ xs @ Q" "hits not_I xs = offset - count" "xs = [] \<or> not_I (last xs)"
  shows "skip_frames c offset (frame_at c b (length P)) count b = Some (frame_at c b (length (P @ xs)))"
  using assms
proof (induction xs arbitrary: P count)
  case Nil
  then show ?case by (subst skip_frames.simps) simp
next
  case (Cons x xs)
  have r: "ring b = P @ x # xs @ Q" using Cons.prems(2) by simp
  have "last (x # xs) \<in> set (filter not_I (x # xs))" using Cons.prems(4) last_in_set [of "x # xs"] by auto
  then have "count \<noteq> offset" using Cons.prems(3) by (intro notI) simp
  then have "skip_frames c offset (frame_at c b (length P)) count b =
      skip_frames c offset (frame_at c b (length (P @ [x]))) (if not_I x then count + 1 else count) b"
    using ring_step(1) [OF Cons.prems(1) r] next_frame_frame_at [OF Cons.prems(1), of "length P"]
    by (subst skip_frames.simps) simp
  also have "\<dots> = Some (frame_at c b (length ((P @ [x]) @ xs)))"
    using Cons.prems by (intro Cons.IH) (auto split: if_splits)
  finally show ?case by simp
qed

lemma wb_ftl_loop_ring:
  assumes "wb_shape c b" "ring b = P @ xs @ Q" "hits is_V xs = n - count" "xs = [] \<or> is_V (last xs)"
    "ftl_write_ptr b = frame_at c b (length P)"
  shows "wb_ftl_loop c n count b =
    Some ((set_ring (P @ remark is_V (CHR ''F'') xs @ Q) b)\<lparr>ftl_write_ptr := frame_at c b (length (P @ xs))\<rparr>)"
  using assms
proof (induction xs arbitrary: P count b)
  case Nil
  then show ?case using ring_set_ring(2) [of b] by (subst wb_ftl_loop.simps) simp
next
  case (Cons x xs)
  note st = ring_step [OF Cons.prems(1), of P x "xs @ Q"]
  have r: "ring b = P @ x # xs @ Q" using Cons.prems(2) by simp
  note nx = next_frame_frame_at [OF Cons.prems(1), of "length P"]
  have "last (x # xs) \<in> set (filter is_V (x # xs))" using Cons.prems(4) last_in_set [of "x # xs"] by auto
  then have ne: "count \<noteq> n" using Cons.prems(3) by (intro notI) simp
  show ?case
  proof (cases "is_V x")
    case True
    let ?b = "(set_ring (P @ CHR ''F'' # xs @ Q) b)\<lparr>ftl_write_ptr := frame_at c b (Suc (length P))\<rparr>"
    have "wb_ftl_loop c n count b = wb_ftl_loop c n (count + 1) ?b"
      using ne True st(1,2) [OF r] nx Cons.prems(5) by (subst wb_ftl_loop.simps) simp
    also have "\<dots> = Some ((set_ring ((P @ [CHR ''F'']) @ remark is_V (CHR ''F'') xs @ Q) ?b)
        \<lparr>ftl_write_ptr := frame_at c ?b (length ((P @ [CHR ''F'']) @ xs))\<rparr>)"
      using st(4) [OF r] Cons.prems True by (intro Cons.IH) (auto split: if_splits)
    finally show ?thesis using True by simp
  next
    case False
    let ?b = "b\<lparr>ftl_write_ptr := frame_at c b (Suc (length P))\<rparr>"
    have "wb_ftl_loop c n count b = wb_ftl_loop c n count ?b"
      using ne False st(1) [OF r] nx Cons.prems(5) by (subst wb_ftl_loop.simps) simp
    also have "\<dots> = Some ((set_ring ((P @ [x]) @ remark is_V (CHR ''F'') xs @ Q) ?b)
        \<lparr>ftl_write_ptr := frame_at c ?b (length ((P @ [x]) @ xs))\<rparr>)"
      using Cons.prems False by (intro Cons.IH) (auto split: if_splits)
    finally show ?thesis using False by simp
  qed
qed

lemma split_hits:
  assumes "hits hit xs = i + j" "0 \<le> i" "0 \<le> j"
  shows "\<exists>ys zs. xs = ys @ zs \<and> hits hit ys = i \<and> (ys = [] \<or> hit (last ys)) \<and> hits hit zs = j"
  using assms
proof (induction xs arbitrary: i)
  case (Cons x xs)
  consider "i = 0" | "0 < i" "hit x" | "0 < i" "\<not> hit x" using Cons.prems(2) by linarith
  then show ?case
  proof cases
    case 1
    then show ?thesis using Cons.prems by (intro exI [of _ "[]"] exI [of _ "x # xs"]) simp
  next
    case 2
    then obtain ys zs where "xs = ys @ zs" "hits hit ys = i - 1" "ys = [] \<or> hit (last ys)" "hits hit zs = j"
      using Cons.IH [of "i - 1"] Cons.prems by auto
    then show ?thesis using 2 by (intro exI [of _ "x # ys"] exI [of _ zs]) auto
  next
    case 3
    then obtain ys zs where "xs = ys @ zs" "hits hit ys = i" "ys = [] \<or> hit (last ys)" "hits hit zs = j"
      using Cons.IH [of "i"] Cons.prems by auto
    moreover from this have "ys \<noteq> []" using 3(1) by auto
    ultimately show ?thesis using 3 by (intro exI [of _ "x # ys"] exI [of _ zs]) auto
  qed
qed auto

lemma mod_shift_eq:
  assumes "0 < n" "(p + int i) mod n = (p + int j) mod n" "i \<le> j" "int j < int i + n"
  shows "i = j"
proof -
  have "n dvd (p + int j) - (p + int i)" using assms(2) by (metis mod_eq_dvd_iff)
  then have "n dvd int (j - i)" using assms(3) by (simp add: of_nat_diff)
  then show ?thesis using assms zdvd_imp_le [of n "int (j - i)"] by (cases "j = i") auto
qed

lemma INCREASE_WB_LIMIT_POINTER_ring:
  assumes "wb_shape c b" "ring b = xs @ Q" "xs \<noteq> []" "ftl_write_ptr b = frame_at c b (length xs)"
  shows "returns (INCREASE_WB_LIMIT_POINTER c b) (\<lambda>b'. wb_shape c b' \<and>
    ring b' = Q @ replicate (length xs) (CHR ''0'') \<and>
    (\<exists>a. b' = b\<lparr>wb_valid_array := a, write_limit_ptr := ftl_write_ptr b,
       empty_write_buffer_frame := empty_write_buffer_frame b + int (length xs)\<rparr>))"
  using assms
proof (induction xs arbitrary: b Q)
  case (Cons x xs)
  note w = wb_shapeD [OF Cons.prems(1)]
  let ?n = "WRITE_BUFFER_FRAME_NB c"
  have L: "frame_at c b 0 = write_limit_ptr b" using w by (simp add: frame_at_def)
  have r: "ring b = [] @ x # (xs @ Q)" using Cons.prems(2) by simp
  define b1 where "b1 = (set_ring (CHR ''0'' # xs @ Q) b)\<lparr>write_limit_ptr := frame_at c b 1,
      empty_write_buffer_frame := empty_write_buffer_frame b + 1\<rparr>"
  have arr: "wb_valid_array b1 = unrotate (nat (write_limit_ptr b)) (CHR ''0'' # xs @ Q)"
    by (simp add: b1_def set_ring_def)
  have len: "length (wb_valid_array b1) = length (wb_valid_array b)" "int (length (xs @ Q)) + 1 = ?n"
    using r w(6) ring_set_ring(4) [of b] by (simp_all add: arr)
  have sh: "wb_shape c b1"
    using w len nat_frame_at(2,3) [OF Cons.prems(1), of 1] by (simp add: wb_shape_def b1_def)
  have "ring b1 = rotate ((nat (write_limit_ptr b) + 1) mod length (wb_valid_array b1)) (wb_valid_array b1)"
    unfolding ring_def using nat_frame_at(1) [OF Cons.prems(1), of 1] len by (simp add: b1_def)
  also have "\<dots> = rotate (1 + nat (write_limit_ptr b)) (wb_valid_array b1)"
    by (metis add.commute rotate_conv_mod)
  also have "\<dots> = rotate 1 (CHR ''0'' # xs @ Q)"
    unfolding rotate_rotate [symmetric] arr by simp
  finally have ring1: "ring b1 = xs @ (Q @ [CHR ''0''])" by simp
  have step: "INCREASE_WB_LIMIT_POINTER c b =
      (if write_limit_ptr b1 \<noteq> ftl_write_ptr b1 then INCREASE_WB_LIMIT_POINTER c b1 else Some b1)"
    using ring_step(2) [OF Cons.prems(1) r, of "CHR ''0''"] L next_frame_frame_at [OF Cons.prems(1), of 0]
    by (subst INCREASE_WB_LIMIT_POINTER.simps) (simp add: b1_def Let_def)
  have ftl: "ftl_write_ptr b1 = ftl_write_ptr b" by (simp add: b1_def)
  have at1: "frame_at c b1 k = frame_at c b (Suc k)" for k
    by (simp add: frame_at_def b1_def mod_add_left_eq mod_add_right_eq add.assoc add.left_commute add.commute)
  have eq1: "b1 = b\<lparr>wb_valid_array := wb_valid_array b1, write_limit_ptr := frame_at c b 1,
      empty_write_buffer_frame := empty_write_buffer_frame b + 1\<rparr>"
    by (simp add: b1_def set_ring_def)
  show ?case
  proof (cases "xs = []")
    case True
    then have "write_limit_ptr b1 = ftl_write_ptr b1" using Cons.prems(4) by (simp add: b1_def)
    then show ?thesis unfolding step using sh ring1 True eq1 Cons.prems(4) by (auto simp del: ring_set_ring(4))
  next
    case False
    have "frame_at c b 1 \<noteq> frame_at c b (Suc (length xs))"
    proof
      assume "frame_at c b 1 = frame_at c b (Suc (length xs))"
      then have "1 = Suc (length xs)"
        unfolding frame_at_def using w(1) len(2) by (intro mod_shift_eq [of ?n "write_limit_ptr b"]) auto
      then show False using False by simp
    qed
    then have ne: "write_limit_ptr b1 \<noteq> ftl_write_ptr b1" using Cons.prems(4) by (simp add: b1_def)
    have "ftl_write_ptr b1 = frame_at c b1 (length xs)" using Cons.prems(4) by (simp add: ftl at1)
    from Cons.IH [OF sh ring1 False this] show ?thesis
      unfolding step if_P [OF ne]
    proof (rule returns_mono, elim conjE exE, intro conjI)
      fix b' a assume a: "ring b' = (Q @ [CHR ''0'']) @ replicate (length xs) (CHR ''0'')"
      show "ring b' = Q @ replicate (length (x # xs)) (CHR ''0'')" using a by simp
      assume "b' = b1\<lparr>wb_valid_array := a, write_limit_ptr := ftl_write_ptr b1,
         empty_write_buffer_frame := empty_write_buffer_frame b1 + int (length xs)\<rparr>"
      then show "\<exists>a. b' = b\<lparr>wb_valid_array := a, write_limit_ptr := ftl_write_ptr b,
         empty_write_buffer_frame := empty_write_buffer_frame b + int (length (x # xs))\<rparr>"
        by (intro exI [of _ a]) (simp add: b1_def set_ring_def)
    qed
  qed
qed simp

lemma INCREASE_WB_SATA_POINTER_ring:
  assumes "wb_shape c b" "ring b = u @ Q" "sata_write_ptr b = frame_at c b (length u)" "0 \<le> n" "n \<le> int (length Q)"
  shows "INCREASE_WB_SATA_POINTER c n b =
    Some ((set_ring (u @ replicate (nat n) (CHR ''V'') @ drop (nat n) Q) b)
      \<lparr>sata_write_ptr := frame_at c b (length u + nat n),
       empty_write_buffer_frame := empty_write_buffer_frame b - n\<rparr>)"
proof -
  define st where "st i = (set_ring (u @ replicate (nat i) (CHR ''V'') @ drop (nat i) Q) b)
      \<lparr>sata_write_ptr := frame_at c b (length u + nat i),
       empty_write_buffer_frame := empty_write_buffer_frame b - i\<rparr>" for i
  have "returns (INCREASE_WB_SATA_POINTER c n b) (\<lambda>b'. b' = st n)"
    unfolding INCREASE_WB_SATA_POINTER_def
  proof (rule ofold_range [OF assms(4)], goal_cases)
    case 1
    then show ?case using assms(2,3) ring_set_ring(2) [of b] by (simp add: st_def)
  next
    case (2 i s)
    let ?P = "u @ replicate (nat i) (CHR ''V'')"
    obtain q Q' where q: "drop (nat i) Q = q # Q'" using 2 assms(5) by (cases "drop (nat i) Q") auto
    define b1 where "b1 = s\<lparr>empty_write_buffer_frame := empty_write_buffer_frame s - 1\<rparr>"
    have len: "length (u @ replicate (nat i) (CHR ''V'') @ drop (nat i) Q) = length (ring b)"
      using 2 assms(5) unfolding assms(2) by auto
    have b1: "wb_shape c b1" "ring b1 = ?P @ q # Q'" "\<And>k. frame_at c b1 k = frame_at c b k"
      using wb_shape_set_ring [OF assms(1) len] 2(3) q by (auto simp: b1_def st_def simp del: wb_shape_moves(5))
    have p: "sata_write_ptr s = frame_at c b1 (length ?P)" using 2 by (simp add: st_def b1(3))
    have d: "drop (Suc (nat i)) Q = Q'" using q by (metis drop_Suc list.sel(3) tl_drop)
    have e: "nat (i + 1) = Suc (nat i)" using 2 by simp
    show ?case
      unfolding p b1_def [symmetric] ring_step(2) [OF b1(1,2)]
      using next_frame_frame_at [OF b1(1), of "length ?P"] 2(3) p
      by (simp add: b1_def st_def b1(3) d e replicate_app_Cons_same diff_diff_eq)
  qed
  then show ?thesis by (auto simp: returns_def st_def)
qed

section \<open>The read buffer\<close>

lemma RB_LIMIT_steps:
  assumes "0 \<le> read_limit_ptr b" "read_limit_ptr b < READ_BUFFER_FRAME_NB c" "int k < READ_BUFFER_FRAME_NB c"
    "ftl_read_ptr b = (read_limit_ptr b + int (Suc k)) mod READ_BUFFER_FRAME_NB c"
  shows "INCREASE_RB_LIMIT_POINTER c b = Some (b\<lparr>read_limit_ptr := ftl_read_ptr b\<rparr>)"
  using assms
proof (induction k arbitrary: b)
  case 0
  then show ?case by (subst INCREASE_RB_LIMIT_POINTER.simps) (simp add: next_frame_mod)
next
  case (Suc k)
  let ?n = "READ_BUFFER_FRAME_NB c"
  let ?b = "b\<lparr>read_limit_ptr := next_frame ?n (read_limit_ptr b)\<rparr>"
  have lim: "read_limit_ptr ?b = (read_limit_ptr b + int 1) mod ?n" using Suc.prems by (simp add: next_frame_mod)
  have "(read_limit_ptr b + int 1) mod ?n \<noteq> (read_limit_ptr b + int (Suc (Suc k))) mod ?n"
    using Suc.prems mod_shift_eq [of ?n "read_limit_ptr b" 1 "Suc (Suc k)"] by auto
  then have "read_limit_ptr ?b \<noteq> ftl_read_ptr ?b" unfolding lim using Suc.prems(4) by simp
  moreover have "ftl_read_ptr ?b = (read_limit_ptr ?b + int (Suc k)) mod ?n"
    unfolding lim using Suc.prems(4) by (simp add: mod_add_left_eq add.assoc)
  then have "INCREASE_RB_LIMIT_POINTER c ?b = Some (?b\<lparr>read_limit_ptr := ftl_read_ptr ?b\<rparr>)"
    using Suc.prems lim by (intro Suc.IH) auto
  ultimately show ?case by (subst INCREASE_RB_LIMIT_POINTER.simps) simp
qed

lemma INCREASE_RB_LIMIT_POINTER_eq:
  assumes "0 \<le> read_limit_ptr b" "read_limit_ptr b < READ_BUFFER_FRAME_NB c"
    "0 \<le> ftl_read_ptr b" "ftl_read_ptr b < READ_BUFFER_FRAME_NB c"
  shows "INCREASE_RB_LIMIT_POINTER c b = Some (b\<lparr>read_limit_ptr := ftl_read_ptr b\<rparr>)"
proof -
  let ?n = "READ_BUFFER_FRAME_NB c"
  define m where "m = (ftl_read_ptr b - read_limit_ptr b - 1) mod ?n"
  have m: "0 \<le> m" "m < ?n" using assms by (simp_all add: m_def)
  have "(read_limit_ptr b + 1 + m) mod ?n = ftl_read_ptr b mod ?n"
    unfolding m_def by (simp add: mod_add_right_eq)
  then have "ftl_read_ptr b = (read_limit_ptr b + int (Suc (nat m))) mod ?n"
    using assms m by (simp add: add.assoc)
  then show ?thesis using assms m by (intro RB_LIMIT_steps [of b c "nat m"]) auto
qed

text \<open>The two counted loops move by \<open>n\<close> frames.\<close>

lemma fold_upto_step:
  assumes "0 \<le> n" "g 0 = b" "\<And>i. 0 \<le> i \<Longrightarrow> i < n \<Longrightarrow> f i (g i) = g (i + 1)"
  shows "fold f [0..n - 1] b = g n"
  using assms
proof (induction "nat n" arbitrary: n)
  case (Suc k)
  then have "[0..n - 1] = [0..(n - 1) - 1] @ [n - 1]" by (subst upto_rec2) auto
  moreover have "fold f [0..(n - 1) - 1] b = g (n - 1)" using Suc by (intro Suc.hyps(1)) auto
  ultimately show ?case using Suc.prems(3) [of "n - 1"] Suc.hyps(2) by simp
qed simp

lemma INCREASE_RB_FTL_POINTER_eq:
  assumes "0 \<le> n" "0 \<le> ftl_read_ptr b" "ftl_read_ptr b < READ_BUFFER_FRAME_NB c"
  shows "INCREASE_RB_FTL_POINTER c n b = b\<lparr>ftl_read_ptr := (ftl_read_ptr b + n) mod READ_BUFFER_FRAME_NB c\<rparr>"
  unfolding INCREASE_RB_FTL_POINTER_def
  by (rule fold_upto_step) (use assms in \<open>simp_all add: next_frame_at\<close>)

lemma INCREASE_RB_SATA_POINTER_eq:
  assumes "0 \<le> n" "0 \<le> sata_read_ptr b" "sata_read_ptr b < READ_BUFFER_FRAME_NB c"
  shows "INCREASE_RB_SATA_POINTER c n b = b\<lparr>empty_read_buffer_frame := empty_read_buffer_frame b + n,
    sata_read_ptr := (sata_read_ptr b + n) mod READ_BUFFER_FRAME_NB c\<rparr>"
  unfolding INCREASE_RB_SATA_POINTER_def
  by (rule fold_upto_step) (use assms in \<open>simp_all add: next_frame_at\<close>)

lemma copy_frames_ring:
  assumes "wb_shape c b" "ring b = P @ xs @ Q" "\<forall>x\<in>set xs. not_I x" "count + int (length xs) = len"
    "0 \<le> count" "len < 4294967296" "int (length (write_buffer b)) = WRITE_BUFFER_FRAME_NB c"
    "int (length (read_buffer b)) = READ_BUFFER_FRAME_NB c" "0 \<le> ftl_read_ptr b" "ftl_read_ptr b < READ_BUFFER_FRAME_NB c"
    "int (length xs) \<le> READ_BUFFER_FRAME_NB c"
  shows "returns (copy_frames c len (frame_at c b (length P)) (ftl_read_ptr b) count b) (\<lambda>b'.
    \<exists>r. b' = b\<lparr>read_buffer := r, ftl_read_ptr := (ftl_read_ptr b + int (length xs)) mod READ_BUFFER_FRAME_NB c\<rparr> \<and>
      length r = length (read_buffer b) \<and>
      (\<forall>i<length xs. r ! nat ((ftl_read_ptr b + int i) mod READ_BUFFER_FRAME_NB c) =
         write_buffer b ! nat (frame_at c b (length P + i))) \<and>
      (\<forall>j. (\<forall>i<length xs. j \<noteq> nat ((ftl_read_ptr b + int i) mod READ_BUFFER_FRAME_NB c)) \<longrightarrow> r ! j = read_buffer b ! j))"
  using assms
proof (induction xs arbitrary: P count b)
  case Nil
  then show ?case by (subst copy_frames.simps) (simp add: u32_id exI [of _ "read_buffer b"])
next
  case (Cons x xs)
  let ?R = "READ_BUFFER_FRAME_NB c" and ?f = "ftl_read_ptr b"
  have r: "ring b = P @ x # xs @ Q" using Cons.prems(2) by simp
  define b1 where "b1 = b\<lparr>read_buffer := (read_buffer b)[nat ?f := write_buffer b ! nat (frame_at c b (length P))],
      ftl_read_ptr := (?f + 1) mod ?R\<rparr>"
  have f1: "ftl_read_ptr b1 = (?f + 1) mod ?R" "frame_at c b1 = frame_at c b" "ring b1 = ring b"
    "write_buffer b1 = write_buffer b" "length (read_buffer b1) = length (read_buffer b)"
    "wb_shape c b1" "length (P @ [x]) = Suc (length P)"
    using Cons.prems(1) by (auto simp: b1_def frame_at_def ring_def wb_shape_def)
  have step: "copy_frames c len (frame_at c b (length P)) ?f count b =
      copy_frames c len (frame_at c b1 (length (P @ [x]))) (ftl_read_ptr b1) (count + 1) b1"
    using Cons.prems(3-10) ring_step(1) [OF Cons.prems(1) r] next_frame_frame_at [OF Cons.prems(1), of "length P"]
      nat_frame_at(2,3) [OF Cons.prems(1), of "length P"]
    by (subst copy_frames.simps) (auto simp: b1_def u32_id aget_def aset_def next_frame_mod frame_at_def)
  have ih: "returns (copy_frames c len (frame_at c b1 (length (P @ [x]))) (ftl_read_ptr b1) (count + 1) b1) (\<lambda>b'.
    \<exists>r. b' = b1\<lparr>read_buffer := r, ftl_read_ptr := (ftl_read_ptr b1 + int (length xs)) mod ?R\<rparr> \<and>
      length r = length (read_buffer b1) \<and>
      (\<forall>i<length xs. r ! nat ((ftl_read_ptr b1 + int i) mod ?R) =
         write_buffer b1 ! nat (frame_at c b1 (length (P @ [x]) + i))) \<and>
      (\<forall>j. (\<forall>i<length xs. j \<noteq> nat ((ftl_read_ptr b1 + int i) mod ?R)) \<longrightarrow> r ! j = read_buffer b1 ! j))"
    using Cons.prems by (intro Cons.IH) (auto simp: f1)
  have at: "(ftl_read_ptr b1 + int i) mod ?R = (?f + int (Suc i)) mod ?R" for i
    by (simp add: f1(1) mod_add_left_eq add.assoc)
  have ne: "nat ?f \<noteq> nat ((?f + int (Suc i)) mod ?R)" if "i < length xs" for i
  proof
    assume "nat ?f = nat ((?f + int (Suc i)) mod ?R)"
    moreover have "0 \<le> (?f + int (Suc i)) mod ?R" using Cons.prems(9,10) by simp
    ultimately have "?f = (?f + int (Suc i)) mod ?R" using Cons.prems(9) by (simp only: eq_nat_nat_iff)
    then have "(?f + int 0) mod ?R = (?f + int (Suc i)) mod ?R" using Cons.prems(9,10) by simp
    then have "0 = Suc i" using Cons.prems(9-11) that by (intro mod_shift_eq [of ?R ?f]) auto
    then show False by simp
  qed
  have b1r: "read_buffer b1 ! nat ?f = write_buffer b ! nat (frame_at c b (length P))"
    "\<And>j. j \<noteq> nat ?f \<Longrightarrow> read_buffer b1 ! j = read_buffer b ! j"
    using Cons.prems(8-10) by (auto simp: b1_def)
  from ih show ?case
    unfolding step at
  proof (rule returns_mono, elim exE conjE)
    fix b' r'
    assume b': "b' = b1\<lparr>read_buffer := r', ftl_read_ptr := (?f + int (Suc (length xs))) mod ?R\<rparr>"
      and l: "length r' = length (read_buffer b1)"
      and h: "\<forall>i<length xs. r' ! nat ((?f + int (Suc i)) mod ?R) = write_buffer b1 ! nat (frame_at c b1 (length (P @ [x]) + i))"
      and o: "\<forall>j. (\<forall>i<length xs. j \<noteq> nat ((?f + int (Suc i)) mod ?R)) \<longrightarrow> r' ! j = read_buffer b1 ! j"
    have "r' ! nat ((?f + int i) mod ?R) = write_buffer b ! nat (frame_at c b (length P + i))" if "i < Suc (length xs)" for i
    proof (cases i)
      case 0
      have "r' ! nat ?f = read_buffer b1 ! nat ?f" using o ne by blast
      then show ?thesis using 0 b1r(1) Cons.prems(9,10) by simp
    next
      case (Suc k)
      then show ?thesis using h that f1 by simp
    qed
    moreover have "r' ! j = read_buffer b ! j" if j: "\<forall>i<Suc (length xs). j \<noteq> nat ((?f + int i) mod ?R)" for j
    proof -
      have "j \<noteq> nat ?f" using spec [OF j, of 0] Cons.prems(9,10) by simp
      moreover have "\<forall>i<length xs. j \<noteq> nat ((?f + int (Suc i)) mod ?R)" using j by blast
      ultimately show ?thesis using o b1r(2) by simp
    qed
    ultimately show "\<exists>r. b' = b\<lparr>read_buffer := r, ftl_read_ptr := (?f + int (length (x # xs))) mod ?R\<rparr> \<and>
      length r = length (read_buffer b) \<and>
      (\<forall>i<length (x # xs). r ! nat ((?f + int i) mod ?R) = write_buffer b ! nat (frame_at c b (length P + i))) \<and>
      (\<forall>j. (\<forall>i<length (x # xs). j \<noteq> nat ((?f + int i) mod ?R)) \<longrightarrow> r ! j = read_buffer b ! j)"
      using b' l f1(5) by (intro exI [of _ r']) (simp add: b1_def)
  qed
qed

lemma COPY_DATA_TO_READ_BUFFER_frames:
  assumes b: "wb_shape c b" "ring b = P @ xs @ Q" "\<forall>x\<in>set xs. not_I x"
    and e: "ev_buf e = Read_Frame (ftl_read_ptr b)" "ev_buf w = Write_Frame (frame_at c b (length P))"
    and off: "0 \<le> ev_sector_nb e - ev_sector_nb w" "ev_sector_nb e - ev_sector_nb w < 2147483648"
    and len: "0 \<le> ev_length e" "ev_length e < 4294967296" "ev_length e \<le> READ_BUFFER_FRAME_NB c"
      "ev_sector_nb e - ev_sector_nb w + ev_length e \<le> int (length xs)"
    and buf: "int (length (write_buffer b)) = WRITE_BUFFER_FRAME_NB c" "int (length (read_buffer b)) = READ_BUFFER_FRAME_NB c"
      "0 \<le> ftl_read_ptr b" "ftl_read_ptr b < READ_BUFFER_FRAME_NB c"
      "0 \<le> read_limit_ptr b" "read_limit_ptr b < READ_BUFFER_FRAME_NB c"
  shows "returns (COPY_DATA_TO_READ_BUFFER c e w b) (\<lambda>b'.
    \<exists>r. b' = b\<lparr>read_buffer := r, ftl_read_ptr := (ftl_read_ptr b + ev_length e) mod READ_BUFFER_FRAME_NB c,
        read_limit_ptr := (ftl_read_ptr b + ev_length e) mod READ_BUFFER_FRAME_NB c\<rparr> \<and>
      length r = length (read_buffer b) \<and>
      (\<forall>i<nat (ev_length e). r ! nat ((ftl_read_ptr b + int i) mod READ_BUFFER_FRAME_NB c) =
         write_buffer b ! nat (frame_at c b (length P + nat (ev_sector_nb e - ev_sector_nb w) + i))))"
proof -
  let ?R = "READ_BUFFER_FRAME_NB c"
  define k where "k = nat (ev_sector_nb e - ev_sector_nb w)"
  obtain pre ys zs where xs: "xs = pre @ ys @ zs" "length pre = k" "length ys = nat (ev_length e)"
  proof
    show "xs = take k xs @ take (nat (ev_length e)) (drop k xs) @ drop (nat (ev_length e)) (drop k xs)"
      by (simp only: append_take_drop_id)
  qed (use len off in \<open>auto simp: k_def\<close>)
  have I: "\<forall>x\<in>set pre. not_I x" "\<forall>x\<in>set ys. not_I x" using b(3) xs(1) by auto
  have "hits not_I pre = int k - 0" using I(1) xs(2) by (simp add: filter_id_conv [THEN iffD2])
  moreover have "pre = [] \<or> not_I (last pre)" using I(1) last_in_set by blast
  ultimately have sk: "skip_frames c (int k) (frame_at c b (length P)) 0 b = Some (frame_at c b (length (P @ pre)))"
    using b(2) by (intro skip_frames_ring [OF b(1), of P pre "ys @ zs @ Q"]) (simp_all add: xs(1))
  have off': "i32 (ev_sector_nb e - ev_sector_nb w) = int k" using off by (simp add: k_def i32_id)
  have "returns (copy_frames c (ev_length e) (frame_at c b (length (P @ pre))) (ftl_read_ptr b) 0 b) (\<lambda>b'.
    \<exists>r. b' = b\<lparr>read_buffer := r, ftl_read_ptr := (ftl_read_ptr b + int (length ys)) mod ?R\<rparr> \<and>
      length r = length (read_buffer b) \<and>
      (\<forall>i<length ys. r ! nat ((ftl_read_ptr b + int i) mod ?R) = write_buffer b ! nat (frame_at c b (length (P @ pre) + i))) \<and>
      (\<forall>j. (\<forall>i<length ys. j \<noteq> nat ((ftl_read_ptr b + int i) mod ?R)) \<longrightarrow> r ! j = read_buffer b ! j))"
    using b(2) len(1-3) by (intro copy_frames_ring [OF b(1) _ I(2), where Q = "zs @ Q"] buf(1-4)) (simp_all add: xs)
  then show ?thesis
    unfolding COPY_DATA_TO_READ_BUFFER_def e off' frame_ptr.case prod.case sk Option.bind.bind_lunit returns_bind
  proof (rule returns_mono, elim exE conjE)
    fix b' r
    assume b': "b' = b\<lparr>read_buffer := r, ftl_read_ptr := (ftl_read_ptr b + int (length ys)) mod ?R\<rparr>"
      and h: "length r = length (read_buffer b)" "\<forall>i<length ys. r ! nat ((ftl_read_ptr b + int i) mod ?R) =
        write_buffer b ! nat (frame_at c b (length (P @ pre) + i))"
    have "INCREASE_RB_LIMIT_POINTER c b' = Some (b'\<lparr>read_limit_ptr := ftl_read_ptr b'\<rparr>)"
      using buf by (intro INCREASE_RB_LIMIT_POINTER_eq) (simp_all add: b')
    then show "returns (INCREASE_RB_LIMIT_POINTER c b') (\<lambda>b'. \<exists>r. b' = b\<lparr>read_buffer := r,
        ftl_read_ptr := (ftl_read_ptr b + ev_length e) mod ?R, read_limit_ptr := (ftl_read_ptr b + ev_length e) mod ?R\<rparr> \<and>
      length r = length (read_buffer b) \<and>
      (\<forall>i<nat (ev_length e). r ! nat ((ftl_read_ptr b + int i) mod ?R) =
         write_buffer b ! nat (frame_at c b (length P + nat (ev_sector_nb e - ev_sector_nb w) + i))))"
      unfolding returns_def using h xs(2,3) len(1) b' by (auto simp: k_def intro!: exI [of _ r])
  qed
qed

end
