(* ===== verification/Firm_Device.thy ===== *)
theory Firm_Device
  imports Host_Spec Firm_Ring
begin

text \<open>
  The device with \<^verbatim>\<open>FIRM_IO_BUFFER\<close>: the operations of \<^verbatim>\<open>FIRMWARE/firm_buffer_manager.c\<close> that
  call the FTL, the FTL functions of \<^verbatim>\<open>FTL/PAGE_MAP/ftl.c\<close> as they are compiled in that
  build, where they move the pointers of the buffers, and the matching branches of
  \<^verbatim>\<open>FIRMWARE/ssd.c\<close>. The state is the buffer beside the rest of the device.
\<close>

type_synonym firm = "io_buffer \<times> ssd"

section \<open>The FTL with buffers\<close>

definition FTL_READ_buffered :: "clock \<Rightarrow> ssd_config \<Rightarrow> int \<Rightarrow> int \<Rightarrow> firm \<Rightarrow> (status \<times> firm) option" where
  "FTL_READ_buffered gt c sector_nb len = (\<lambda>(b, s).
     if exceeds_sectors c sector_nb len then Some (FAIL, (b, s))
     else do {
       skip \<leftarrow> cmod sector_nb (SECTORS_PER_PAGE c);
       let b = INCREASE_RB_FTL_POINTER c (i32 len) b;
       ok \<leftarrow> read_check c sector_nb len (u32 skip) (tables s);
       if ok = FAIL then do {
         b \<leftarrow> INCREASE_RB_LIMIT_POINTER c b;
         Some (FAIL, (b, s))
       }
       else do {
         ((overhead, io_page_nb), d) \<leftarrow> ALLOC_IO_REQUEST gt c sector_nb len READ (dev s);
         (ret, d) \<leftarrow> read_pages gt c sector_nb len (u32 skip) 0 (tables s) FAIL
                      (d\<lparr>io_alloc_overhead := overhead\<rparr>);
         b \<leftarrow> INCREASE_RB_LIMIT_POINTER c b;
         Some (ret, (b, s\<lparr>dev := INCREASE_IO_REQUEST_SEQ_NB d\<rparr>))
       }
     })"

partial_function (option) write_pages_buffered ::
  "clock \<Rightarrow> ssd_config \<Rightarrow> int \<Rightarrow> int \<Rightarrow> int \<Rightarrow> int \<Rightarrow> status \<Rightarrow> io_buffer \<Rightarrow> ssd
    \<Rightarrow> ((bool \<times> status) \<times> firm) option" where
  "write_pages_buffered gt c lba remain left_skip n ret b s =
     (if remain > 0 then do {
        let right_skip = request_right_skip (SECTORS_PER_PAGE c) remain left_skip;
        let sects = request_sects (SECTORS_PER_PAGE c) remain left_skip;
        b \<leftarrow> INCREASE_WB_FTL_POINTER c (i32 sects) b;
        (page, t) \<leftarrow> GET_NEW_PAGE c VICTIM_OVERALL (EMPTY_TABLE_ENTRY_NB c) (tables s);
        case page of
          None \<Rightarrow> Some ((True, FAIL), (b, s\<lparr>tables := t\<rparr>))
        | Some new_ppn \<Rightarrow> do {
            (ret', s') \<leftarrow> write_page gt c (lba sdiv SECTORS_PER_PAGE c) new_ppn
                          (left_skip \<noteq> 0 \<or> right_skip \<noteq> 0) n (s\<lparr>tables := t\<rparr>);
            write_pages_buffered gt c (i32 (lba + sects)) (u32 (remain - sects)) 0 (n + 1) ret' b s'
          }
      }
      else Some ((False, ret), (b, s)))"

definition FTL_WRITE_buffered :: "clock \<Rightarrow> ssd_config \<Rightarrow> int \<Rightarrow> int \<Rightarrow> firm \<Rightarrow> (status \<times> firm) option" where
  "FTL_WRITE_buffered gt c sector_nb len = (\<lambda>(b, s).
     if exceeds_sectors c sector_nb len then Some (FAIL, (b, s))
     else do {
       ((overhead, io_page_nb), d) \<leftarrow> ALLOC_IO_REQUEST gt c sector_nb len WRITE (dev s);
       skip \<leftarrow> cmod sector_nb (SECTORS_PER_PAGE c);
       ((early, ret), (b, s)) \<leftarrow> write_pages_buffered gt c sector_nb len (u32 skip) 0 FAIL b
                               (s\<lparr>dev := d\<lparr>io_alloc_overhead := overhead\<rparr>\<rparr>);
       if early then Some (FAIL, (b, s))
       else do {
         s \<leftarrow> GC_CHECK gt c (s\<lparr>dev := INCREASE_IO_REQUEST_SEQ_NB (dev s)\<rparr>);
         b \<leftarrow> INCREASE_WB_LIMIT_POINTER c b;
         Some (ret, (b, s))
       }
     })"

section \<open>Taking an event from the queue\<close>

text \<open>
  The position of \<^verbatim>\<open>last_read_entry\<close> after the head is removed. The head is freed if it is a
  write, so it is not the last read.
\<close>

definition unlink_read :: "io_op \<Rightarrow> nat option \<Rightarrow> nat option option" where
  "unlink_read io_type p =
     (case p of
        None \<Rightarrow> Some None
      | Some 0 \<Rightarrow> if io_type = WRITE then None else Some None
      | Some (Suc r) \<Rightarrow> Some (Some r))"

definition unlink_head :: "event_queue \<Rightarrow> event_queue" where
  "unlink_head q = \<lparr>q_entry_nb = q_entry_nb q - 1,
     q_entries = (if q_entry_nb q - 1 = 0 then [] else tl (q_entries q))\<rparr>"

definition DEQUEUE_IO :: "clock \<Rightarrow> ssd_config \<Rightarrow> firm \<Rightarrow> firm option" where
  "DEQUEUE_IO gt c = (\<lambda>(b, s).
     if q_entry_nb (e_queue b) = 0 \<or> q_entries (e_queue b) = [] then Some (b, s)
     else do {
       let e = hd (q_entries (e_queue b));
       r \<leftarrow> unlink_read (ev_io_type e) (last_read_entry b);
       let b = b\<lparr>e_queue := unlink_head (e_queue b), last_read_entry := r\<rparr>;
       (e, (b, s)) \<leftarrow>
         (if ev_valid e = VALID \<and> ev_io_type e = READ \<and> ev_buf e = Null then do {
            let e = e\<lparr>ev_buf := Read_Frame (ftl_read_ptr b)\<rparr>;
            (ret, bs) \<leftarrow> FTL_READ_buffered gt c (ev_sector_nb e) (ev_length e) (b, s);
            Some (e, bs)
          }
          else if ev_valid e = VALID \<and> ev_io_type e = WRITE then do {
            (ret, bs) \<leftarrow> FTL_WRITE_buffered gt c (ev_sector_nb e) (ev_length e) (b, s);
            Some (e, bs)
          }
          else Some (e, (b, s)));
       if ev_io_type e = READ then do {
         q \<leftarrow> append_event e (c_e_queue b);
         Some (b\<lparr>c_e_queue := q\<rparr>, s)
       }
       else Some (b, s)
     })"

text \<open>The argument is the position of the entry, \<open>None\<close> for NULL.\<close>

definition FLUSH_EVENT_QUEUE_UNTIL :: "clock \<Rightarrow> ssd_config \<Rightarrow> nat option \<Rightarrow> firm \<Rightarrow> firm option" where
  "FLUSH_EVENT_QUEUE_UNTIL gt c p = (\<lambda>(b, s).
     case p of
       None \<Rightarrow> Some (b, s)
     | Some i \<Rightarrow>
         if q_entries (e_queue b) = [] then Some (b, s)
         else
           let count = (if Suc i = length (q_entries (e_queue b)) then q_entry_nb (e_queue b) else int i + 1)
           in ofold (\<lambda>i. DEQUEUE_IO gt c) [0..count - 1] (b, s))"

definition tail_position :: "event_queue \<Rightarrow> nat option" where
  "tail_position q = (if q_entries q = [] then None else Some (length (q_entries q) - 1))"

definition SECURE_WRITE_BUFFER :: "clock \<Rightarrow> ssd_config \<Rightarrow> firm \<Rightarrow> firm option" where
  "SECURE_WRITE_BUFFER gt c = (\<lambda>(b, s).
     FLUSH_EVENT_QUEUE_UNTIL gt c (tail_position (e_queue b)) (b, s))"

definition SECURE_READ_BUFFER :: "clock \<Rightarrow> ssd_config \<Rightarrow> firm \<Rightarrow> firm option" where
  "SECURE_READ_BUFFER gt c = (\<lambda>(b, s). do {
     b \<leftarrow> (if q_entry_nb (c_e_queue b) \<noteq> 0 then DEQUEUE_COMPLETED_READ c b else Some b);
     if last_read_entry b \<noteq> None then do {
       (b, s) \<leftarrow> FLUSH_EVENT_QUEUE_UNTIL gt c (last_read_entry b) (b, s);
       b \<leftarrow> DEQUEUE_COMPLETED_READ c b;
       Some (b, s)
     }
     else Some (b, s)
   })"

section \<open>Adding an event to the queue\<close>

text \<open>The new read becomes the entry after \<^verbatim>\<open>last_read_entry\<close>, or the head if there is no read.\<close>

definition insert_read :: "event_queue_entry \<Rightarrow> io_buffer \<Rightarrow> io_buffer" where
  "insert_read e b =
     (let es = q_entries (e_queue b); i = after_reads b
      in b\<lparr>e_queue := \<lparr>q_entry_nb = q_entry_nb (e_queue b) + 1, q_entries = take i es @ e # drop i es\<rparr>,
           last_read_entry := Some i\<rparr>)"

definition ENQUEUE_READ :: "clock \<Rightarrow> ssd_config \<Rightarrow> int \<Rightarrow> int \<Rightarrow> firm \<Rightarrow> firm option" where
  "ENQUEUE_READ gt c sector_nb len = (\<lambda>(b, s). do {
     let e = ALLOC_NEW_EVENT READ sector_nb len Null;
     (b, s) \<leftarrow>
       (if q_entry_nb (e_queue b) = 0 then
          Some (b\<lparr>e_queue := \<lparr>q_entry_nb = 1, q_entries = [e]\<rparr>, last_read_entry := Some 0\<rparr>, s)
        else case CHECK_IO_DEPENDENCY_FOR_READ sector_nb len b of
          None \<Rightarrow> Some (insert_read e b, s)
        | Some i \<Rightarrow> do {
            let w = q_entries (e_queue b) ! i;
            (b, s) \<leftarrow> FLUSH_EVENT_QUEUE_UNTIL gt c (Some i) (b, s);
            if ev_sector_nb w \<le> sector_nb \<and> u32 (sector_nb + len) \<le> u32 (ev_sector_nb w + ev_length w)
            then do {
              let e = e\<lparr>ev_buf := Read_Frame (ftl_read_ptr b)\<rparr>;
              b \<leftarrow> COPY_DATA_TO_READ_BUFFER c e w b;
              Some (insert_read e b, s)
            }
            else Some (insert_read e b, s)
          });
     Some (b\<lparr>empty_read_buffer_frame := empty_read_buffer_frame b - i32 len\<rparr>, s)
   })"

definition ENQUEUE_IO :: "clock \<Rightarrow> ssd_config \<Rightarrow> io_op \<Rightarrow> int \<Rightarrow> int \<Rightarrow> firm \<Rightarrow> firm option" where
  "ENQUEUE_IO gt c io_type sector_nb len = (\<lambda>(b, s).
     if io_type = READ then ENQUEUE_READ gt c sector_nb len (b, s)
     else if io_type = WRITE then do {
       b \<leftarrow> ENQUEUE_WRITE c sector_nb len b;
       Some (b, s)
     }
     else Some (b, s))"

section \<open>The interface of the firmware\<close>

definition SSD_WRITE_buffered :: "clock \<Rightarrow> ssd_config \<Rightarrow> int \<Rightarrow> int \<Rightarrow> firm \<Rightarrow> firm option" where
  "SSD_WRITE_buffered gt c len sector_nb = (\<lambda>(b, s). do {
     b \<leftarrow> DEQUEUE_COMPLETED_READ c b;
     (b, s) \<leftarrow> (if EVENT_QUEUE_IS_FULL WRITE len b = SUCCESS then SECURE_WRITE_BUFFER gt c (b, s)
                else Some (b, s));
     ENQUEUE_IO gt c WRITE sector_nb len (b, s)
   })"

definition SSD_READ_buffered :: "clock \<Rightarrow> ssd_config \<Rightarrow> int \<Rightarrow> int \<Rightarrow> firm \<Rightarrow> firm option" where
  "SSD_READ_buffered gt c len sector_nb = (\<lambda>(b, s). do {
     b \<leftarrow> DEQUEUE_COMPLETED_READ c b;
     (b, s) \<leftarrow> (if EVENT_QUEUE_IS_FULL READ len b = SUCCESS then SECURE_READ_BUFFER gt c (b, s)
                else Some (b, s));
     ENQUEUE_IO gt c READ sector_nb len (b, s)
   })"

definition FTL_INIT_buffered ::
  "string option \<Rightarrow> disk \<Rightarrow> ssd_config \<times> firm \<Rightarrow> (ssd_config \<times> firm) option" where
  "FTL_INIT_buffered conf d = (\<lambda>(c, (b, s)).
     if g_init s = 0 then do {
       c \<leftarrow> INIT_SSD_CONFIG True conf c;
       t \<leftarrow> init_tables c d (tables s);
       Some (c, (INIT_IO_BUFFER c,
                 s\<lparr>tables := t, dev := SSD_IO_INIT c (INIT_PERF_CHECKER (dev s)), g_init := 1\<rparr>))
     }
     else Some (c, (b, s)))"

text \<open>\<^verbatim>\<open>TERM_IO_BUFFER\<close> flushes the queue and frees the buffers, which no longer exist then.\<close>

definition TERM_IO_BUFFER :: "clock \<Rightarrow> ssd_config \<Rightarrow> firm \<Rightarrow> ssd option" where
  "TERM_IO_BUFFER gt c = (\<lambda>(b, s). do {
     (b, s) \<leftarrow> FLUSH_EVENT_QUEUE_UNTIL gt c (tail_position (e_queue b)) (b, s);
     Some s
   })"

definition FTL_TERM_buffered :: "clock \<Rightarrow> ssd_config \<Rightarrow> firm \<Rightarrow> disk \<Rightarrow> disk option" where
  "FTL_TERM_buffered gt c bs d = do {
     s \<leftarrow> TERM_IO_BUFFER gt c bs;
     term_tables c (tables s) d
   }"

section \<open>The buffered FTL does what the unbuffered one does\<close>

text \<open>
  On the tables and the chips the buffered functions agree with those of \<open>Ftl\<close>; beside that
  they move the pointers by the sectors of the request.
\<close>

lemma INCREASE_WB_FTL_POINTER_ring:
  assumes "wb_shape c b" "ring b = P @ xs @ Q" "hits is_V xs = n" "xs = [] \<or> is_V (last xs)"
    "ftl_write_ptr b = frame_at c b (length P)"
  shows "INCREASE_WB_FTL_POINTER c n b =
    Some ((set_ring (P @ remark is_V (CHR ''F'') xs @ Q) b)\<lparr>ftl_write_ptr := frame_at c b (length (P @ xs))\<rparr>)"
  unfolding INCREASE_WB_FTL_POINTER_def using assms by (intro wb_ftl_loop_ring) simp_all

lemma write_pages_buffered_ring:
  assumes wf: "wf_config c" and a: "at_sector c lba remain left_skip"
    and w: "write_pages gt c lba remain left_skip n ret s = Some ((False, r), s')"
    and b: "wb_shape c b" "ring b = P @ xs @ Q" "hits is_V xs = remain" "xs = [] \<or> is_V (last xs)"
      "ftl_write_ptr b = frame_at c b (length P)"
  shows "write_pages_buffered gt c lba remain left_skip n ret b s = Some ((False, r),
    ((set_ring (P @ remark is_V (CHR ''F'') xs @ Q) b)\<lparr>ftl_write_ptr := frame_at c b (length (P @ xs))\<rparr>, s'))"
  using a w b
proof (induction "nat remain" arbitrary: lba remain left_skip n ret s b P xs rule: less_induct)
  case less
  show ?case
  proof (cases "0 < remain")
    case False
    then have "length (filter is_V xs) = 0" using less.prems(5) by linarith
    then have "filter is_V xs = []" by simp
    then have "xs = []" using less.prems(6) last_in_set [of xs] by (metis (mono_tags, lifting) filter_empty_conv)
    moreover from this have "set_ring (P @ Q) b = b" using less.prems(4) ring_set_ring(2) [of b] by simp
    ultimately show ?thesis using False less.prems(2,7)
      by (subst (asm) write_pages.simps, subst write_pages_buffered.simps) simp
  next
    case True
    obtain m where m: "request_sects (SECTORS_PER_PAGE c) remain left_skip = m" "0 < m" "m \<le> remain"
      "i32 (lba + m) = lba + m" "u32 (remain - m) = remain - m" "at_sector c (lba + m) (remain - m) 0"
      by (rule at_sector_step [OF wf less.prems(1) True])
    have im: "i32 m = m" using m less.prems(1) wf_sectors(2) [OF wf] by (intro i32_id) (auto simp: at_sector_def)
    obtain ys zs where yz: "xs = ys @ zs" "hits is_V ys = m" "ys = [] \<or> is_V (last ys)" "hits is_V zs = remain - m"
      using split_hits [of is_V xs m "remain - m"] less.prems(5) m by auto
    have z: "zs = [] \<or> is_V (last zs)" using less.prems(6) yz(1) by (cases "zs = []") simp_all
    let ?b = "(set_ring (P @ remark is_V (CHR ''F'') ys @ zs @ Q) b)\<lparr>ftl_write_ptr := frame_at c b (length (P @ ys))\<rparr>"
    have i: "INCREASE_WB_FTL_POINTER c m b = Some ?b"
      using less.prems(3,4,7) yz by (intro INCREASE_WB_FTL_POINTER_ring) simp_all
    have sh: "wb_shape c (set_ring (P @ remark is_V (CHR ''F'') ys @ zs @ Q) b)"
      using less.prems(4) yz(1) by (intro wb_shape_set_ring less.prems(3)) (simp del: ring_set_ring(4))
    obtain page t where g: "GET_NEW_PAGE c VICTIM_OVERALL (EMPTY_TABLE_ENTRY_NB c) (tables s) = Some (page, t)"
      using less.prems(2) True by (subst (asm) write_pages.simps) (auto simp: Let_def bind_eq_Some_conv)
    obtain ppn where p: "page = Some ppn"
      using less.prems(2) True g by (subst (asm) write_pages.simps) (auto simp: Let_def split: option.splits)
    let ?wp = "write_page gt c (lba sdiv SECTORS_PER_PAGE c) ppn
      (left_skip \<noteq> 0 \<or> request_right_skip (SECTORS_PER_PAGE c) remain left_skip \<noteq> 0) n (s\<lparr>tables := t\<rparr>)"
    obtain r1 s1 where wp: "?wp = Some (r1, s1)" "write_pages gt c (lba + m) (remain - m) 0 (n + 1) r1 s1 = Some ((False, r), s')"
      using less.prems(2) True g p m by (subst (asm) write_pages.simps) (auto simp: Let_def bind_eq_Some_conv)
    have "write_pages_buffered gt c (lba + m) (remain - m) 0 (n + 1) r1 ?b s1 = Some ((False, r),
      ((set_ring ((P @ remark is_V (CHR ''F'') ys) @ remark is_V (CHR ''F'') zs @ Q) ?b)
        \<lparr>ftl_write_ptr := frame_at c ?b (length ((P @ remark is_V (CHR ''F'') ys) @ zs))\<rparr>, s'))"
      using m(2,3) True
      by (intro less.hyps [OF _ m(6) wp(2) _ _ yz(4) z]) (simp_all add: sh [simplified])
    then show ?thesis
      using True g p wp(1) m im i yz(1) by (subst write_pages_buffered.simps) (simp add: Let_def)
  qed
qed

lemma FTL_READ_buffered_eq:
  assumes "\<not> exceeds_sectors c sector_nb len" "0 \<le> len" "len < 2147483648"
    "0 \<le> read_limit_ptr b" "read_limit_ptr b < READ_BUFFER_FRAME_NB c"
    "0 \<le> ftl_read_ptr b" "ftl_read_ptr b < READ_BUFFER_FRAME_NB c"
  shows "FTL_READ_buffered gt c sector_nb len (b, s) =
    map_option (\<lambda>(ret, s'). (ret,
      (b\<lparr>ftl_read_ptr := (ftl_read_ptr b + len) mod READ_BUFFER_FRAME_NB c,
         read_limit_ptr := (ftl_read_ptr b + len) mod READ_BUFFER_FRAME_NB c\<rparr>, s'))) (FTL_READ_impl gt c sector_nb len s)"
proof -
  let ?b = "b\<lparr>ftl_read_ptr := (ftl_read_ptr b + len) mod READ_BUFFER_FRAME_NB c\<rparr>"
  have i: "INCREASE_RB_FTL_POINTER c (i32 len) b = ?b"
    using assms by (simp add: i32_id INCREASE_RB_FTL_POINTER_eq)
  have l: "INCREASE_RB_LIMIT_POINTER c ?b = Some (?b\<lparr>read_limit_ptr := ftl_read_ptr ?b\<rparr>)"
    using assms by (intro INCREASE_RB_LIMIT_POINTER_eq) simp_all
  show ?thesis
    unfolding FTL_READ_buffered_def FTL_READ_impl_def prod.case if_not_P [OF assms(1)] Let_def i l
    by (cases "cmod sector_nb (SECTORS_PER_PAGE c)")
      (auto simp: l split: option.splits bind_splits)
qed

lemma FTL_WRITE_buffered_ring:
  assumes wf: "wf_config c" and r: "in_range c sector_nb len"
    and w: "FTL_WRITE_impl gt c sector_nb len s = Some (SUCCESS, s')"
    and b: "wb_shape c b" "ring b = xs @ Q" "hits is_V xs = len" "is_V (last xs)"
      "ftl_write_ptr b = write_limit_ptr b"
  shows "returns (FTL_WRITE_buffered gt c sector_nb len (b, s)) (\<lambda>(ret, (b', s'')).
    ret = SUCCESS \<and> s'' = s' \<and> wb_shape c b' \<and> ring b' = Q @ replicate (length xs) (CHR ''0'') \<and>
    (\<exists>a. b' = b\<lparr>wb_valid_array := a, ftl_write_ptr := frame_at c b (length xs),
       write_limit_ptr := frame_at c b (length xs),
       empty_write_buffer_frame := empty_write_buffer_frame b + int (length xs)\<rparr>))"
proof -
  note st = in_range_start [OF wf r]
  have spp: "SECTORS_PER_PAGE c \<noteq> 0" using wf_configD(1) [OF wf] by simp
  have l0: "0 < len" using r by (simp add: in_range_def)
  have xs: "xs \<noteq> []" using b(3) l0 by auto
  obtain ov pn d1 where a: "ALLOC_IO_REQUEST gt c sector_nb len WRITE (dev s) = Some ((ov, pn), d1)"
    using w st(1) by (auto simp: FTL_WRITE_impl_def bind_eq_Some_conv)
  let ?s1 = "s\<lparr>dev := d1\<lparr>io_alloc_overhead := ov\<rparr>\<rparr>"
  obtain early ret s2 where p: "write_pages gt c sector_nb len (sector_nb mod SECTORS_PER_PAGE c) 0 FAIL ?s1 = Some ((early, ret), s2)"
    using w st(1-3) spp a by (auto simp: FTL_WRITE_impl_def bind_eq_Some_conv cmod_def)
  have e: "\<not> early" using w st(1-3) spp a p by (auto simp: FTL_WRITE_impl_def cmod_def)
  then have g: "GC_CHECK gt c (s2\<lparr>dev := INCREASE_IO_REQUEST_SEQ_NB (dev s2)\<rparr>) = Some s'" "ret = SUCCESS"
    using w st(1-3) spp a p by (auto simp: FTL_WRITE_impl_def cmod_def bind_eq_Some_conv)
  let ?b = "(set_ring ([] @ remark is_V (CHR ''F'') xs @ Q) b)\<lparr>ftl_write_ptr := frame_at c b (length ([] @ xs))\<rparr>"
  have "ftl_write_ptr b = frame_at c b (length [])" using b(5) wb_shapeD [OF b(1)] by (simp add: frame_at_def)
  then have pb: "write_pages_buffered gt c sector_nb len (sector_nb mod SECTORS_PER_PAGE c) 0 FAIL b ?s1 = Some ((False, ret), (?b, s2))"
    using p e b by (intro write_pages_buffered_ring [OF wf st(4)]) auto
  have "wb_shape c (set_ring ([] @ remark is_V (CHR ''F'') xs @ Q) b)"
    using b(2) by (intro wb_shape_set_ring b(1)) (simp del: ring_set_ring(4))
  then have lim: "returns (INCREASE_WB_LIMIT_POINTER c ?b) (\<lambda>b'. wb_shape c b' \<and>
    ring b' = Q @ replicate (length (remark is_V (CHR ''F'') xs)) (CHR ''0'') \<and>
    (\<exists>a. b' = ?b\<lparr>wb_valid_array := a, write_limit_ptr := ftl_write_ptr ?b,
       empty_write_buffer_frame := empty_write_buffer_frame ?b + int (length (remark is_V (CHR ''F'') xs))\<rparr>))"
    using xs by (intro INCREASE_WB_LIMIT_POINTER_ring) (auto simp: remark_def simp del: wb_shape_moves(5))
  have "FTL_WRITE_buffered gt c sector_nb len (b, s) = do {
      b' \<leftarrow> INCREASE_WB_LIMIT_POINTER c ?b; Some (ret, (b', s')) }"
    using st(1-3) spp a pb g(1) by (simp add: FTL_WRITE_buffered_def cmod_def)
  note E = this
  obtain b' a where L: "INCREASE_WB_LIMIT_POINTER c ?b = Some b'" "wb_shape c b'"
    "ring b' = Q @ replicate (length (remark is_V (CHR ''F'') xs)) (CHR ''0'')"
    "b' = ?b\<lparr>wb_valid_array := a, write_limit_ptr := ftl_write_ptr ?b,
       empty_write_buffer_frame := empty_write_buffer_frame ?b + int (length (remark is_V (CHR ''F'') xs))\<rparr>"
    using lim unfolding returns_def by blast
  have B: "b' = b\<lparr>wb_valid_array := a, ftl_write_ptr := frame_at c b (length xs),
       write_limit_ptr := frame_at c b (length xs),
       empty_write_buffer_frame := empty_write_buffer_frame b + int (length xs)\<rparr>"
    using L(4) by (simp add: set_ring_def)
  have "FTL_WRITE_buffered gt c sector_nb len (b, s) = Some (SUCCESS, (b', s'))" unfolding E L(1) g(2) by simp
  moreover have "\<exists>a. b' = b\<lparr>wb_valid_array := a, ftl_write_ptr := frame_at c b (length xs),
       write_limit_ptr := frame_at c b (length xs),
       empty_write_buffer_frame := empty_write_buffer_frame b + int (length xs)\<rparr>" using B by blast
  ultimately show ?thesis using L(2,3) by simp
qed

end
