(* ===== verification/Firm_Layout.thy ===== *)
theory Firm_Layout
  imports Firm_Device
begin

text \<open>
  How the pending writes lie in the write buffer, and that \<open>ENQUEUE_WRITE\<close> and the FTL keep
  it so: every write in the queue has its own stretch of the ring, with one valid frame for each
  of its sectors.
\<close>

section \<open>The layout of the write buffer\<close>

text \<open>
  \<open>laid n k ws u\<close>: the marks \<open>u\<close>, which start at frame \<open>k\<close> of a ring of \<open>n\<close>, are one
  stretch for every pending write of \<open>ws\<close>, in their order. A stretch has a \<^verbatim>\<open>'V'\<close> for every
  sector of its event and \<^verbatim>\<open>'I'\<close> for the frames that were overwritten; a valid event's
  stretch ends with a \<^verbatim>\<open>'V'\<close>, an invalid event's has none.
\<close>

definition stretch :: "int \<Rightarrow> int \<Rightarrow> event_queue_entry \<Rightarrow> string \<Rightarrow> bool" where
  "stretch n k e u \<longleftrightarrow> ev_buf e = Write_Frame (k mod n) \<and> set u \<subseteq> {CHR ''V'', CHR ''I''} \<and>
     hits is_V u = (if ev_valid e = VALID then ev_length e else 0) \<and>
     (ev_valid e = VALID \<longrightarrow> u \<noteq> [] \<and> is_V (last u))"

fun laid :: "int \<Rightarrow> int \<Rightarrow> event_queue_entry list \<Rightarrow> string \<Rightarrow> bool" where
  "laid n k [] u \<longleftrightarrow> u = []"
| "laid n k (e # ws) u \<longleftrightarrow> (\<exists>v w. u = v @ w \<and> stretch n k e v \<and> laid n (k + int (length v)) ws w)"

lemma laid_append:
  "laid n k (ws @ vs) u \<longleftrightarrow> (\<exists>v w. u = v @ w \<and> laid n k ws v \<and> laid n (k + int (length v)) vs w)"
proof (induction ws arbitrary: k u)
  case (Cons e ws)
  show ?case
  proof
    assume "laid n k ((e # ws) @ vs) u"
    then obtain x y v w where "u = x @ v @ w" "stretch n k e x" "laid n (k + int (length x)) ws v"
      "laid n (k + int (length x) + int (length v)) vs w" using Cons.IH by auto
    then show "\<exists>v w. u = v @ w \<and> laid n k (e # ws) v \<and> laid n (k + int (length v)) vs w"
      by (intro exI [of _ "x @ v"] exI [of _ w]) (auto simp: add.assoc)
  next
    assume "\<exists>v w. u = v @ w \<and> laid n k (e # ws) v \<and> laid n (k + int (length v)) vs w"
    then obtain x v w where "u = (x @ v) @ w" "stretch n k e x" "laid n (k + int (length x)) ws v"
      "laid n (k + int (length x) + int (length v)) vs w" by (auto simp: add.assoc)
    then show "laid n k ((e # ws) @ vs) u" using Cons.IH by auto
  qed
qed simp

lemma laid_mod: "k mod n = k' mod n \<Longrightarrow> laid n k ws u = laid n k' ws u"
proof (induction ws arbitrary: k k' u)
  case (Cons e ws)
  have "laid n (k + x) ws w = laid n (k' + x) ws w" for x w
    by (rule Cons.IH, rule mod_add_cong [OF Cons.prems refl])
  then show ?case by (simp only: laid.simps stretch_def Cons.prems)
qed simp

lemma laid_marks: "laid n k ws u \<Longrightarrow> set u \<subseteq> {CHR ''V'', CHR ''I''}"
  by (induction ws arbitrary: k u) (fastforce simp: stretch_def)+

definition wb_inv :: "ssd_config \<Rightarrow> event_queue_entry list \<Rightarrow> io_buffer \<Rightarrow> bool" where
  "wb_inv c ws b \<longleftrightarrow> wb_shape c b \<and> ftl_write_ptr b = write_limit_ptr b \<and>
     (\<exists>pre u. ring b = pre @ u @ replicate (nat (empty_write_buffer_frame b)) (CHR ''0'') \<and>
        set pre \<subseteq> {CHR ''I''} \<and> laid (WRITE_BUFFER_FRAME_NB c) (write_limit_ptr b + int (length pre)) ws u \<and>
        (pre @ u \<noteq> [] \<longrightarrow> is_V (last (pre @ u))) \<and> sata_write_ptr b = frame_at c b (length (pre @ u)) \<and>
        0 \<le> empty_write_buffer_frame b)"

lemma wb_invI:
  assumes "wb_shape c b" "ftl_write_ptr b = write_limit_ptr b"
    "ring b = pre @ u @ replicate (nat (empty_write_buffer_frame b)) (CHR ''0'')" "set pre \<subseteq> {CHR ''I''}"
    "laid (WRITE_BUFFER_FRAME_NB c) (write_limit_ptr b + int (length pre)) ws u"
    "pre @ u \<noteq> [] \<Longrightarrow> is_V (last (pre @ u))" "sata_write_ptr b = frame_at c b (length (pre @ u))"
    "0 \<le> empty_write_buffer_frame b"
  shows "wb_inv c ws b"
  using assms unfolding wb_inv_def by blast

lemma wb_invE:
  assumes "wb_inv c ws b"
  obtains pre u where "wb_shape c b" "ftl_write_ptr b = write_limit_ptr b"
    "ring b = pre @ u @ replicate (nat (empty_write_buffer_frame b)) (CHR ''0'')" "set pre \<subseteq> {CHR ''I''}"
    "laid (WRITE_BUFFER_FRAME_NB c) (write_limit_ptr b + int (length pre)) ws u"
    "pre @ u \<noteq> [] \<Longrightarrow> is_V (last (pre @ u))" "sata_write_ptr b = frame_at c b (length (pre @ u))"
    "0 \<le> empty_write_buffer_frame b"
  using assms unfolding wb_inv_def by blast

lemma frame_at_add: "frame_at c b (i + j) = (write_limit_ptr b + int i + int j) mod WRITE_BUFFER_FRAME_NB c"
  by (simp add: frame_at_def add.assoc)

lemma wb_inv_bounds:
  assumes "wb_inv c ws b"
  shows "0 \<le> empty_write_buffer_frame b" "empty_write_buffer_frame b \<le> WRITE_BUFFER_FRAME_NB c"
    "ws = [] \<Longrightarrow> empty_write_buffer_frame b = WRITE_BUFFER_FRAME_NB c"
proof -
  obtain pre u where u: "ring b = pre @ u @ replicate (nat (empty_write_buffer_frame b)) (CHR ''0'')"
    "set pre \<subseteq> {CHR ''I''}" "laid (WRITE_BUFFER_FRAME_NB c) (write_limit_ptr b + int (length pre)) ws u"
    "pre @ u \<noteq> [] \<longrightarrow> is_V (last (pre @ u))" "0 \<le> empty_write_buffer_frame b"
    using assms unfolding wb_inv_def by blast
  have n: "int (length (ring b)) = WRITE_BUFFER_FRAME_NB c" using assms wb_shapeD(6) by (auto simp: wb_inv_def)
  have l: "length pre + length u + nat (empty_write_buffer_frame b) = length (ring b)" unfolding u(1) by simp
  show "0 \<le> empty_write_buffer_frame b" by (fact u(5))
  show "empty_write_buffer_frame b \<le> WRITE_BUFFER_FRAME_NB c" using l u(5) n by linarith
  show "empty_write_buffer_frame b = WRITE_BUFFER_FRAME_NB c" if "ws = []"
  proof -
    have "u = []" using u(3) that by simp
    moreover from this have "pre = []" using u(2,4) last_in_set [of pre] by (cases "pre = []") auto
    ultimately show ?thesis using l u(5) n by simp
  qed
qed

text \<open>An event that was overwritten leaves the queue without any effect.\<close>

lemma wb_inv_drop_invalid:
  assumes "wb_inv c (e # ws) b" "ev_valid e \<noteq> VALID"
  shows "wb_inv c ws b"
proof -
  obtain pre v w where u: "ring b = pre @ (v @ w) @ replicate (nat (empty_write_buffer_frame b)) (CHR ''0'')"
    "set pre \<subseteq> {CHR ''I''}" "stretch (WRITE_BUFFER_FRAME_NB c) (write_limit_ptr b + int (length pre)) e v"
    "laid (WRITE_BUFFER_FRAME_NB c) (write_limit_ptr b + int (length pre) + int (length v)) ws w"
    "pre @ v @ w \<noteq> [] \<longrightarrow> is_V (last (pre @ v @ w))" "sata_write_ptr b = frame_at c b (length (pre @ v @ w))"
    "0 \<le> empty_write_buffer_frame b"
    using assms(1) unfolding wb_inv_def laid.simps by blast
  have "filter is_V v = []" "set v \<subseteq> {CHR ''V'', CHR ''I''}" using u(3) assms(2) by (simp_all add: stretch_def)
  then have "set (pre @ v) \<subseteq> {CHR ''I''}" using u(2) by (auto simp: filter_empty_conv)
  then show ?thesis
    using assms(1) u by (intro wb_invI [of c b "pre @ v" w]) (auto simp: wb_inv_def add.assoc)
qed

text \<open>A write that has just left the buffer can still be read from its frames.\<close>

definition released :: "ssd_config \<Rightarrow> event_queue_entry \<Rightarrow> io_buffer \<Rightarrow> bool" where
  "released c e b \<longleftrightarrow> (\<exists>P xs. ring b = P @ xs \<and> (\<forall>x\<in>set xs. not_I x) \<and>
     ev_buf e = Write_Frame (frame_at c b (length P)) \<and> ev_length e \<le> int (length xs))"

text \<open>A valid event that leaves the queue takes its frames with it.\<close>

lemma wb_inv_drop_valid:
  assumes b: "wb_inv c (e # ws) b" and e: "ev_valid e = VALID" "in_range c (ev_sector_nb e) (ev_length e)"
    and wf: "wf_config c" and w: "FTL_WRITE_impl gt c (ev_sector_nb e) (ev_length e) s = Some (SUCCESS, s')"
  shows "returns (FTL_WRITE_buffered gt c (ev_sector_nb e) (ev_length e) (b, s)) (\<lambda>(ret, (b', s'')).
    ret = SUCCESS \<and> s'' = s' \<and> wb_inv c ws b' \<and> released c e b' \<and>
    (\<exists>a p m. b' = b\<lparr>wb_valid_array := a, ftl_write_ptr := p, write_limit_ptr := p, empty_write_buffer_frame := m\<rparr>))"
proof -
  let ?n = "WRITE_BUFFER_FRAME_NB c"
  have sh: "wb_shape c b" "ftl_write_ptr b = write_limit_ptr b" using b by (simp_all add: wb_inv_def)
  obtain pre v x where u: "ring b = pre @ (v @ x) @ replicate (nat (empty_write_buffer_frame b)) (CHR ''0'')"
    "set pre \<subseteq> {CHR ''I''}" "stretch ?n (write_limit_ptr b + int (length pre)) e v"
    "laid ?n (write_limit_ptr b + int (length pre) + int (length v)) ws x"
    "pre @ v @ x \<noteq> [] \<longrightarrow> is_V (last (pre @ v @ x))" "sata_write_ptr b = frame_at c b (length (pre @ v @ x))"
    "0 \<le> empty_write_buffer_frame b"
    using b unfolding wb_inv_def laid.simps by blast
  have "filter is_V pre = []" using u(2) by (auto simp: filter_empty_conv)
  then have v: "hits is_V (pre @ v) = ev_length e" "is_V (last (pre @ v))"
    using u(3) e(1) by (simp_all add: stretch_def)
  let ?k = "length (pre @ v)" and ?Q = "x @ replicate (nat (empty_write_buffer_frame b)) (CHR ''0'')"
  have r: "ring b = (pre @ v) @ ?Q" using u(1) by simp
  obtain b' a where f: "FTL_WRITE_buffered gt c (ev_sector_nb e) (ev_length e) (b, s) = Some (SUCCESS, (b', s'))"
    "wb_shape c b'" "ring b' = ?Q @ replicate ?k (CHR ''0'')"
    "b' = b\<lparr>wb_valid_array := a, ftl_write_ptr := frame_at c b ?k, write_limit_ptr := frame_at c b ?k,
       empty_write_buffer_frame := empty_write_buffer_frame b + int ?k\<rparr>"
    using FTL_WRITE_buffered_ring [OF wf e(2) w sh(1) r v sh(2)] unfolding returns_def by blast
  have e': "nat (empty_write_buffer_frame b') = nat (empty_write_buffer_frame b) + ?k"
    using u(7) f(4) by (simp add: nat_add_distrib)
  have at: "frame_at c b' i = frame_at c b (?k + i)" for i
    using f(4) by (simp add: frame_at_def mod_add_left_eq add.assoc)
  have "wb_inv c ws b'"
  proof (rule wb_invI [of c b' "[]" x])
    show "ring b' = [] @ x @ replicate (nat (empty_write_buffer_frame b')) (CHR ''0'')"
      unfolding f(3) e' by (simp add: replicate_add)
    show "laid ?n (write_limit_ptr b' + int (length [])) ws x"
      using u(4) laid_mod [of "write_limit_ptr b'" ?n "write_limit_ptr b + int ?k" ws x] f(4)
      by (simp add: frame_at_def add.assoc)
    show "is_V (last ([] @ x))" if "[] @ x \<noteq> []" using u(5) that by simp
    show "sata_write_ptr b' = frame_at c b' (length ([] @ x))" unfolding at using u(6) f(4) by (simp add: add.assoc)
    show "wb_shape c b'" by (fact f(2))
    show "ftl_write_ptr b' = write_limit_ptr b'" "0 \<le> empty_write_buffer_frame b'" using u(7) f(4) by simp_all
  qed simp
  moreover have "released c e b'"
    unfolding released_def
  proof (intro exI conjI)
    let ?P = "x @ replicate (nat (empty_write_buffer_frame b) + length pre) (CHR ''0'')"
    show "ring b' = ?P @ replicate (length v) (CHR ''0'')" unfolding f(3) by (simp add: replicate_add)
    have "int (length ?P) = ?n - int (length v)"
      using wb_shapeD(6) [OF sh(1)] arg_cong [OF u(1), of length] by simp
    then have "write_limit_ptr b + int (?k + length ?P) = write_limit_ptr b + int (length pre) + ?n" by simp
    then have "frame_at c b' (length ?P) = (write_limit_ptr b + int (length pre) + ?n) mod ?n"
      unfolding at by (simp only: frame_at_def)
    also have "\<dots> = frame_at c b (length pre)" by (simp only: frame_at_def mod_add_self2)
    finally show "ev_buf e = Write_Frame (frame_at c b' (length ?P))"
      using u(3) by (simp add: stretch_def frame_at_def)
    have "hits is_V v = ev_length e" using u(3) e(1) by (simp add: stretch_def)
    moreover have "hits is_V v \<le> int (length v)" by simp
    ultimately show "ev_length e \<le> int (length (replicate (length v) (CHR ''0'')))" by (simp only: length_replicate)
  qed simp
  ultimately show ?thesis unfolding f(1) returns_Some prod.case using f(4) by blast
qed

section \<open>Adding a write\<close>

definition sectors :: "event_queue_entry \<Rightarrow> int set" where
  "sectors e = {ev_sector_nb e..<ev_sector_nb e + ev_length e}"

text \<open>The sectors that wait in the write buffer.\<close>

definition pending :: "event_queue_entry list \<Rightarrow> int set" where
  "pending ws = (\<Union>e\<in>{e \<in> set ws. ev_valid e = VALID}. sectors e)"

definition write_event :: "ssd_config \<Rightarrow> event_queue_entry \<Rightarrow> bool" where
  "write_event c e \<longleftrightarrow> ev_io_type e = WRITE \<and> 0 \<le> ev_sector_nb e \<and> 0 < ev_length e \<and>
     ev_sector_nb e + ev_length e \<le> SECTOR_NB c"

text \<open>The effect of \<open>check_overwritten\<close> on one event.\<close>

definition overwrite :: "int \<Rightarrow> int \<Rightarrow> event_queue_entry \<Rightarrow> event_queue_entry" where
  "overwrite sector_nb len e =
     (if ev_valid e = VALID \<and> CHECK_OVERWRITE e sector_nb len = SUCCESS then e\<lparr>ev_valid := INVALID\<rparr> else e)"

text \<open>\<open>wb_mid c ws m\<close>: the buffer while a write that has claimed \<open>m\<close> frames is added.\<close>

definition wb_mid :: "ssd_config \<Rightarrow> event_queue_entry list \<Rightarrow> nat \<Rightarrow> string \<Rightarrow> string \<Rightarrow> io_buffer \<Rightarrow> bool" where
  "wb_mid c ws m pre u b \<longleftrightarrow> wb_shape c b \<and> ftl_write_ptr b = write_limit_ptr b \<and>
     ring b = pre @ u @ replicate m (CHR ''V'') @ replicate (nat (empty_write_buffer_frame b)) (CHR ''0'') \<and>
     set pre \<subseteq> {CHR ''I''} \<and> laid (WRITE_BUFFER_FRAME_NB c) (write_limit_ptr b + int (length pre)) ws u \<and>
     sata_write_ptr b = frame_at c b (length pre + length u + m) \<and> 0 \<le> empty_write_buffer_frame b"

lemma wb_mid_queue [simp]: "wb_mid c ws m pre u (b\<lparr>e_queue := q\<rparr>) = wb_mid c ws m pre u b"
  by (simp add: wb_mid_def)

lemma laid_middle:
  assumes "laid n k (ws1 @ e # ws2) u"
  obtains u1 v u2 where "u = u1 @ v @ u2" "laid n k ws1 u1" "stretch n (k + int (length u1)) e v"
    "\<And>v' e'. length v' = length v \<Longrightarrow> stretch n (k + int (length u1)) e' v' \<Longrightarrow> laid n k (ws1 @ e' # ws2) (u1 @ v' @ u2)"
proof -
  obtain u1 x where x: "u = u1 @ x" "laid n k ws1 u1" "laid n (k + int (length u1)) (e # ws2) x"
    using assms laid_append by blast
  then obtain v u2 where v: "x = v @ u2" "stretch n (k + int (length u1)) e v"
    "laid n (k + int (length u1) + int (length v)) ws2 u2" by auto
  show thesis
  proof (rule that)
    show "laid n k (ws1 @ e' # ws2) (u1 @ v' @ u2)" if "length v' = length v" "stretch n (k + int (length u1)) e' v'" for v' e'
    proof -
      have "laid n (k + int (length u1) + int (length v')) ws2 u2" using v(3) that(1) by simp
      then have "laid n (k + int (length u1)) (e' # ws2) (v' @ u2)" using that(2) unfolding laid.simps by blast
      then show ?thesis unfolding laid_append using x(2) by blast
    qed
  qed (use x v in auto)
qed

lemma stretch_frame:
  assumes "stretch (WRITE_BUFFER_FRAME_NB c) (write_limit_ptr b + int i + int j) e v"
  shows "ev_buf e = Write_Frame (frame_at c b (i + j))"
  using assms by (simp add: stretch_def frame_at_def add.assoc)

lemma check_overwritten_layout:
  assumes b: "wb_mid c (ws1 @ e # ws2) m pre u b" and e: "q_entries (e_queue b) = rs @ ws1 @ e # ws2"
    and l: "0 < ev_length e" "ev_length e < 2147483648"
  shows "returns (check_overwritten c sector_nb len (length rs + length ws1) b) (\<lambda>b'.
    (\<exists>u'. length u' = length u \<and> wb_mid c (ws1 @ overwrite sector_nb len e # ws2) m pre u' b') \<and>
    (\<exists>a. b' = b\<lparr>e_queue := (e_queue b)\<lparr>q_entries := rs @ ws1 @ overwrite sector_nb len e # ws2\<rparr>, wb_valid_array := a\<rparr>))"
proof (cases "ev_valid e = VALID \<and> CHECK_OVERWRITE e sector_nb len = SUCCESS")
  case False
  then have "overwrite sector_nb len e = e" by (auto simp: overwrite_def)
  moreover have "check_overwritten c sector_nb len (length rs + length ws1) b = Some b"
    using False e by (auto simp: check_overwritten_def nth_append)
  ultimately show ?thesis
    using b e by (auto intro: exI [of _ u] exI [of _ "wb_valid_array b"])
next
  case True
  let ?n = "WRITE_BUFFER_FRAME_NB c" and ?e = "overwrite sector_nb len e"
  let ?q = "(e_queue b)\<lparr>q_entries := rs @ ws1 @ ?e # ws2\<rparr>"
  let ?z = "replicate m (CHR ''V'') @ replicate (nat (empty_write_buffer_frame b)) (CHR ''0'')"
  have sh: "wb_shape c b" and r: "ring b = pre @ u @ ?z"
    and la: "laid ?n (write_limit_ptr b + int (length pre)) (ws1 @ e # ws2) u"
    using b by (simp_all add: wb_mid_def)
  obtain u1 v u2 where u: "u = u1 @ v @ u2" "stretch ?n (write_limit_ptr b + int (length pre) + int (length u1)) e v"
    and re: "\<And>v' e'. length v' = length v \<Longrightarrow> stretch ?n (write_limit_ptr b + int (length pre) + int (length u1)) e' v' \<Longrightarrow>
      laid ?n (write_limit_ptr b + int (length pre)) (ws1 @ e' # ws2) (u1 @ v' @ u2)"
    using laid_middle [OF la] by blast
  let ?v = "remark is_V (CHR ''I'') v" and ?b = "b\<lparr>e_queue := ?q\<rparr>"
  have oe: "?e = e\<lparr>ev_valid := INVALID\<rparr>" using True by (simp add: overwrite_def)
  have "stretch ?n (write_limit_ptr b + int (length pre) + int (length u1)) ?e ?v"
  proof -
    have "set v \<subseteq> {CHR ''V'', CHR ''I''}" using u(2) by (simp add: stretch_def)
    then have "set ?v \<subseteq> {CHR ''I''}" by (auto simp: remark_def)
    moreover from this have "filter is_V ?v = []" by (auto simp: filter_empty_conv)
    ultimately show ?thesis using u(2) by (auto simp: stretch_def oe)
  qed
  then have la': "laid ?n (write_limit_ptr b + int (length pre)) (ws1 @ ?e # ws2) (u1 @ ?v @ u2)"
    by (intro re) simp
  have "mark_valid_frames c (CHR ''I'') (ev_length e) (frame_at c ?b (length (pre @ u1))) 0 ?b =
      Some (set_ring ((pre @ u1) @ ?v @ u2 @ ?z) ?b)"
    using sh r u True by (intro valid_marks.loop_ring) (simp_all add: stretch_def)
  moreover have "set_event (length rs + length ws1) ?e b = ?b"
    using e by (simp add: set_event_def list_update_append)
  moreover have "ev_buf ?e = Write_Frame (frame_at c ?b (length (pre @ u1)))"
    using stretch_frame [OF u(2)] by (simp add: oe)
  ultimately have st: "check_overwritten c sector_nb len (length rs + length ws1) b =
      Some (set_ring ((pre @ u1) @ ?v @ u2 @ ?z) ?b)"
    using True e l by (simp add: check_overwritten_def nth_append UPDATE_WB_VALID_ARRAY_def oe i32_id)
  have "length ((pre @ u1) @ ?v @ u2 @ ?z) = length (ring b)" unfolding r u(1) by simp
  then have "wb_shape c (set_ring ((pre @ u1) @ ?v @ u2 @ ?z) b)" by (intro wb_shape_set_ring sh)
  then have "wb_mid c (ws1 @ ?e # ws2) m pre (u1 @ ?v @ u2) (set_ring ((pre @ u1) @ ?v @ u2 @ ?z) b)"
    using b la' u(1) by (simp add: wb_mid_def del: wb_shape_moves(5))
  then have "wb_mid c (ws1 @ ?e # ws2) m pre (u1 @ ?v @ u2) (set_ring ((pre @ u1) @ ?v @ u2 @ ?z) ?b)"
    unfolding set_ring_moves by simp
  moreover have "set_ring ((pre @ u1) @ ?v @ u2 @ ?z) ?b = b\<lparr>e_queue := ?q,
      wb_valid_array := unrotate (nat (write_limit_ptr b)) ((pre @ u1) @ ?v @ u2 @ ?z)\<rparr>"
    by (simp add: set_ring_def)
  moreover have "length (u1 @ ?v @ u2) = length u" using u(1) by simp
  ultimately show ?thesis unfolding st returns_Some by blast
qed

lemma check_all_overwritten:
  assumes "wb_mid c (ws1 @ ws2) m pre u b" "q_entries (e_queue b) = rs @ ws1 @ ws2"
    "\<forall>e\<in>set ws2. 0 < ev_length e \<and> ev_length e < 2147483648"
  shows "returns (ofold (check_overwritten c sector_nb len)
      [length rs + length ws1..<length rs + length ws1 + length ws2] b) (\<lambda>b'.
    (\<exists>u'. length u' = length u \<and> wb_mid c (ws1 @ map (overwrite sector_nb len) ws2) m pre u' b') \<and>
    (\<exists>a. b' = b\<lparr>e_queue := (e_queue b)\<lparr>q_entries := rs @ ws1 @ map (overwrite sector_nb len) ws2\<rparr>, wb_valid_array := a\<rparr>))"
  using assms
proof (induction ws2 arbitrary: ws1 u b)
  case Nil
  then show ?case by (auto intro: exI [of _ "wb_valid_array b"])
next
  case (Cons e ws2)
  let ?e = "overwrite sector_nb len e"
  have up: "[length rs + length ws1..<length rs + length ws1 + length (e # ws2)] =
      (length rs + length ws1) # [length rs + length (ws1 @ [?e])..<length rs + length (ws1 @ [?e]) + length ws2]"
    by (subst upt_conv_Cons) simp_all
  have l: "0 < ev_length e" "ev_length e < 2147483648" using Cons.prems(3) by simp_all
  obtain b1 u1 a1 where b1: "check_overwritten c sector_nb len (length rs + length ws1) b = Some b1" "length u1 = length u"
    "wb_mid c (ws1 @ ?e # ws2) m pre u1 b1"
    "b1 = b\<lparr>e_queue := (e_queue b)\<lparr>q_entries := rs @ ws1 @ ?e # ws2\<rparr>, wb_valid_array := a1\<rparr>"
    using check_overwritten_layout [OF Cons.prems(1,2) l, of sector_nb len] unfolding returns_def by blast
  have m1: "wb_mid c ((ws1 @ [?e]) @ ws2) m pre u1 b1" "q_entries (e_queue b1) = rs @ (ws1 @ [?e]) @ ws2"
    using b1(3,4) by simp_all
  obtain b2 u2 a2 where b2: "ofold (check_overwritten c sector_nb len)
      [length rs + length (ws1 @ [?e])..<length rs + length (ws1 @ [?e]) + length ws2] b1 = Some b2" "length u2 = length u1"
    "wb_mid c ((ws1 @ [?e]) @ map (overwrite sector_nb len) ws2) m pre u2 b2"
    "b2 = b1\<lparr>e_queue := (e_queue b1)\<lparr>q_entries := rs @ (ws1 @ [?e]) @ map (overwrite sector_nb len) ws2\<rparr>, wb_valid_array := a2\<rparr>"
    using Cons.IH [OF m1] Cons.prems(3) unfolding returns_def by auto
  have "b2 = b\<lparr>e_queue := (e_queue b)\<lparr>q_entries := rs @ ws1 @ map (overwrite sector_nb len) (e # ws2)\<rparr>, wb_valid_array := a2\<rparr>"
    unfolding b2(4) b1(4) by simp
  moreover have "wb_mid c (ws1 @ map (overwrite sector_nb len) (e # ws2)) m pre u2 b2" using b2(3) by simp
  ultimately show ?case
    unfolding up ofold.simps b1(1) Option.bind.bind_lunit b2(1) returns_Some using b1(2) b2(2) by metis
qed

lemma laid_snoc:
  assumes "laid n k (ws @ [e]) u"
  obtains u1 v where "u = u1 @ v" "laid n k ws u1" "stretch n (k + int (length u1)) e v"
  using laid_middle [of n k ws e "[]" u] assms laid_append [of n k ws "[e]" u] by auto

lemma laid_snocI:
  "laid n k ws u \<Longrightarrow> stretch n (k + int (length u)) e v \<Longrightarrow> laid n k (ws @ [e]) (u @ v)"
  unfolding laid_append by auto

text \<open>The three ways in which the new frames are attached to the queue.\<close>

lemma stretch_extend:
  assumes "stretch n k e v" "ev_valid e = VALID" "0 < len" "l' = ev_length e + len"
  shows "stretch n k (e\<lparr>ev_length := l'\<rparr>) (v @ replicate (nat len) (CHR ''V''))"
  using assms by (auto simp: stretch_def filter_replicate last_replicate)

lemma stretch_overlap:
  assumes v: "stretch n k e (ys @ zs)" "ev_valid e = VALID" "hits not_I ys = ev_length e - il" "0 < len"
    and l: "l' = ev_length e + (len - il)"
  shows "stretch n k (e\<lparr>ev_length := l'\<rparr>) (ys @ remark not_I (CHR ''I'') zs @ replicate (nat len) (CHR ''V''))"
proof -
  have yz: "set (ys @ zs) \<subseteq> {CHR ''V'', CHR ''I''}" using v(1) by (simp add: stretch_def)
  then have "set (remark not_I (CHR ''I'') zs) \<subseteq> {CHR ''I''}" by (auto simp: remark_def)
  moreover from this have "filter is_V (remark not_I (CHR ''I'') zs) = []" by (auto simp: filter_empty_conv)
  moreover have "filter is_V ys = filter not_I ys" using yz by (intro filter_cong) auto
  ultimately show ?thesis
    using v yz l by (auto simp: stretch_def filter_replicate last_replicate last_append)
qed

lemma stretch_new:
  assumes "0 < len"
  shows "stretch n k (ALLOC_NEW_EVENT WRITE sec len (Write_Frame (k mod n))) (replicate (nat len) (CHR ''V''))"
  using assms by (auto simp: stretch_def ALLOC_NEW_EVENT_def filter_replicate last_replicate)

lemma wb_mid_done:
  assumes "wb_mid c ws m pre u b" "0 < m" "length u' = length u"
    "laid (WRITE_BUFFER_FRAME_NB c) (write_limit_ptr b + int (length pre)) ws' (u' @ replicate m (CHR ''V''))"
  shows "wb_inv c ws' (set_ring (pre @ u' @ replicate m (CHR ''V'') @ replicate (nat (empty_write_buffer_frame b)) (CHR ''0'')) b)"
proof -
  let ?r = "pre @ u' @ replicate m (CHR ''V'') @ replicate (nat (empty_write_buffer_frame b)) (CHR ''0'')"
  have b: "wb_shape c b" "ring b = pre @ u @ replicate m (CHR ''V'') @ replicate (nat (empty_write_buffer_frame b)) (CHR ''0'')"
    using assms(1) by (simp_all add: wb_mid_def)
  have "length ?r = length (ring b)" unfolding b(2) using assms(3) by simp
  then have "wb_shape c (set_ring ?r b)" by (intro wb_shape_set_ring b(1))
  then show ?thesis
    using assms by (intro wb_invI [of c _ pre "u' @ replicate m (CHR ''V'')"])
      (auto simp: wb_mid_def add.assoc last_append last_replicate simp del: wb_shape_moves(5))
qed

lemma wb_inv_queue [simp]: "wb_inv c ws (b\<lparr>e_queue := q\<rparr>) = wb_inv c ws b"
  by (simp add: wb_inv_def)

lemma wb_inv_claim:
  assumes b: "wb_inv c ws b" and l: "0 < len" "len \<le> empty_write_buffer_frame b"
  shows "returns (WRITE_DATA_TO_BUFFER c len b) (\<lambda>b'. \<exists>pre u.
    wb_mid c ws (nat len) pre u b' \<and> sata_write_ptr b = frame_at c b' (length pre + length u) \<and>
    (\<exists>a p m. b' = b\<lparr>wb_valid_array := a, sata_write_ptr := p, empty_write_buffer_frame := m\<rparr>))"
proof -
  obtain pre u where u: "wb_shape c b" "ftl_write_ptr b = write_limit_ptr b"
    "ring b = pre @ u @ replicate (nat (empty_write_buffer_frame b)) (CHR ''0'')" "set pre \<subseteq> {CHR ''I''}"
    "laid (WRITE_BUFFER_FRAME_NB c) (write_limit_ptr b + int (length pre)) ws u"
    "sata_write_ptr b = frame_at c b (length (pre @ u))" "0 \<le> empty_write_buffer_frame b"
    using b by (rule wb_invE) blast
  let ?Q = "replicate (nat (empty_write_buffer_frame b)) (CHR ''0'')"
  let ?r = "(pre @ u) @ replicate (nat len) (CHR ''V'') @ drop (nat len) ?Q"
  let ?b = "(set_ring ?r b)\<lparr>sata_write_ptr := frame_at c b (length (pre @ u) + nat len),
       empty_write_buffer_frame := empty_write_buffer_frame b - len\<rparr>"
  have il: "i32 len = len" using l wb_inv_bounds(2) [OF b] wb_shapeD(2) [OF u(1)] by (simp add: i32_id)
  have w: "WRITE_DATA_TO_BUFFER c len b = Some ?b"
    unfolding WRITE_DATA_TO_BUFFER_def il using u l by (intro INCREASE_WB_SATA_POINTER_ring) simp_all
  have d: "drop (nat len) ?Q = replicate (nat (empty_write_buffer_frame b - len)) (CHR ''0'')"
    using l by (simp add: nat_diff_distrib)
  have "length ?r = length (ring b)" unfolding u(3) using l by auto
  then have "wb_shape c (set_ring ?r b)" by (intro wb_shape_set_ring u(1))
  then have "wb_mid c ws (nat len) pre u ?b"
    using u l d by (simp add: wb_mid_def del: wb_shape_moves(5))
  moreover have "?b = b\<lparr>wb_valid_array := unrotate (nat (write_limit_ptr b)) ?r,
      sata_write_ptr := frame_at c b (length (pre @ u) + nat len),
      empty_write_buffer_frame := empty_write_buffer_frame b - len\<rparr>" by (simp add: set_ring_def)
  moreover have "sata_write_ptr b = frame_at c ?b (length pre + length u)" using u(6) by simp
  ultimately show ?thesis unfolding w returns_Some by blast
qed

lemma wb_mid_same:
  assumes "wb_mid c ws m pre u b" "0 < m"
    "laid (WRITE_BUFFER_FRAME_NB c) (write_limit_ptr b + int (length pre)) ws' (u @ replicate m (CHR ''V''))"
  shows "wb_inv c ws' b"
proof -
  have "ring b = pre @ u @ replicate m (CHR ''V'') @ replicate (nat (empty_write_buffer_frame b)) (CHR ''0'')"
    using assms(1) by (simp add: wb_mid_def)
  then show ?thesis using wb_mid_done [OF assms(1,2) refl assms(3)] ring_set_ring(2) [of b] by simp
qed

lemma wb_mid_sequential:
  assumes b: "wb_mid c (ws @ [e]) (nat len) pre u b" and e: "ev_valid e = VALID" and l: "0 < len" "l' = ev_length e + len"
  shows "wb_inv c (ws @ [e\<lparr>ev_length := l'\<rparr>]) b"
proof -
  let ?n = "WRITE_BUFFER_FRAME_NB c" and ?k = "write_limit_ptr b + int (length pre)"
  have "laid ?n ?k (ws @ [e]) u" using b by (simp add: wb_mid_def)
  then obtain u1 v where u: "u = u1 @ v" "laid ?n ?k ws u1" "stretch ?n (?k + int (length u1)) e v"
    by (rule laid_snoc)
  have "laid ?n ?k (ws @ [e\<lparr>ev_length := l'\<rparr>]) (u @ replicate (nat len) (CHR ''V''))"
    using laid_snocI [OF u(2) stretch_extend [OF u(3) e l]] u(1) by simp
  then show ?thesis using wb_mid_same [OF b] l by simp
qed

lemma wb_mid_overlap:
  assumes b: "wb_mid c (ws @ [e]) (nat len) pre u b" and e: "ev_valid e = VALID" "ev_length e < 2147483648"
    and l: "0 < len" "0 \<le> il" "il \<le> ev_length e" "l' = ev_length e + (len - il)"
  shows "returns (UPDATE_WB_VALID_ARRAY_PARTIAL c e (CHR ''I'') il 1 b)
    (\<lambda>b'. wb_inv c (ws @ [e\<lparr>ev_length := l'\<rparr>]) b' \<and> (\<exists>a. b' = b\<lparr>wb_valid_array := a\<rparr>))"
proof -
  let ?n = "WRITE_BUFFER_FRAME_NB c" and ?k = "write_limit_ptr b + int (length pre)"
  let ?z = "replicate (nat len) (CHR ''V'') @ replicate (nat (empty_write_buffer_frame b)) (CHR ''0'')"
  have sh: "wb_shape c b" "ring b = pre @ u @ ?z" and la: "laid ?n ?k (ws @ [e]) u" using b by (simp_all add: wb_mid_def)
  obtain u1 v where u: "u = u1 @ v" "laid ?n ?k ws u1" "stretch ?n (?k + int (length u1)) e v"
    using la by (rule laid_snoc)
  have "filter not_I v = filter is_V v" using u(3) by (intro filter_cong) (auto simp: stretch_def)
  then have "hits not_I v = (ev_length e - il) + il" using u(3) e(1) by (simp add: stretch_def)
  then have "\<exists>ys zs. v = ys @ zs \<and> hits not_I ys = ev_length e - il \<and> (ys = [] \<or> not_I (last ys)) \<and> hits not_I zs = il"
    using l by (intro split_hits) simp_all
  then obtain ys zs where yz: "v = ys @ zs" "hits not_I ys = ev_length e - il" "ys = [] \<or> not_I (last ys)"
    "hits not_I zs = il" by blast
  let ?z' = "remark not_I (CHR ''I'') zs"
  have sk: "skip_frames c (ev_length e - il) (frame_at c b (length (pre @ u1))) 0 b =
      Some (frame_at c b (length ((pre @ u1) @ ys)))"
    using sh u(1) yz by (intro skip_frames_ring [where Q = "zs @ ?z"]) simp_all
  have mk: "mark_frames c (CHR ''I'') il (frame_at c b (length ((pre @ u1) @ ys))) 0 b =
      Some (set_ring (((pre @ u1) @ ys) @ ?z' @ ?z) b)"
    using sh u(1) yz by (intro marks.loop_ring) simp_all
  have buf: "ev_buf e = Write_Frame (frame_at c b (length (pre @ u1)))" using stretch_frame [OF u(3)] by simp
  have eq: "UPDATE_WB_VALID_ARRAY_PARTIAL c e (CHR ''I'') il 1 b = Some (set_ring (((pre @ u1) @ ys) @ ?z' @ ?z) b)"
    using sk mk l e(2) by (simp add: UPDATE_WB_VALID_ARRAY_PARTIAL_def buf i32_id)
  have "laid ?n ?k (ws @ [e\<lparr>ev_length := l'\<rparr>]) (u1 @ ys @ ?z' @ replicate (nat len) (CHR ''V''))"
    using laid_snocI [OF u(2) stretch_overlap [OF u(3) [unfolded yz(1)] e(1) yz(2) l(1,4)]] by simp
  then have "wb_inv c (ws @ [e\<lparr>ev_length := l'\<rparr>])
      (set_ring (pre @ (u1 @ ys @ ?z') @ ?z) b)"
    using l(1) u(1) yz(1) by (intro wb_mid_done [OF b]) simp_all
  then show ?thesis unfolding eq returns_Some by (auto simp: set_ring_def)
qed

lemma wb_mid_new:
  assumes b: "wb_mid c ws (nat len) pre u b" and l: "0 < len" and p: "p = frame_at c b (length pre + length u)"
  shows "wb_inv c (ws @ [ALLOC_NEW_EVENT WRITE sec len (Write_Frame p)]) b"
proof -
  let ?n = "WRITE_BUFFER_FRAME_NB c" and ?k = "write_limit_ptr b + int (length pre)"
  have "laid ?n ?k ws u" using b by (simp add: wb_mid_def)
  then have "laid ?n ?k (ws @ [ALLOC_NEW_EVENT WRITE sec len (Write_Frame ((?k + int (length u)) mod ?n))])
      (u @ replicate (nat len) (CHR ''V''))"
    by (rule laid_snocI) (rule stretch_new [OF l])
  then show ?thesis
    using l p by (intro wb_mid_same [OF b]) (simp_all add: frame_at_def add.assoc)
qed

lemma write_event_overwrite [simp]:
  "ev_io_type (overwrite s n e) = ev_io_type e" "ev_sector_nb (overwrite s n e) = ev_sector_nb e"
  "ev_length (overwrite s n e) = ev_length e" "write_event c (overwrite s n e) = write_event c e"
  "ev_valid (overwrite s n e) = VALID \<longleftrightarrow> ev_valid e = VALID \<and> CHECK_OVERWRITE e s n \<noteq> SUCCESS"
  by (auto simp: overwrite_def write_event_def)

lemma write_event_bounds:
  assumes "write_event c e" "SECTOR_NB c < 2147483648"
  shows "0 \<le> ev_sector_nb e" "0 < ev_length e" "ev_length e < 2147483648"
    "ev_sector_nb e + ev_length e < 2147483648" "ev_sector_nb e + ev_length e \<le> SECTOR_NB c"
  using assms by (simp_all add: write_event_def)

lemma pending_simps [simp]:
  "pending [] = {}" "pending (e # ws) = (if ev_valid e = VALID then sectors e else {}) \<union> pending ws"
  "pending (ws @ vs) = pending ws \<union> pending vs"
  by (auto simp: pending_def)

lemma pending_overwrite:
  assumes "\<forall>e\<in>set ws. write_event c e" "SECTOR_NB c < 2147483648"
    "0 \<le> sec" "0 < len" "sec + len \<le> SECTOR_NB c"
  shows "pending (map (overwrite sec len) ws) \<union> {sec..<sec + len} = pending ws \<union> {sec..<sec + len}"
  using assms(1)
proof (induction ws)
  case (Cons e ws)
  let ?N = "{sec..<sec + len}"
  have w: "write_event c e" and ih: "pending (map (overwrite sec len) ws) \<union> ?N = pending ws \<union> ?N" using Cons by simp_all
  note b = write_event_bounds [OF w assms(2)]
  have "sectors e \<subseteq> ?N" if "CHECK_OVERWRITE e sec len = SUCCESS"
  proof -
    have "sec \<le> ev_sector_nb e" "ev_sector_nb e + ev_length e \<le> sec + len"
      using that b assms(2-5) by (simp_all add: CHECK_OVERWRITE_def u32_id split: if_splits)
    then show ?thesis by (simp add: sectors_def)
  qed
  moreover have "sectors (overwrite sec len e) = sectors e" by (simp add: sectors_def)
  ultimately have e: "(if ev_valid (overwrite sec len e) = VALID then sectors (overwrite sec len e) else {}) \<union> ?N =
      (if ev_valid e = VALID then sectors e else {}) \<union> ?N" by auto
  have "(A \<union> B) \<union> C = (A \<union> C) \<union> (B \<union> C)" for A B C :: "int set" by blast
  then show ?case unfolding list.map pending_simps(2) by (metis e ih)
qed simp

lemma append_event_eq:
  "append_event e \<lparr>q_entry_nb = int (length es), q_entries = es\<rparr> =
     Some \<lparr>q_entry_nb = int (length (es @ [e])), q_entries = es @ [e]\<rparr>"
  by (cases es) (auto simp: append_event_def)

text \<open>The queue holds first the pending reads and then the pending writes.\<close>

definition queued :: "event_queue_entry list \<Rightarrow> event_queue_entry list \<Rightarrow> io_buffer \<Rightarrow> bool" where
  "queued rs ws b \<longleftrightarrow> e_queue b = \<lparr>q_entry_nb = int (length (rs @ ws)), q_entries = rs @ ws\<rparr> \<and>
     last_read_entry b = (if rs = [] then None else Some (length rs - 1)) \<and>
     (\<forall>e\<in>set rs. ev_io_type e = READ)"

lemma queued_after_reads: "queued rs ws b \<Longrightarrow> after_reads b = length rs"
  by (simp add: queued_def after_reads_def)

lemma queued_fields [simp]:
  "queued rs ws (b\<lparr>wb_valid_array := a\<rparr>) = queued rs ws b" "queued rs ws (b\<lparr>sata_write_ptr := p\<rparr>) = queued rs ws b"
  "queued rs ws (b\<lparr>empty_write_buffer_frame := m\<rparr>) = queued rs ws b" "queued rs ws (b\<lparr>ftl_write_ptr := p\<rparr>) = queued rs ws b"
  "queued rs ws (b\<lparr>write_limit_ptr := p\<rparr>) = queued rs ws b"
  by (simp_all add: queued_def)

lemma queue_tail_write:
  assumes "queued rs ws b" "queue_tail (e_queue b) = Some e" "ev_io_type e = WRITE"
  obtains ws0 where "ws = ws0 @ [e]"
proof (cases ws rule: rev_cases)
  case Nil
  then have "rs \<noteq> []" "e = last rs" using assms(1,2) by (auto simp: queued_def queue_tail_def split: if_splits)
  then show ?thesis using assms(1,3) by (auto simp: queued_def)
next
  case (snoc ws0 x)
  then show ?thesis using assms(1,2) that by (auto simp: queued_def queue_tail_def)
qed

lemma queued_set_last:
  assumes "queued rs (ws @ [e]) b"
  shows "queued rs (ws @ [e']) (set_event (length (q_entries (e_queue b)) - 1) e' b)"
  using assms by (simp add: queued_def set_event_def list_update_append)

lemma attach_write_inv:
  assumes b: "wb_mid c ws (nat len) pre u b" and q: "queued rs ws b" and ev: "\<forall>e\<in>set ws. write_event c e"
    and S: "SECTOR_NB c < 2147483648" and r: "0 \<le> sec" "0 < len" "sec + len \<le> SECTOR_NB c"
    and p: "p = frame_at c b (length pre + length u)"
  shows "returns (attach_write c sec len p b) (\<lambda>b'. \<exists>ws'. wb_inv c ws' b' \<and> queued rs ws' b' \<and>
    (\<forall>e\<in>set ws'. write_event c e) \<and> length ws' \<le> Suc (length ws) \<and> pending ws' = pending ws \<union> {sec..<sec + len} \<and>
    (\<exists>a q. b' = b\<lparr>wb_valid_array := a, e_queue := q\<rparr>))"
proof -
  let ?t = "queue_tail (e_queue b)" and ?i = "length (q_entries (e_queue b)) - 1"
  consider (seq) e where "?t = Some e" "CHECK_SEQUENTIALITY ?t sec = SUCCESS"
    | (over) e where "?t = Some e" "CHECK_SEQUENTIALITY ?t sec \<noteq> SUCCESS" "CHECK_IO_DEPENDENCY_FOR_WRITE ?t sec len = SUCCESS"
    | (new) "CHECK_SEQUENTIALITY ?t sec \<noteq> SUCCESS" "CHECK_IO_DEPENDENCY_FOR_WRITE ?t sec len \<noteq> SUCCESS"
    by (cases ?t) (auto simp: CHECK_SEQUENTIALITY_def CHECK_IO_DEPENDENCY_FOR_WRITE_def)
  then show ?thesis
  proof cases
    case seq
    then have e: "ev_io_type e = WRITE" "ev_valid e = VALID" "u32 (ev_sector_nb e + ev_length e) = u32 sec"
      by (auto simp: CHECK_SEQUENTIALITY_def split: if_splits)
    obtain ws0 where ws: "ws = ws0 @ [e]" using queue_tail_write [OF q seq(1) e(1)] .
    have w: "write_event c e" using ev ws by simp
    note wb = write_event_bounds [OF w S]
    have eq: "ev_sector_nb e + ev_length e = sec" using e(3) wb r S by (simp add: u32_id)
    let ?e = "e\<lparr>ev_length := ev_length e + len\<rparr>"
    have "u32 (ev_length e + len) = ev_length e + len" using wb r S eq by (simp add: u32_id)
    then have at: "attach_write c sec len p b = Some (set_event ?i ?e b)" using seq by (simp add: attach_write_def)
    have "wb_inv c (ws0 @ [?e]) b" using b wb_mid_sequential [OF _ e(2) r(2) refl] ws by simp
    then have "wb_inv c (ws0 @ [?e]) (set_event ?i ?e b)" by (simp add: set_event_def)
    moreover have "queued rs (ws0 @ [?e]) (set_event ?i ?e b)" using queued_set_last q ws by blast
    moreover have "write_event c ?e" using w eq r by (simp add: write_event_def)
    moreover have "pending (ws0 @ [?e]) = pending ws \<union> {sec..<sec + len}"
      using e(2) eq wb r(2) ws by (auto simp: sectors_def)
    moreover have "\<exists>a q. set_event ?i ?e b = b\<lparr>wb_valid_array := a, e_queue := q\<rparr>"
      by (intro exI [of _ "wb_valid_array b"]) (auto simp: set_event_def)
    ultimately show ?thesis unfolding at returns_Some using ev ws by (intro exI [of _ "ws0 @ [?e]"]) auto
  next
    case over
    then have e: "ev_io_type e = WRITE" "ev_valid e = VALID" "ev_sector_nb e < sec"
      "sec < i32 (ev_sector_nb e + ev_length e - 1)" "i32 (ev_sector_nb e + ev_length e - 1) < i32 (sec + len - 1)"
      by (auto simp: CHECK_IO_DEPENDENCY_FOR_WRITE_def Let_def split: if_splits)
    obtain ws0 where ws: "ws = ws0 @ [e]" using queue_tail_write [OF q over(1) e(1)] .
    have w: "write_event c e" using ev ws by simp
    note wb = write_event_bounds [OF w S]
    have o: "sec < ev_sector_nb e + ev_length e - 1" "ev_sector_nb e + ev_length e < sec + len"
      using e(4,5) wb r S by (simp_all add: i32_id)
    let ?il = "ev_sector_nb e + ev_length e - sec"
    have il: "i32 ?il = ?il" "u32 (ev_length e + (len - ?il)) = ev_length e + (len - ?il)"
      using wb r S e(3) o by (simp_all add: i32_id u32_id)
    let ?e = "e\<lparr>ev_length := ev_length e + (len - ?il)\<rparr>"
    have m: "wb_mid c (ws0 @ [e]) (nat len) pre u b" using b ws by simp
    obtain b1 a where b1: "UPDATE_WB_VALID_ARRAY_PARTIAL c e (CHR ''I'') ?il 1 b = Some b1"
      "wb_inv c (ws0 @ [?e]) b1" "b1 = b\<lparr>wb_valid_array := a\<rparr>"
      using wb_mid_overlap [OF m e(2) wb(3) r(2), of ?il] o e(3) unfolding returns_def by auto
    have at: "attach_write c sec len p b = Some (set_event ?i ?e b1)"
      using over b1(1) il by (simp add: attach_write_def)
    have "wb_inv c (ws0 @ [?e]) (set_event ?i ?e b1)" using b1(2) by (simp add: set_event_def)
    moreover have "queued rs (ws0 @ [?e]) (set_event ?i ?e b1)"
    proof -
      have "queued rs (ws0 @ [e]) b1" "length (q_entries (e_queue b)) = length (q_entries (e_queue b1))"
        using q ws b1(3) by simp_all
      then show ?thesis using queued_set_last by metis
    qed
    moreover have "write_event c ?e" using w o e(3) r by (simp add: write_event_def)
    moreover have "pending (ws0 @ [?e]) = pending ws \<union> {sec..<sec + len}"
      using e(2,3) o ws by (auto simp: sectors_def)
    moreover have "\<exists>a q. set_event ?i ?e b1 = b\<lparr>wb_valid_array := a, e_queue := q\<rparr>"
      unfolding b1(3) by (intro exI [of _ a]) (auto simp: set_event_def)
    ultimately show ?thesis unfolding at returns_Some using ev ws by (intro exI [of _ "ws0 @ [?e]"]) auto
  next
    case new
    let ?e = "ALLOC_NEW_EVENT WRITE sec len (Write_Frame p)"
    let ?q = "\<lparr>q_entry_nb = int (length (rs @ ws @ [?e])), q_entries = rs @ ws @ [?e]\<rparr>"
    have "append_event ?e (e_queue b) = Some ?q" using q append_event_eq [of ?e "rs @ ws"] by (simp add: queued_def)
    then have at: "attach_write c sec len p b = Some (b\<lparr>e_queue := ?q\<rparr>)" using new by (simp add: attach_write_def)
    have "wb_inv c (ws @ [?e]) (b\<lparr>e_queue := ?q\<rparr>)" using wb_mid_new [OF b r(2) p] by simp
    moreover have "queued rs (ws @ [?e]) (b\<lparr>e_queue := ?q\<rparr>)" using q by (simp add: queued_def)
    moreover have "write_event c ?e" using r by (simp add: write_event_def ALLOC_NEW_EVENT_def)
    moreover have "pending (ws @ [?e]) = pending ws \<union> {sec..<sec + len}" by (simp add: ALLOC_NEW_EVENT_def sectors_def)
    moreover have "\<exists>a q. b\<lparr>e_queue := ?q\<rparr> = b\<lparr>wb_valid_array := a, e_queue := q\<rparr>"
      by (intro exI [of _ "wb_valid_array b"]) auto
    ultimately show ?thesis unfolding at returns_Some using ev by (intro exI [of _ "ws @ [?e]"]) auto
  qed
qed

lemma ENQUEUE_WRITE_inv:
  assumes b: "wb_inv c ws b" and q: "queued rs ws b" and ev: "\<forall>e\<in>set ws. write_event c e"
    and S: "SECTOR_NB c < 2147483648" and r: "0 \<le> sec" "0 < len" "sec + len \<le> SECTOR_NB c"
    and l: "len \<le> empty_write_buffer_frame b"
  shows "returns (ENQUEUE_WRITE c sec len b) (\<lambda>b'. \<exists>ws'. wb_inv c ws' b' \<and> queued rs ws' b' \<and>
    (\<forall>e\<in>set ws'. write_event c e) \<and> length ws' \<le> Suc (length ws) \<and> pending ws' = pending ws \<union> {sec..<sec + len} \<and>
    (\<exists>a q p m. b' = b\<lparr>wb_valid_array := a, e_queue := q, sata_write_ptr := p, empty_write_buffer_frame := m\<rparr>))"
proof -
  obtain b1 pre u a1 p1 m1 where b1: "WRITE_DATA_TO_BUFFER c len b = Some b1" "wb_mid c ws (nat len) pre u b1"
    "sata_write_ptr b = frame_at c b1 (length pre + length u)"
    "b1 = b\<lparr>wb_valid_array := a1, sata_write_ptr := p1, empty_write_buffer_frame := m1\<rparr>"
    using wb_inv_claim [OF b r(2) l] unfolding returns_def by blast
  have q1: "queued rs ws b1" "q_entries (e_queue b1) = rs @ [] @ ws" using q unfolding b1(4) by (simp_all add: queued_def)
  have el: "\<forall>e\<in>set ws. 0 < ev_length e \<and> ev_length e < 2147483648" using ev write_event_bounds(2,3) [OF _ S] by blast
  let ?ws = "map (overwrite sec len) ws"
  have up: "[after_reads b1..<length (q_entries (e_queue b1))] = [length rs + length []..<length rs + length [] + length ws]"
    using queued_after_reads [OF q1(1)] q1(2) by simp
  have m0: "wb_mid c ([] @ ws) (nat len) pre u b1" using b1(2) by simp
  obtain b2 u2 a2 where b2: "ofold (check_overwritten c sec len) [after_reads b1..<length (q_entries (e_queue b1))] b1 = Some b2"
    "length u2 = length u" "wb_mid c ?ws (nat len) pre u2 b2"
    "b2 = b1\<lparr>e_queue := (e_queue b1)\<lparr>q_entries := rs @ ?ws\<rparr>, wb_valid_array := a2\<rparr>"
    using check_all_overwritten [OF m0 q1(2) el, of sec len] unfolding up [symmetric] append_Nil returns_def by blast
  have q2: "queued rs ?ws b2" using q1(1) unfolding b2(4) by (simp add: queued_def)
  have ev2: "\<forall>e\<in>set ?ws. write_event c e" using ev by simp
  have p: "sata_write_ptr b = frame_at c b2 (length pre + length u2)"
    using b1(3) b2(2) unfolding b2(4) by (simp add: frame_at_def)
  obtain b3 ws3 a3 q3 where b3: "attach_write c sec len (sata_write_ptr b) b2 = Some b3" "wb_inv c ws3 b3" "queued rs ws3 b3"
    "\<forall>e\<in>set ws3. write_event c e" "length ws3 \<le> Suc (length ?ws)" "pending ws3 = pending ?ws \<union> {sec..<sec + len}"
    "b3 = b2\<lparr>wb_valid_array := a3, e_queue := q3\<rparr>"
    using attach_write_inv [OF b2(3) q2 ev2 S r p] unfolding returns_def by blast
  have "ENQUEUE_WRITE c sec len b = Some b3" by (simp add: ENQUEUE_WRITE_def b1(1) b2(1) b3(1) Let_def)
  moreover have "pending ws3 = pending ws \<union> {sec..<sec + len}" using b3(6) pending_overwrite [OF ev S r] by simp
  moreover have "b3 = b\<lparr>wb_valid_array := a3, e_queue := q3, sata_write_ptr := p1, empty_write_buffer_frame := m1\<rparr>"
    unfolding b3(7) b2(4) b1(4) by simp
  ultimately show ?thesis unfolding returns_def using b3(2-5) by (metis length_map)
qed

end
