(* ===== verification/Firm_Inv.thy ===== *)
theory Firm_Inv
  imports Firm_Layout
begin

text \<open>
  How the reads lie in the read buffer, the invariant of the firmware, and what taking events
  from the queue does.
\<close>

section \<open>The read buffer\<close>

text \<open>
  \<open>chained n p cs q\<close>: the completed reads \<open>cs\<close> fill the frames from \<open>p\<close> up to \<open>q\<close> of a
  ring of \<open>n\<close> in their order.
\<close>

fun chained :: "int \<Rightarrow> int \<Rightarrow> event_queue_entry list \<Rightarrow> int \<Rightarrow> bool" where
  "chained n p [] q \<longleftrightarrow> q = p"
| "chained n p (e # es) q \<longleftrightarrow> ev_buf e = Read_Frame p \<and> 0 < ev_length e \<and> chained n ((p + ev_length e) mod n) es q"

lemma chained_append: "chained n p (es @ fs) q \<longleftrightarrow> (\<exists>r. chained n p es r \<and> chained n r fs q)"
  by (induction es arbitrary: p) auto

abbreviation lengths :: "event_queue_entry list \<Rightarrow> int" where
  "lengths es \<equiv> sum_list (map ev_length es)"

lemma chained_bounds: "chained n p es q \<Longrightarrow> 0 \<le> p \<Longrightarrow> p < n \<Longrightarrow> 0 \<le> q \<and> q < n"
  by (induction es arbitrary: p) auto

lemma chained_lengths: "chained n p es q \<Longrightarrow> 0 \<le> lengths es" "chained n p es q \<Longrightarrow> e \<in> set es \<Longrightarrow> ev_length e \<le> lengths es"
proof -
  show a: "chained n p es q \<Longrightarrow> 0 \<le> lengths es" for p es by (induction es arbitrary: p) force+
  show "chained n p es q \<Longrightarrow> e \<in> set es \<Longrightarrow> ev_length e \<le> lengths es"
    by (induction es arbitrary: p) (use a in \<open>force+\<close>)
qed

definition read_event :: "ssd_config \<Rightarrow> event_queue_entry \<Rightarrow> bool" where
  "read_event c e \<longleftrightarrow> ev_io_type e = READ \<and> ev_valid e = VALID \<and> in_range c (ev_sector_nb e) (ev_length e)"

text \<open>
  The pending reads have no frames yet, except that the first may have been served from the
  write buffer: then its frames follow those of the completed reads.
\<close>

fun waiting :: "int \<Rightarrow> int \<Rightarrow> event_queue_entry list \<Rightarrow> int \<Rightarrow> bool" where
  "waiting n p [] q \<longleftrightarrow> q = p"
| "waiting n p (e # es) q \<longleftrightarrow>
     (ev_buf e = Null \<and> q = p \<or> ev_buf e = Read_Frame p \<and> q = (p + ev_length e) mod n) \<and>
     (\<forall>x\<in>set es. ev_buf x = Null)"

definition rb_inv :: "ssd_config \<Rightarrow> event_queue_entry list \<Rightarrow> io_buffer \<Rightarrow> bool" where
  "rb_inv c rs b \<longleftrightarrow> (let n = READ_BUFFER_FRAME_NB c; cs = q_entries (c_e_queue b) in
     n < 2147483648 \<and> int (length (read_buffer b)) = n \<and> int (length (write_buffer b)) = WRITE_BUFFER_FRAME_NB c \<and>
     0 \<le> sata_read_ptr b \<and> sata_read_ptr b < n \<and> read_limit_ptr b = ftl_read_ptr b \<and>
     q_entry_nb (c_e_queue b) = int (length cs) \<and>
     (\<exists>p. chained n (sata_read_ptr b) cs p \<and> waiting n p rs (ftl_read_ptr b)) \<and>
     empty_read_buffer_frame b = n - lengths cs - lengths rs \<and> 0 \<le> empty_read_buffer_frame b \<and>
     (\<forall>e\<in>set rs. read_event c e))"

lemma lengths_reads: "\<forall>e\<in>set rs. read_event c e \<Longrightarrow> 0 \<le> lengths rs"
  by (intro sum_list_nonneg) (auto simp: read_event_def in_range_def)

lemma rb_invE:
  assumes "rb_inv c rs b"
  obtains cs p where "c_e_queue b = \<lparr>q_entry_nb = int (length cs), q_entries = cs\<rparr>"
    "READ_BUFFER_FRAME_NB c < 2147483648" "int (length (read_buffer b)) = READ_BUFFER_FRAME_NB c"
    "int (length (write_buffer b)) = WRITE_BUFFER_FRAME_NB c"
    "0 \<le> sata_read_ptr b" "sata_read_ptr b < READ_BUFFER_FRAME_NB c" "read_limit_ptr b = ftl_read_ptr b"
    "chained (READ_BUFFER_FRAME_NB c) (sata_read_ptr b) cs p" "waiting (READ_BUFFER_FRAME_NB c) p rs (ftl_read_ptr b)"
    "empty_read_buffer_frame b = READ_BUFFER_FRAME_NB c - lengths cs - lengths rs" "0 \<le> empty_read_buffer_frame b"
    "0 \<le> p" "p < READ_BUFFER_FRAME_NB c" "0 \<le> ftl_read_ptr b" "ftl_read_ptr b < READ_BUFFER_FRAME_NB c"
    "\<forall>e\<in>set rs. read_event c e" "0 \<le> lengths cs" "0 \<le> lengths rs"
proof -
  obtain p where p: "chained (READ_BUFFER_FRAME_NB c) (sata_read_ptr b) (q_entries (c_e_queue b)) p"
    "waiting (READ_BUFFER_FRAME_NB c) p rs (ftl_read_ptr b)" and s: "0 \<le> sata_read_ptr b" "sata_read_ptr b < READ_BUFFER_FRAME_NB c"
    using assms unfolding rb_inv_def Let_def by blast
  note pb = chained_bounds [OF p(1) s]
  have "0 \<le> ftl_read_ptr b \<and> ftl_read_ptr b < READ_BUFFER_FRAME_NB c" using p(2) pb by (cases rs) auto
  moreover have "c_e_queue b = \<lparr>q_entry_nb = int (length (q_entries (c_e_queue b))), q_entries = q_entries (c_e_queue b)\<rparr>"
    using assms by (simp add: rb_inv_def Let_def)
  moreover have "\<forall>e\<in>set rs. read_event c e" using assms by (simp add: rb_inv_def Let_def)
  moreover from this have "0 \<le> lengths rs" by (rule lengths_reads)
  ultimately show thesis
    using that [of "q_entries (c_e_queue b)" p] p s pb assms chained_lengths(1) [OF p(1)] by (simp add: rb_inv_def Let_def)
qed

lemma rb_invD:
  assumes "rb_inv c rs b"
  shows "int (length (write_buffer b)) = WRITE_BUFFER_FRAME_NB c" "int (length (read_buffer b)) = READ_BUFFER_FRAME_NB c"
    "0 \<le> ftl_read_ptr b" "ftl_read_ptr b < READ_BUFFER_FRAME_NB c" "read_limit_ptr b = ftl_read_ptr b"
    "0 \<le> empty_read_buffer_frame b" "empty_read_buffer_frame b \<le> READ_BUFFER_FRAME_NB c"
    "READ_BUFFER_FRAME_NB c < 2147483648"
  by (rule rb_invE [OF assms]; linarith)+

lemma rb_invI:
  assumes "c_e_queue b = \<lparr>q_entry_nb = int (length cs), q_entries = cs\<rparr>"
    "READ_BUFFER_FRAME_NB c < 2147483648" "int (length (read_buffer b)) = READ_BUFFER_FRAME_NB c"
    "int (length (write_buffer b)) = WRITE_BUFFER_FRAME_NB c"
    "0 \<le> sata_read_ptr b" "sata_read_ptr b < READ_BUFFER_FRAME_NB c" "read_limit_ptr b = ftl_read_ptr b"
    "chained (READ_BUFFER_FRAME_NB c) (sata_read_ptr b) cs p" "waiting (READ_BUFFER_FRAME_NB c) p rs (ftl_read_ptr b)"
    "empty_read_buffer_frame b = READ_BUFFER_FRAME_NB c - lengths cs - lengths rs" "0 \<le> empty_read_buffer_frame b"
    "\<forall>e\<in>set rs. read_event c e"
  shows "rb_inv c rs b"
  using assms by (auto simp: rb_inv_def Let_def)

lemma READ_DATA_chained:
  assumes "chained (READ_BUFFER_FRAME_NB c) (sata_read_ptr b) cs p" "0 \<le> sata_read_ptr b" "sata_read_ptr b < READ_BUFFER_FRAME_NB c"
    "lengths cs < 2147483648"
  shows "fold (READ_DATA_FROM_BUFFER_TO_HOST c) cs b =
    b\<lparr>empty_read_buffer_frame := empty_read_buffer_frame b + lengths cs, sata_read_ptr := p\<rparr>"
  using assms
proof (induction cs arbitrary: b)
  case (Cons e cs)
  let ?n = "READ_BUFFER_FRAME_NB c"
  have l: "0 < ev_length e" "0 \<le> lengths cs" using Cons.prems(1) chained_lengths(1) by auto
  then have "i32 (ev_length e) = ev_length e" using Cons.prems(4) by (simp add: i32_id)
  then have "READ_DATA_FROM_BUFFER_TO_HOST c e b = b\<lparr>empty_read_buffer_frame := empty_read_buffer_frame b + ev_length e,
      sata_read_ptr := (sata_read_ptr b + ev_length e) mod ?n\<rparr>" (is "_ = ?b")
    using Cons.prems l by (simp add: READ_DATA_FROM_BUFFER_TO_HOST_def INCREASE_RB_SATA_POINTER_eq)
  moreover have "fold (READ_DATA_FROM_BUFFER_TO_HOST c) cs ?b =
      ?b\<lparr>empty_read_buffer_frame := empty_read_buffer_frame ?b + lengths cs, sata_read_ptr := p\<rparr>"
    using Cons.prems l by (intro Cons.IH) simp_all
  ultimately show ?case by (simp add: add.assoc)
qed simp

lemma DEQUEUE_COMPLETED_READ_inv:
  assumes "rb_inv c rs b"
  shows "returns (DEQUEUE_COMPLETED_READ c b) (\<lambda>b'. rb_inv c rs b' \<and> q_entries (c_e_queue b') = [] \<and>
    (\<exists>q m p. b' = b\<lparr>c_e_queue := q, empty_read_buffer_frame := m, sata_read_ptr := p\<rparr>))"
proof -
  obtain cs p where h: "c_e_queue b = \<lparr>q_entry_nb = int (length cs), q_entries = cs\<rparr>"
    "READ_BUFFER_FRAME_NB c < 2147483648" "int (length (read_buffer b)) = READ_BUFFER_FRAME_NB c"
    "int (length (write_buffer b)) = WRITE_BUFFER_FRAME_NB c"
    "0 \<le> sata_read_ptr b" "sata_read_ptr b < READ_BUFFER_FRAME_NB c" "read_limit_ptr b = ftl_read_ptr b"
    "chained (READ_BUFFER_FRAME_NB c) (sata_read_ptr b) cs p" "waiting (READ_BUFFER_FRAME_NB c) p rs (ftl_read_ptr b)"
    "empty_read_buffer_frame b = READ_BUFFER_FRAME_NB c - lengths cs - lengths rs" "0 \<le> empty_read_buffer_frame b"
    "0 \<le> p" "p < READ_BUFFER_FRAME_NB c"
    "\<forall>e\<in>set rs. read_event c e" "0 \<le> lengths cs" "0 \<le> lengths rs"
    using rb_invE [OF assms] by metis
  show ?thesis
  proof (cases "cs = []")
    case True
    have "b = b\<lparr>c_e_queue := c_e_queue b, empty_read_buffer_frame := empty_read_buffer_frame b, sata_read_ptr := sata_read_ptr b\<rparr>"
      by simp
    moreover have "DEQUEUE_COMPLETED_READ c b = Some b" "q_entries (c_e_queue b) = []"
      using True h(1) by (simp_all add: DEQUEUE_COMPLETED_READ_def)
    ultimately show ?thesis using assms unfolding returns_def by blast
  next
    case False
    let ?b = "b\<lparr>c_e_queue := \<lparr>q_entry_nb = 0, q_entries = []\<rparr>,
        empty_read_buffer_frame := empty_read_buffer_frame b + lengths cs, sata_read_ptr := p\<rparr>"
    have "lengths cs < 2147483648" using h(2,10,11,16) by linarith
    then have "DEQUEUE_COMPLETED_READ c b = Some ?b"
      using False h(1) READ_DATA_chained [OF h(8,5,6)] by (simp add: DEQUEUE_COMPLETED_READ_def)
    moreover have "rb_inv c rs ?b"
      using h by (intro rb_invI [of ?b "[]" c p rs]) simp_all
    moreover have "q_entries (c_e_queue ?b) = []" by simp
    ultimately show ?thesis unfolding returns_def by blast
  qed
qed

section \<open>The invariant of the firmware\<close>

definition firm_inv :: "ssd_config \<Rightarrow> event_queue_entry list \<Rightarrow> event_queue_entry list \<Rightarrow> io_buffer \<Rightarrow> bool" where
  "firm_inv c rs ws b \<longleftrightarrow> queued rs ws b \<and> wb_inv c ws b \<and> rb_inv c rs b \<and> (\<forall>e\<in>set ws. write_event c e)"

text \<open>The logical pages that wait in the write buffer.\<close>

definition pending_pages :: "ssd_config \<Rightarrow> event_queue_entry list \<Rightarrow> int set" where
  "pending_pages c ws = (\<lambda>x. x div SECTORS_PER_PAGE c) ` pending ws"

lemma pending_pages_simps [simp]:
  "pending_pages c [] = {}"
  "pending_pages c (e # ws) = (if ev_valid e = VALID then request_pages c (ev_sector_nb e) (ev_length e) else {}) \<union> pending_pages c ws"
  "pending_pages c (ws @ vs) = pending_pages c ws \<union> pending_pages c vs"
  by (auto simp: pending_pages_def sectors_def request_pages_def)

text \<open>
  The surroundings of the buffered device: those of the unbuffered one, and a write buffer
  whose sectors, wherever they start, never touch more than \<open>n\<close> pages (\<open>buffer_pages\<close>).
\<close>

definition buffer_pages :: "ssd_config \<Rightarrow> int" where
  "buffer_pages c = (WRITE_BUFFER_FRAME_NB c + 2 * SECTORS_PER_PAGE c - 2) div SECTORS_PER_PAGE c"

definition firm_env :: "clock \<Rightarrow> ssd_config \<Rightarrow> int \<Rightarrow> int set \<Rightarrow> bool" where
  "firm_env gt c n U \<longleftrightarrow> wf_config c \<and> PLANES_PER_FLASH c = 1 \<and> clock_advances gt \<and> spare c n U \<and>
     buffer_pages c \<le> n \<and> n < 32768"

lemma card_request_le:
  assumes "0 < SECTORS_PER_PAGE c" "0 < len" "len \<le> WRITE_BUFFER_FRAME_NB c"
  shows "int (card (request_pages c sec len)) \<le> buffer_pages c"
proof -
  have "sec mod SECTORS_PER_PAGE c \<le> SECTORS_PER_PAGE c - 1" using assms(1) by simp
  then have "sec mod SECTORS_PER_PAGE c + len + SECTORS_PER_PAGE c - 1 \<le> WRITE_BUFFER_FRAME_NB c + 2 * SECTORS_PER_PAGE c - 2"
    using assms(3) by linarith
  from zdiv_mono1 [OF this assms(1)]
  have "page_span (SECTORS_PER_PAGE c) (sec mod SECTORS_PER_PAGE c) len \<le> buffer_pages c"
    using assms(2) by (simp add: page_span_def buffer_pages_def)
  then show ?thesis using card_request_pages [OF assms(1)] by simp
qed

lemma laid_length:
  "laid n k ws u \<Longrightarrow> e \<in> set ws \<Longrightarrow> ev_valid e = VALID \<Longrightarrow> ev_length e \<le> int (length u)"
proof (induction ws arbitrary: k u)
  case (Cons x ws)
  then obtain v w where u: "u = v @ w" "stretch n k x v" "laid n (k + int (length v)) ws w" by auto
  show ?case
  proof (cases "e \<in> set ws")
    case True
    then show ?thesis using Cons.IH [OF u(3)] Cons.prems(3) u(1) by simp
  next
    case False
    then have "e = x" using Cons.prems(2) by simp
    then have "ev_length e = hits is_V v" using u(2) Cons.prems(3) by (simp add: stretch_def)
    also have "\<dots> \<le> int (length v)" by simp
    finally show ?thesis using u(1) by simp
  qed
qed simp

lemma valid_write_length:
  assumes "wb_inv c ws b" "e \<in> set ws" "ev_valid e = VALID"
  shows "ev_length e \<le> WRITE_BUFFER_FRAME_NB c"
  using assms(1)
proof (rule wb_invE)
  fix pre u
  assume h: "wb_shape c b" "ring b = pre @ u @ replicate (nat (empty_write_buffer_frame b)) (CHR ''0'')"
    "laid (WRITE_BUFFER_FRAME_NB c) (write_limit_ptr b + int (length pre)) ws u"
  have "ev_length e \<le> int (length u)" using laid_length [OF h(3) assms(2,3)] .
  also have "\<dots> \<le> int (length (ring b))" unfolding h(2) by simp
  finally show ?thesis using wb_shapeD(6) [OF h(1)] by simp
qed

lemma valid_write_in_range:
  assumes wf: "wf_config c" and b: "wb_inv c ws b" "e \<in> set ws" "ev_valid e = VALID" "write_event c e"
    and n: "buffer_pages c \<le> n" "n < 32768"
  shows "in_range c (ev_sector_nb e) (ev_length e)"
    "int (card (request_pages c (ev_sector_nb e) (ev_length e))) \<le> n"
proof -
  have "ev_length e \<le> WRITE_BUFFER_FRAME_NB c" using valid_write_length b by blast
  then have "int (card (request_pages c (ev_sector_nb e) (ev_length e))) \<le> n"
    using card_request_le [OF wf_configD(1) [OF wf], of "ev_length e" "ev_sector_nb e"] n b(4) by (simp add: write_event_def)
  then show "in_range c (ev_sector_nb e) (ev_length e)"
    "int (card (request_pages c (ev_sector_nb e) (ev_length e))) \<le> n"
    using b(4) n card_request_pages [of c "ev_sector_nb e" "ev_length e"] wf_configD(1) [OF wf]
    by (simp_all add: in_range_def write_event_def)
qed

section \<open>Taking an event from the queue\<close>

lemma unlink_head_eq:
  "unlink_head \<lparr>q_entry_nb = int (length (e # es)), q_entries = e # es\<rparr> = \<lparr>q_entry_nb = int (length es), q_entries = es\<rparr>"
  by (auto simp: unlink_head_def)

lemma unlink_read_queued:
  assumes "queued (e # rs) ws b"
  shows "unlink_read (ev_io_type e) (last_read_entry b) = Some (if rs = [] then None else Some (length rs - 1))"
    "queued rs ws (b\<lparr>e_queue := unlink_head (e_queue b), last_read_entry := (if rs = [] then None else Some (length rs - 1))\<rparr>)"
proof -
  have r: "ev_io_type e = READ" "last_read_entry b = Some (length rs)"
    "e_queue b = \<lparr>q_entry_nb = int (length (e # rs @ ws)), q_entries = e # rs @ ws\<rparr>"
    using assms by (simp_all add: queued_def)
  show "unlink_read (ev_io_type e) (last_read_entry b) = Some (if rs = [] then None else Some (length rs - 1))"
    unfolding r(1,2) by (cases rs) (simp_all add: unlink_read_def)
  show "queued rs ws (b\<lparr>e_queue := unlink_head (e_queue b), last_read_entry := (if rs = [] then None else Some (length rs - 1))\<rparr>)"
    unfolding r(3) unlink_head_eq using assms by (simp add: queued_def)
qed

lemma unlink_write_queued:
  assumes "queued [] (e # ws) b"
  shows "unlink_read (ev_io_type e) (last_read_entry b) = Some None"
    "queued [] ws (b\<lparr>e_queue := unlink_head (e_queue b), last_read_entry := None\<rparr>)"
  using assms unlink_head_eq [of e ws] by (simp_all add: queued_def unlink_read_def)

text \<open>The three parts of the invariant look at different fields.\<close>

lemma wb_inv_fields [simp]:
  "wb_inv c ws (b\<lparr>last_read_entry := r\<rparr>) = wb_inv c ws b" "wb_inv c ws (b\<lparr>c_e_queue := q\<rparr>) = wb_inv c ws b"
  "wb_inv c ws (b\<lparr>read_buffer := f\<rparr>) = wb_inv c ws b" "wb_inv c ws (b\<lparr>ftl_read_ptr := p\<rparr>) = wb_inv c ws b"
  "wb_inv c ws (b\<lparr>sata_read_ptr := p\<rparr>) = wb_inv c ws b" "wb_inv c ws (b\<lparr>read_limit_ptr := p\<rparr>) = wb_inv c ws b"
  "wb_inv c ws (b\<lparr>empty_read_buffer_frame := m\<rparr>) = wb_inv c ws b"
  by (simp_all add: wb_inv_def wb_shape_def frame_at_def)

lemma rb_inv_fields [simp]:
  "rb_inv c rs (b\<lparr>e_queue := q\<rparr>) = rb_inv c rs b" "rb_inv c rs (b\<lparr>last_read_entry := r\<rparr>) = rb_inv c rs b"
  "rb_inv c rs (b\<lparr>wb_valid_array := a\<rparr>) = rb_inv c rs b" "rb_inv c rs (b\<lparr>ftl_write_ptr := p\<rparr>) = rb_inv c rs b"
  "rb_inv c rs (b\<lparr>sata_write_ptr := p\<rparr>) = rb_inv c rs b" "rb_inv c rs (b\<lparr>write_limit_ptr := p\<rparr>) = rb_inv c rs b"
  "rb_inv c rs (b\<lparr>empty_write_buffer_frame := m\<rparr>) = rb_inv c rs b"
  by (simp_all add: rb_inv_def)

lemma queued_read_fields [simp]:
  "queued rs ws (b\<lparr>c_e_queue := q\<rparr>) = queued rs ws b" "queued rs ws (b\<lparr>read_buffer := f\<rparr>) = queued rs ws b"
  "queued rs ws (b\<lparr>ftl_read_ptr := p\<rparr>) = queued rs ws b" "queued rs ws (b\<lparr>sata_read_ptr := p\<rparr>) = queued rs ws b"
  "queued rs ws (b\<lparr>read_limit_ptr := p\<rparr>) = queued rs ws b"
  "queued rs ws (b\<lparr>empty_read_buffer_frame := m\<rparr>) = queued rs ws b"
  by (simp_all add: queued_def)

text \<open>A read that leaves the queue gets the next frames of the read buffer.\<close>

lemma rb_inv_complete:
  assumes b: "rb_inv c (e # rs) b"
    and q: "ev_buf e = Null \<Longrightarrow> f = (ftl_read_ptr b + ev_length e) mod READ_BUFFER_FRAME_NB c"
      "ev_buf e \<noteq> Null \<Longrightarrow> f = ftl_read_ptr b"
    and e: "e' = (if ev_buf e = Null then e\<lparr>ev_buf := Read_Frame (ftl_read_ptr b)\<rparr> else e)"
  shows "\<exists>cq. append_event e' (c_e_queue b) = Some cq \<and>
    rb_inv c rs (b\<lparr>ftl_read_ptr := f, read_limit_ptr := f, c_e_queue := cq\<rparr>)"
proof -
  obtain cs p where h: "c_e_queue b = \<lparr>q_entry_nb = int (length cs), q_entries = cs\<rparr>"
    "READ_BUFFER_FRAME_NB c < 2147483648" "int (length (read_buffer b)) = READ_BUFFER_FRAME_NB c"
    "int (length (write_buffer b)) = WRITE_BUFFER_FRAME_NB c"
    "0 \<le> sata_read_ptr b" "sata_read_ptr b < READ_BUFFER_FRAME_NB c"
    "chained (READ_BUFFER_FRAME_NB c) (sata_read_ptr b) cs p" "waiting (READ_BUFFER_FRAME_NB c) p (e # rs) (ftl_read_ptr b)"
    "empty_read_buffer_frame b = READ_BUFFER_FRAME_NB c - lengths cs - lengths (e # rs)" "0 \<le> empty_read_buffer_frame b"
    "\<forall>e\<in>set (e # rs). read_event c e"
    using rb_invE [OF b] by metis
  let ?n = "READ_BUFFER_FRAME_NB c"
  have l: "0 < ev_length e" using h(11) by (simp add: read_event_def in_range_def)
  have f: "ev_buf e' = Read_Frame p" "ev_length e' = ev_length e" "f = (p + ev_length e) mod ?n"
    using h(8) q e by auto
  have ch: "chained ?n (sata_read_ptr b) (cs @ [e']) ((p + ev_length e) mod ?n)"
    unfolding chained_append using h(7) f l by auto
  have w: "waiting ?n ((p + ev_length e) mod ?n) rs f" using h(8) f(3) by (cases rs) auto
  let ?q = "\<lparr>q_entry_nb = int (length (cs @ [e'])), q_entries = cs @ [e']\<rparr>"
  have "append_event e' (c_e_queue b) = Some ?q" unfolding h(1) by (rule append_event_eq)
  moreover have "rb_inv c rs (b\<lparr>ftl_read_ptr := f, read_limit_ptr := f, c_e_queue := ?q\<rparr>)"
    using h ch w f(2) by (intro rb_invI [of _ "cs @ [e']" c "(p + ev_length e) mod ?n"]) simp_all
  ultimately show ?thesis by blast
qed

definition keeps :: "io_buffer \<Rightarrow> io_buffer \<Rightarrow> bool" where
  "keeps b b' \<longleftrightarrow> empty_read_buffer_frame b' = empty_read_buffer_frame b \<and> write_buffer b' = write_buffer b"

lemma keeps_trans [trans]: "keeps b b' \<Longrightarrow> keeps b' b'' \<Longrightarrow> keeps b b''"
  by (simp add: keeps_def)

lemma keeps_refl [simp]: "keeps b b"
  by (simp add: keeps_def)

lemma DEQUEUE_read:
  assumes env: "firm_env gt c n U" and b: "firm_inv c (e # rs) ws b" and s: "ready_for c U (Suc k) s"
  shows "returns (DEQUEUE_IO gt c (b, s)) (\<lambda>(b', s'). firm_inv c rs ws b' \<and> ready_for c U k s' \<and>
    mapped c (tables s') = mapped c (tables s) \<and> keeps b b')"
proof -
  have wf: "wf_config c" "clock_advances gt" using env by (simp_all add: firm_env_def)
  have q: "queued (e # rs) ws b" and w: "wb_inv c ws b" "\<forall>e\<in>set ws. write_event c e" and r: "rb_inv c (e # rs) b"
    using b by (simp_all add: firm_inv_def)
  have e: "ev_io_type e = READ" "ev_valid e = VALID" "in_range c (ev_sector_nb e) (ev_length e)"
    using r by (auto simp: rb_inv_def Let_def read_event_def)
  have h: "q_entry_nb (e_queue b) \<noteq> 0" "q_entries (e_queue b) = e # rs @ ws"
    using q by (simp_all add: queued_def)
  note u = unlink_read_queued [OF q]
  define b0 where "b0 = b\<lparr>e_queue := unlink_head (e_queue b), last_read_entry := (if rs = [] then None else Some (length rs - 1))\<rparr>"
  have b0: "queued rs ws b0" "wb_inv c ws b0" "rb_inv c (e # rs) b0"
    using u(2) w(1) r by (simp_all add: b0_def)
  have k: "ready_for c U k s" using s by (simp add: ready_for_def)
  show ?thesis
  proof (cases "ev_buf e = Null")
    case False
    obtain cq where cq: "append_event e (c_e_queue b0) = Some cq"
      "rb_inv c rs (b0\<lparr>ftl_read_ptr := ftl_read_ptr b0, read_limit_ptr := ftl_read_ptr b0, c_e_queue := cq\<rparr>)"
      using rb_inv_complete [OF b0(3), of "ftl_read_ptr b0" e] False by auto
    have "read_limit_ptr b0 = ftl_read_ptr b0" using b0(3) by (simp add: rb_inv_def Let_def)
    then have "b0\<lparr>ftl_read_ptr := ftl_read_ptr b0, read_limit_ptr := ftl_read_ptr b0, c_e_queue := cq\<rparr> = b0\<lparr>c_e_queue := cq\<rparr>"
      by (cases b0) simp
    then have r1: "rb_inv c rs (b0\<lparr>c_e_queue := cq\<rparr>)" using cq(2) by simp
    have "DEQUEUE_IO gt c (b, s) = Some (b0\<lparr>c_e_queue := cq\<rparr>, s)"
      using h e False u(1) cq(1) by (simp add: DEQUEUE_IO_def b0_def)
    then show ?thesis using r1 b0 w k by (simp add: firm_inv_def keeps_def b0_def)
  next
    case True
    let ?f = "(ftl_read_ptr b0 + ev_length e) mod READ_BUFFER_FRAME_NB c"
    let ?e = "e\<lparr>ev_buf := Read_Frame (ftl_read_ptr b0)\<rparr>"
    obtain cq where cq: "append_event ?e (c_e_queue b0) = Some cq"
      "rb_inv c rs (b0\<lparr>ftl_read_ptr := ?f, read_limit_ptr := ?f, c_e_queue := cq\<rparr>)"
      using rb_inv_complete [OF b0(3), of ?f ?e] True by auto
    obtain ret s' where i: "FTL_READ_impl gt c (ev_sector_nb e) (ev_length e) s = Some (ret, s')" "ready_for c U k s'"
      "mapped c (tables s') = mapped c (tables s)"
      using host_read_refines [OF wf s e(3)] unfolding returns_def by auto
    have p: "0 \<le> ftl_read_ptr b0" "ftl_read_ptr b0 < READ_BUFFER_FRAME_NB c" "read_limit_ptr b0 = ftl_read_ptr b0"
      using rb_invE [OF b0(3)] by metis+
    have l: "0 \<le> ev_length e" "ev_length e < 2147483648"
      using e(3) wf_sectors(2) [OF wf(1)] by (simp_all add: in_range_def)
    have "FTL_READ_buffered gt c (ev_sector_nb e) (ev_length e) (b0, s) =
        Some (ret, (b0\<lparr>ftl_read_ptr := ?f, read_limit_ptr := ?f\<rparr>, s'))"
      using FTL_READ_buffered_eq [OF in_range_start(1) [OF wf(1) e(3)] l, of b0 gt s] p i(1) by simp
    then have "DEQUEUE_IO gt c (b, s) = Some (b0\<lparr>ftl_read_ptr := ?f, read_limit_ptr := ?f, c_e_queue := cq\<rparr>, s')"
      using h e True u(1) cq(1) by (simp add: DEQUEUE_IO_def b0_def)
    then show ?thesis using cq(2) b0 w i by (simp add: firm_inv_def keeps_def b0_def)
  qed
qed

lemma DEQUEUE_write:
  assumes env: "firm_env gt c n U" and b: "firm_inv c [] (e # ws) b" and s: "ready_for c U (Suc k) s"
    and U: "pending_pages c (e # ws) \<subseteq> U"
  shows "returns (DEQUEUE_IO gt c (b, s)) (\<lambda>(b', s'). firm_inv c [] ws b' \<and> ready_for c U k s' \<and>
    mapped c (tables s') \<union> pending_pages c ws = mapped c (tables s) \<union> pending_pages c (e # ws) \<and>
    (ev_valid e = VALID \<longrightarrow> released c e b') \<and> keeps b b')"
proof -
  have wf: "wf_config c" "PLANES_PER_FLASH c = 1" "clock_advances gt" "spare c n U" and n: "buffer_pages c \<le> n" "n < 32768"
    using env by (simp_all add: firm_env_def)
  have q: "queued [] (e # ws) b" and w: "wb_inv c (e # ws) b" "\<forall>e\<in>set (e # ws). write_event c e" and r: "rb_inv c [] b"
    using b by (simp_all add: firm_inv_def)
  have e: "ev_io_type e = WRITE" "write_event c e" using w(2) by (simp_all add: write_event_def)
  have h: "q_entry_nb (e_queue b) \<noteq> 0" "q_entries (e_queue b) = e # ws" using q by (simp_all add: queued_def)
  note u = unlink_write_queued [OF q]
  define b0 where "b0 = b\<lparr>e_queue := unlink_head (e_queue b), last_read_entry := None\<rparr>"
  have b0: "queued [] ws b0" "wb_inv c (e # ws) b0" "rb_inv c [] b0" using u(2) w(1) r by (simp_all add: b0_def)
  have k: "ready_for c U k s" using s by (simp add: ready_for_def)
  show ?thesis
  proof (cases "ev_valid e = VALID")
    case False
    have "DEQUEUE_IO gt c (b, s) = Some (b0, s)" using h e False u(1) by (simp add: DEQUEUE_IO_def b0_def)
    moreover have "wb_inv c ws b0" using wb_inv_drop_invalid [OF b0(2) False] .
    ultimately show ?thesis using False b0 w k by (simp add: firm_inv_def keeps_def b0_def)
  next
    case True
    have rg: "in_range c (ev_sector_nb e) (ev_length e)" "int (card (request_pages c (ev_sector_nb e) (ev_length e))) \<le> n"
      using valid_write_in_range [OF wf(1) w(1) _ True e(2) n] by simp_all
    obtain s' where i: "FTL_WRITE_impl gt c (ev_sector_nb e) (ev_length e) s = Some (SUCCESS, s')" "ready_for c U k s'"
      "mapped c (tables s') = mapped c (tables s) \<union> request_pages c (ev_sector_nb e) (ev_length e)"
      using host_write_refines [OF wf s rg(1) _ rg(2)] U True unfolding returns_def by auto
    obtain b1 where d: "FTL_WRITE_buffered gt c (ev_sector_nb e) (ev_length e) (b0, s) = Some (SUCCESS, (b1, s'))" "wb_inv c ws b1"
      "released c e b1"
      "\<exists>a p m. b1 = b0\<lparr>wb_valid_array := a, ftl_write_ptr := p, write_limit_ptr := p, empty_write_buffer_frame := m\<rparr>"
      using wb_inv_drop_valid [OF b0(2) True rg(1) wf(1) i(1)] unfolding returns_def by auto
    have "DEQUEUE_IO gt c (b, s) = Some (b1, s')" using h e True u(1) d(1) by (simp add: DEQUEUE_IO_def b0_def)
    moreover have "queued [] ws b1" "rb_inv c [] b1" "keeps b b1" using d(4) b0 by (auto simp: keeps_def b0_def)
    ultimately show ?thesis using True d(2,3) w i(2,3) by (auto simp: firm_inv_def)
  qed
qed

section \<open>Flushing\<close>

lemma DEQUEUE_reads:
  assumes "firm_env gt c n U" "firm_inv c (rs @ rs') ws b" "ready_for c U (length rs + k) s" "length xs = length rs"
  shows "returns (ofold (\<lambda>i. DEQUEUE_IO gt c) xs (b, s)) (\<lambda>(b', s'). firm_inv c rs' ws b' \<and> ready_for c U k s' \<and>
    mapped c (tables s') = mapped c (tables s) \<and> keeps b b')"
  using assms(2-4)
proof (induction rs arbitrary: b s xs)
  case (Cons e rs)
  obtain x ys where xs: "xs = x # ys" "length ys = length rs" using Cons.prems(3) by (cases xs) auto
  obtain b1 s1 where d: "DEQUEUE_IO gt c (b, s) = Some (b1, s1)" "firm_inv c (rs @ rs') ws b1"
    "ready_for c U (length rs + k) s1" "mapped c (tables s1) = mapped c (tables s)" "keeps b b1"
    using DEQUEUE_read [OF assms(1), of e "rs @ rs'" ws b "length rs + k" s] Cons.prems(1,2) unfolding returns_def by auto
  have "returns (ofold (\<lambda>i. DEQUEUE_IO gt c) ys (b1, s1)) (\<lambda>(b', s'). firm_inv c rs' ws b' \<and> ready_for c U k s' \<and>
    mapped c (tables s') = mapped c (tables s1) \<and> keeps b1 b')" using Cons.IH [OF d(2,3) xs(2)] .
  then show ?case
    unfolding xs(1) ofold.simps d(1) Option.bind.bind_lunit
    by (rule returns_mono) (use d(4,5) keeps_trans in auto)
qed simp

lemma DEQUEUE_writes:
  assumes "firm_env gt c n U" "firm_inv c [] (ws @ ws') b" "ready_for c U (length ws + k) s" "length xs = length ws"
    "pending_pages c (ws @ ws') \<subseteq> U"
  shows "returns (ofold (\<lambda>i. DEQUEUE_IO gt c) xs (b, s)) (\<lambda>(b', s'). firm_inv c [] ws' b' \<and> ready_for c U k s' \<and>
    mapped c (tables s') \<union> pending_pages c ws' = mapped c (tables s) \<union> pending_pages c (ws @ ws') \<and>
    (ws \<noteq> [] \<and> ev_valid (last ws) = VALID \<longrightarrow> released c (last ws) b') \<and> keeps b b')"
  using assms(2-5)
proof (induction ws arbitrary: b s xs)
  case (Cons e ws)
  obtain x ys where xs: "xs = x # ys" "length ys = length ws" using Cons.prems(3) by (cases xs) auto
  obtain b1 s1 where d: "DEQUEUE_IO gt c (b, s) = Some (b1, s1)" "firm_inv c [] (ws @ ws') b1"
    "ready_for c U (length ws + k) s1"
    "mapped c (tables s1) \<union> pending_pages c (ws @ ws') = mapped c (tables s) \<union> pending_pages c (e # ws @ ws')"
    "ev_valid e = VALID \<longrightarrow> released c e b1" "keeps b b1"
    using DEQUEUE_write [OF assms(1), of e "ws @ ws'" b "length ws + k" s] Cons.prems unfolding returns_def by auto
  have "pending_pages c (ws @ ws') \<subseteq> U" using Cons.prems(4) by simp
  then have ih: "returns (ofold (\<lambda>i. DEQUEUE_IO gt c) ys (b1, s1)) (\<lambda>(b', s'). firm_inv c [] ws' b' \<and> ready_for c U k s' \<and>
    mapped c (tables s') \<union> pending_pages c ws' = mapped c (tables s1) \<union> pending_pages c (ws @ ws') \<and>
    (ws \<noteq> [] \<and> ev_valid (last ws) = VALID \<longrightarrow> released c (last ws) b') \<and> keeps b1 b')"
    using Cons.IH [OF d(2,3) xs(2)] by blast
  show ?case
  proof (cases ws)
    case Nil
    then have "ys = []" using xs(2) by simp
    then show ?thesis using d Nil by (simp add: xs(1))
  next
    case (Cons y zs)
    then show ?thesis
      unfolding xs(1) ofold.simps d(1) Option.bind.bind_lunit
      using ih d(4) keeps_trans [OF d(6)] by (elim returns_mono) auto
  qed
qed simp

lemma ready_for_mono: "ready_for c U k s \<Longrightarrow> j \<le> k \<Longrightarrow> ready_for c U j s"
  by (simp add: ready_for_def)

text \<open>Flushing until the last read takes all reads, flushing until a write all reads as well.\<close>

lemma FLUSH_reads:
  assumes "firm_env gt c n U" "firm_inv c rs ws b" "ready_for c U (length rs + k) s" "rs \<noteq> []"
  shows "returns (FLUSH_EVENT_QUEUE_UNTIL gt c (Some (length rs - 1)) (b, s)) (\<lambda>(b', s'). firm_inv c [] ws b' \<and>
    ready_for c U k s' \<and> mapped c (tables s') = mapped c (tables s) \<and> keeps b b')"
proof -
  have q: "e_queue b = \<lparr>q_entry_nb = int (length (rs @ ws)), q_entries = rs @ ws\<rparr>"
    using assms(2) by (simp add: firm_inv_def queued_def)
  have "FLUSH_EVENT_QUEUE_UNTIL gt c (Some (length rs - 1)) (b, s) =
      ofold (\<lambda>i. DEQUEUE_IO gt c) [0..int (length rs) - 1] (b, s)"
    using assms(4) by (auto simp: FLUSH_EVENT_QUEUE_UNTIL_def q Let_def of_nat_diff Suc_leI)
  then show ?thesis using DEQUEUE_reads [OF assms(1), of rs "[]" ws b k s "[0..int (length rs) - 1]"] assms(2,3) by simp
qed

lemma FLUSH_writes:
  assumes env: "firm_env gt c n U" and b: "firm_inv c rs (ws @ w # ws') b"
    and s: "ready_for c U (length rs + length ws + 1 + k) s" and U: "pending_pages c (ws @ w # ws') \<subseteq> U"
  shows "returns (FLUSH_EVENT_QUEUE_UNTIL gt c (Some (length rs + length ws)) (b, s)) (\<lambda>(b', s'). firm_inv c [] ws' b' \<and>
    ready_for c U k s' \<and> mapped c (tables s') \<union> pending_pages c ws' = mapped c (tables s) \<union> pending_pages c (ws @ w # ws') \<and>
    (ev_valid w = VALID \<longrightarrow> released c w b') \<and> keeps b b')"
proof -
  let ?m = "int (length rs) + int (length ws) + 1"
  have q: "e_queue b = \<lparr>q_entry_nb = int (length (rs @ ws @ w # ws')), q_entries = rs @ ws @ w # ws'\<rparr>"
    using b by (simp add: firm_inv_def queued_def)
  have up: "[0..?m - 1] = [0..int (length rs) - 1] @ [int (length rs)..?m - 1]"
    by (intro upto_split1) simp_all
  have "FLUSH_EVENT_QUEUE_UNTIL gt c (Some (length rs + length ws)) (b, s) = ofold (\<lambda>i. DEQUEUE_IO gt c) [0..?m - 1] (b, s)"
    by (auto simp: FLUSH_EVENT_QUEUE_UNTIL_def q Let_def)
  then have f: "FLUSH_EVENT_QUEUE_UNTIL gt c (Some (length rs + length ws)) (b, s) =
      Option.bind (ofold (\<lambda>i. DEQUEUE_IO gt c) [0..int (length rs) - 1] (b, s))
        (ofold (\<lambda>i. DEQUEUE_IO gt c) [int (length rs)..?m - 1])" unfolding up ofold_app .
  have s': "ready_for c U (length rs + (length (ws @ [w]) + k)) s" using s by (simp add: add.assoc)
  have R: "returns (ofold (\<lambda>i. DEQUEUE_IO gt c) [0..int (length rs) - 1] (b, s)) (\<lambda>(b', s'). firm_inv c [] (ws @ w # ws') b' \<and>
    ready_for c U (length (ws @ [w]) + k) s' \<and> mapped c (tables s') = mapped c (tables s) \<and> keeps b b')"
    using b by (intro DEQUEUE_reads [OF env _ s']) simp_all
  obtain b1 s1 where d: "ofold (\<lambda>i. DEQUEUE_IO gt c) [0..int (length rs) - 1] (b, s) = Some (b1, s1)"
    "firm_inv c [] ((ws @ [w]) @ ws') b1" "ready_for c U (length (ws @ [w]) + k) s1"
    "mapped c (tables s1) = mapped c (tables s)" "keeps b b1"
    using R unfolding returns_def by auto
  have "pending_pages c ((ws @ [w]) @ ws') \<subseteq> U" "length [int (length rs)..?m - 1] = length (ws @ [w])" using U by simp_all
  then have "returns (ofold (\<lambda>i. DEQUEUE_IO gt c) [int (length rs)..?m - 1] (b1, s1)) (\<lambda>(b', s'). firm_inv c [] ws' b' \<and>
    ready_for c U k s' \<and> mapped c (tables s') \<union> pending_pages c ws' = mapped c (tables s1) \<union> pending_pages c ((ws @ [w]) @ ws') \<and>
    (ws @ [w] \<noteq> [] \<and> ev_valid (last (ws @ [w])) = VALID \<longrightarrow> released c (last (ws @ [w])) b') \<and> keeps b1 b')"
    using d(2,3) by (intro DEQUEUE_writes [OF env])
  then show ?thesis
    unfolding f d(1) Option.bind.bind_lunit
    by (rule returns_mono) (use d(4) keeps_trans [OF d(5)] in auto)
qed

text \<open>Flushing until the tail empties the queue and the write buffer.\<close>

lemma FLUSH_all:
  assumes env: "firm_env gt c n U" and b: "firm_inv c rs ws b"
    and s: "ready_for c U (length rs + length ws + k) s" and U: "pending_pages c ws \<subseteq> U"
  shows "returns (FLUSH_EVENT_QUEUE_UNTIL gt c (tail_position (e_queue b)) (b, s)) (\<lambda>(b', s'). firm_inv c [] [] b' \<and>
    ready_for c U k s' \<and> mapped c (tables s') = mapped c (tables s) \<union> pending_pages c ws \<and> keeps b b')"
proof -
  have q: "e_queue b = \<lparr>q_entry_nb = int (length (rs @ ws)), q_entries = rs @ ws\<rparr>"
    using b by (simp add: firm_inv_def queued_def)
  show ?thesis
  proof (cases ws rule: rev_cases)
    case Nil
    show ?thesis
    proof (cases "rs = []")
      case True
      then have "FLUSH_EVENT_QUEUE_UNTIL gt c (tail_position (e_queue b)) (b, s) = Some (b, s)"
        using Nil by (simp add: tail_position_def q FLUSH_EVENT_QUEUE_UNTIL_def)
      then show ?thesis using b s True Nil by simp
    next
      case False
      then have "tail_position (e_queue b) = Some (length rs - 1)" using Nil by (simp add: tail_position_def q)
      moreover have "returns (FLUSH_EVENT_QUEUE_UNTIL gt c (Some (length rs - 1)) (b, s)) (\<lambda>(b', s'). firm_inv c [] ws b' \<and>
        ready_for c U k s' \<and> mapped c (tables s') = mapped c (tables s) \<and> keeps b b')"
        using s Nil by (intro FLUSH_reads [OF env b _ False]) simp
      ultimately show ?thesis using Nil by simp
    qed
  next
    case (snoc ws0 w)
    then have t: "tail_position (e_queue b) = Some (length rs + length ws0)" by (simp add: tail_position_def q)
    have "returns (FLUSH_EVENT_QUEUE_UNTIL gt c (Some (length rs + length ws0)) (b, s)) (\<lambda>(b', s'). firm_inv c [] [] b' \<and>
      ready_for c U k s' \<and> mapped c (tables s') \<union> pending_pages c [] = mapped c (tables s) \<union> pending_pages c (ws0 @ w # []) \<and>
      (ev_valid w = VALID \<longrightarrow> released c w b') \<and> keeps b b')"
      using b s U snoc by (intro FLUSH_writes [OF env]) simp_all
    then show ?thesis unfolding t by (rule returns_mono) (simp add: snoc split: prod.splits)
  qed
qed

end
