(* ===== verification/Firm_Spec.thy ===== *)
theory Firm_Spec
  imports Firm_Inv
begin

text \<open>
  Reads and their dependencies on pending writes, and what the buffered device promises its
  host: no write is lost, and no read overtakes a write it depends on.
\<close>

section \<open>Adding a read\<close>

definition overlaps :: "int \<Rightarrow> int \<Rightarrow> event_queue_entry \<Rightarrow> bool" where
  "overlaps sec len e \<longleftrightarrow> ev_valid e = VALID \<and> sectors e \<inter> {sec..<sec + len} \<noteq> {}"

lemma last_dependent_cases:
  "(last_dependent s l i ret es = ret \<and>
     (\<forall>e\<in>set es. \<not> (ev_valid e = VALID \<and> ev_sector_nb e \<le> l \<and> s \<le> i32 (ev_sector_nb e + ev_length e - 1)))) \<or>
   (\<exists>es1 w es2. es = es1 @ w # es2 \<and> last_dependent s l i ret es = Some (i + length es1) \<and>
     ev_valid w = VALID \<and> ev_sector_nb w \<le> l \<and> s \<le> i32 (ev_sector_nb w + ev_length w - 1) \<and>
     (\<forall>e\<in>set es2. \<not> (ev_valid e = VALID \<and> ev_sector_nb e \<le> l \<and> s \<le> i32 (ev_sector_nb e + ev_length e - 1))))"
proof (induction es arbitrary: i ret)
  case (Cons e es)
  let ?d = "\<lambda>e. ev_valid e = VALID \<and> ev_sector_nb e \<le> l \<and> s \<le> i32 (ev_sector_nb e + ev_length e - 1)"
  let ?r = "if ?d e then Some i else ret"
  consider (none) "last_dependent s l (Suc i) ?r es = ?r" "\<forall>e\<in>set es. \<not> ?d e"
    | (some) es1 w es2 where "es = es1 @ w # es2" "last_dependent s l (Suc i) ?r es = Some (Suc i + length es1)" "?d w"
      "\<forall>e\<in>set es2. \<not> ?d e"
    using Cons.IH [of "Suc i" ?r] by blast
  then show ?case
  proof cases
    case none
    show ?thesis
    proof (cases "?d e")
      case True
      then have "e # es = [] @ e # es \<and> last_dependent s l i ret (e # es) = Some (i + length []) \<and> ?d e \<and> (\<forall>e\<in>set es. \<not> ?d e)"
        using none by simp
      then show ?thesis by blast
    next
      case False
      then show ?thesis using none by simp
    qed
  next
    case some
    then have "e # es = (e # es1) @ w # es2 \<and> last_dependent s l i ret (e # es) = Some (i + length (e # es1)) \<and> ?d w \<and> (\<forall>e\<in>set es2. \<not> ?d e)"
      by simp
    then show ?thesis by blast
  qed
qed simp

lemma CHECK_IO_DEPENDENCY_FOR_READ_cases:
  assumes q: "queued rs ws b" and ev: "\<forall>e\<in>set ws. write_event c e" and S: "SECTOR_NB c < 2147483648"
    and r: "0 \<le> sec" "0 < len" "sec + len \<le> SECTOR_NB c"
  obtains (none) "CHECK_IO_DEPENDENCY_FOR_READ sec len b = None" "\<forall>e\<in>set ws. \<not> overlaps sec len e"
  | (some) ws1 w ws2 where "ws = ws1 @ w # ws2" "CHECK_IO_DEPENDENCY_FOR_READ sec len b = Some (length rs + length ws1)"
      "ev_valid w = VALID" "\<forall>e\<in>set ws2. \<not> overlaps sec len e"
proof -
  have a: "after_reads b = length rs" using queued_after_reads [OF q] .
  have d: "drop (after_reads b) (q_entries (e_queue b)) = ws" unfolding a using q by (simp add: queued_def)
  have chk: "CHECK_IO_DEPENDENCY_FOR_READ sec len b = last_dependent sec (i32 (sec + len - 1)) (length rs) None ws"
    unfolding CHECK_IO_DEPENDENCY_FOR_READ_def d unfolding a ..
  have dep: "(ev_valid e = VALID \<and> ev_sector_nb e \<le> i32 (sec + len - 1) \<and> sec \<le> i32 (ev_sector_nb e + ev_length e - 1)) \<longleftrightarrow> overlaps sec len e"
    if "e \<in> set ws" for e
  proof -
    have "write_event c e" using ev that by blast
    note b = write_event_bounds [OF this S]
    have "sectors e \<inter> {sec..<sec + len} \<noteq> {} \<longleftrightarrow> ev_sector_nb e \<le> sec + len - 1 \<and> sec \<le> ev_sector_nb e + ev_length e - 1"
    proof
      assume "ev_sector_nb e \<le> sec + len - 1 \<and> sec \<le> ev_sector_nb e + ev_length e - 1"
      then have "max sec (ev_sector_nb e) \<in> sectors e \<inter> {sec..<sec + len}" using b r by (auto simp: sectors_def)
      then show "sectors e \<inter> {sec..<sec + len} \<noteq> {}" by blast
    qed (auto simp: sectors_def)
    then show ?thesis using b r S by (simp add: overlaps_def i32_id)
  qed
  show thesis
    using last_dependent_cases [of sec "i32 (sec + len - 1)" "length rs" None ws]
  proof (elim disjE conjE exE)
    assume h: "last_dependent sec (i32 (sec + len - 1)) (length rs) None ws = None"
      "\<forall>e\<in>set ws. \<not> (ev_valid e = VALID \<and> ev_sector_nb e \<le> i32 (sec + len - 1) \<and> sec \<le> i32 (ev_sector_nb e + ev_length e - 1))"
    have "\<forall>e\<in>set ws. \<not> overlaps sec len e" using h(2) dep by blast
    then show thesis using h(1) chk by (intro none) simp_all
  next
    fix ws1 w ws2
    assume h: "ws = ws1 @ w # ws2" "last_dependent sec (i32 (sec + len - 1)) (length rs) None ws = Some (length rs + length ws1)"
      "ev_valid w = VALID"
      "\<forall>e\<in>set ws2. \<not> (ev_valid e = VALID \<and> ev_sector_nb e \<le> i32 (sec + len - 1) \<and> sec \<le> i32 (ev_sector_nb e + ev_length e - 1))"
    have "\<forall>e\<in>set ws2. e \<in> set ws" using h(1) by simp
    then have "\<forall>e\<in>set ws2. \<not> overlaps sec len e" using h(4) dep by blast
    then show thesis using h by (intro some [of ws1 w ws2]) (simp_all add: chk)
  qed
qed

lemma insert_read_queued:
  assumes "queued rs ws b" "ev_io_type e = READ"
  shows "queued (rs @ [e]) ws (insert_read e b)"
  using assms queued_after_reads [OF assms(1)] by (auto simp: queued_def insert_read_def Let_def)

lemma insert_read_fields:
  "\<exists>q r. insert_read e b = b\<lparr>e_queue := q, last_read_entry := r\<rparr>"
  by (auto simp: insert_read_def Let_def)

lemma rb_inv_add:
  assumes b: "rb_inv c rs b" and e: "read_event c e" "ev_length e \<le> empty_read_buffer_frame b"
    and buf: "ev_buf e = Null \<and> f = ftl_read_ptr b \<or> rs = [] \<and> ev_buf e = Read_Frame (ftl_read_ptr b) \<and>
      f = (ftl_read_ptr b + ev_length e) mod READ_BUFFER_FRAME_NB c"
    and r: "length r = length (read_buffer b)"
  shows "rb_inv c (rs @ [e]) (b\<lparr>read_buffer := r, ftl_read_ptr := f, read_limit_ptr := f,
    empty_read_buffer_frame := empty_read_buffer_frame b - ev_length e\<rparr>)"
proof -
  obtain cs p where h: "c_e_queue b = \<lparr>q_entry_nb = int (length cs), q_entries = cs\<rparr>"
    "READ_BUFFER_FRAME_NB c < 2147483648" "int (length (read_buffer b)) = READ_BUFFER_FRAME_NB c"
    "int (length (write_buffer b)) = WRITE_BUFFER_FRAME_NB c"
    "0 \<le> sata_read_ptr b" "sata_read_ptr b < READ_BUFFER_FRAME_NB c"
    "chained (READ_BUFFER_FRAME_NB c) (sata_read_ptr b) cs p" "waiting (READ_BUFFER_FRAME_NB c) p rs (ftl_read_ptr b)"
    "empty_read_buffer_frame b = READ_BUFFER_FRAME_NB c - lengths cs - lengths rs"
    "\<forall>e\<in>set rs. read_event c e"
    using rb_invE [OF b] by metis
  have "waiting (READ_BUFFER_FRAME_NB c) p (rs @ [e]) f" using h(8) buf by (cases rs) auto
  then show ?thesis
    using h e r by (intro rb_invI [of _ cs c p]) simp_all
qed

text \<open>
  \<open>copied c b w e b'\<close>: the pending write \<open>w\<close> covers the read \<open>e\<close>, and the frames of \<open>e\<close>
  in the read buffer hold what stands in the write buffer from the first frame of \<open>w\<close> on,
  one frame for every sector from the start of \<open>w\<close>.
\<close>

definition copied :: "ssd_config \<Rightarrow> io_buffer \<Rightarrow> event_queue_entry \<Rightarrow> event_queue_entry \<Rightarrow> io_buffer \<Rightarrow> bool" where
  "copied c b w e b' \<longleftrightarrow> ev_valid w = VALID \<and> sectors e \<subseteq> sectors w \<and>
     (\<exists>f p. ev_buf e = Read_Frame f \<and> ev_buf w = Write_Frame p \<and>
        (\<forall>i<nat (ev_length e). read_buffer b' ! nat ((f + int i) mod READ_BUFFER_FRAME_NB c) =
           write_buffer b ! nat ((p + (ev_sector_nb e - ev_sector_nb w) + int i) mod WRITE_BUFFER_FRAME_NB c)))"

text \<open>The write from whose frames a read is served: the last one it depends on, if that covers it.\<close>

definition covering :: "int \<Rightarrow> int \<Rightarrow> io_buffer \<Rightarrow> event_queue_entry option" where
  "covering sec len b =
     (case CHECK_IO_DEPENDENCY_FOR_READ sec len b of
        None \<Rightarrow> None
      | Some i \<Rightarrow>
          let w = q_entries (e_queue b) ! i
          in if ev_sector_nb w \<le> sec \<and> sec + len \<le> ev_sector_nb w + ev_length w then Some w else None)"

definition read_added ::
  "ssd_config \<Rightarrow> int \<Rightarrow> int \<Rightarrow> io_buffer \<Rightarrow> event_queue_entry list \<Rightarrow> event_queue_entry
     \<Rightarrow> event_queue_entry list \<Rightarrow> io_buffer \<Rightarrow> bool" where
  "read_added c sec len b rs' e ws' b' \<longleftrightarrow> firm_inv c (rs' @ [e]) ws' b' \<and>
     ev_sector_nb e = sec \<and> ev_length e = len \<and> (\<forall>x\<in>set ws'. \<not> overlaps sec len x) \<and>
     (case covering sec len b of None \<Rightarrow> ev_buf e = Null | Some w \<Rightarrow> copied c b w e b')"

lemma read_added_waiting:
  assumes b: "firm_inv c rs ws b" and r: "in_range c sec len" "len \<le> empty_read_buffer_frame b"
    and o: "\<forall>x\<in>set ws. \<not> overlaps sec len x" and n: "covering sec len b0 = None"
  shows "read_added c sec len b0 rs (ALLOC_NEW_EVENT READ sec len Null) ws
    ((insert_read (ALLOC_NEW_EVENT READ sec len Null) b)\<lparr>empty_read_buffer_frame := empty_read_buffer_frame b - len\<rparr>)"
proof -
  let ?e = "ALLOC_NEW_EVENT READ sec len Null"
  let ?b = "(insert_read ?e b)\<lparr>empty_read_buffer_frame := empty_read_buffer_frame b - len\<rparr>"
  have q: "queued rs ws b" "wb_inv c ws b" "rb_inv c rs b" "\<forall>e\<in>set ws. write_event c e" using b by (simp_all add: firm_inv_def)
  obtain qq rr where f: "insert_read ?e b = b\<lparr>e_queue := qq, last_read_entry := rr\<rparr>" using insert_read_fields by blast
  have e: "read_event c ?e" "ev_io_type ?e = READ" "ev_length ?e = len" "ev_sector_nb ?e = sec" "ev_buf ?e = Null"
    using r(1) by (simp_all add: read_event_def ALLOC_NEW_EVENT_def)
  have "queued (rs @ [?e]) ws ?b" using insert_read_queued [OF q(1) e(2)] by simp
  moreover have "wb_inv c ws ?b" using q(2) by (simp add: f)
  moreover have "rb_inv c (rs @ [?e]) ?b"
  proof -
    have "read_limit_ptr b = ftl_read_ptr b" using q(3) by (simp add: rb_inv_def Let_def)
    then have "b\<lparr>read_buffer := read_buffer b, ftl_read_ptr := ftl_read_ptr b, read_limit_ptr := ftl_read_ptr b,
        empty_read_buffer_frame := empty_read_buffer_frame b - len\<rparr> =
      b\<lparr>empty_read_buffer_frame := empty_read_buffer_frame b - len\<rparr>" by (cases b) simp
    then have "rb_inv c (rs @ [?e]) (b\<lparr>empty_read_buffer_frame := empty_read_buffer_frame b - len\<rparr>)"
      using rb_inv_add [OF q(3) e(1), of "ftl_read_ptr b" "read_buffer b"] r(2) e by simp
    moreover have "?b = b\<lparr>empty_read_buffer_frame := empty_read_buffer_frame b - len, e_queue := qq, last_read_entry := rr\<rparr>"
      by (simp add: f)
    ultimately show ?thesis by simp
  qed
  ultimately show ?thesis using q(4) e o n by (simp add: read_added_def firm_inv_def)
qed

lemma read_added_copied:
  assumes b: "firm_inv c [] ws b" and r: "in_range c sec len" "len \<le> empty_read_buffer_frame b"
    and o: "\<forall>x\<in>set ws. \<not> overlaps sec len x" and w: "covering sec len b0 = Some w" "ev_valid w = VALID" "released c w b"
      "ev_sector_nb w \<le> sec" "sec + len \<le> ev_sector_nb w + ev_length w" "0 \<le> ev_sector_nb w"
    and wf: "wf_config c" and b0: "write_buffer b = write_buffer b0"
  defines "e \<equiv> (ALLOC_NEW_EVENT READ sec len Null)\<lparr>ev_buf := Read_Frame (ftl_read_ptr b)\<rparr>"
  shows "returns (COPY_DATA_TO_READ_BUFFER c e w b) (\<lambda>b'. read_added c sec len b0 [] e ws
    ((insert_read e b')\<lparr>empty_read_buffer_frame := empty_read_buffer_frame b' - len\<rparr>))"
proof -
  let ?R = "READ_BUFFER_FRAME_NB c" and ?N = "WRITE_BUFFER_FRAME_NB c"
  have q: "queued [] ws b" "wb_inv c ws b" "rb_inv c [] b" "\<forall>e\<in>set ws. write_event c e" using b by (simp_all add: firm_inv_def)
  have e: "read_event c e" "ev_io_type e = READ" "ev_length e = len" "ev_sector_nb e = sec" "ev_buf e = Read_Frame (ftl_read_ptr b)"
    using r(1) by (simp_all add: read_event_def ALLOC_NEW_EVENT_def e_def)
  have l: "0 < len" "0 \<le> sec" "sec + len \<le> SECTOR_NB c" "SECTOR_NB c < 2147483648"
    using r(1) wf_sectors(2) [OF wf] by (simp_all add: in_range_def)
  obtain P xs where ring: "ring b = P @ xs" "\<forall>x\<in>set xs. not_I x" "ev_buf w = Write_Frame (frame_at c b (length P))"
    "ev_length w \<le> int (length xs)" using w(3) unfolding released_def by blast
  note rb = rb_invD [OF q(3)]
  have off: "ev_sector_nb e - ev_sector_nb w = sec - ev_sector_nb w" using e by simp
  have "returns (COPY_DATA_TO_READ_BUFFER c e w b) (\<lambda>b'.
    \<exists>r. b' = b\<lparr>read_buffer := r, ftl_read_ptr := (ftl_read_ptr b + ev_length e) mod ?R,
        read_limit_ptr := (ftl_read_ptr b + ev_length e) mod ?R\<rparr> \<and> length r = length (read_buffer b) \<and>
      (\<forall>i<nat (ev_length e). r ! nat ((ftl_read_ptr b + int i) mod ?R) =
         write_buffer b ! nat (frame_at c b (length P + nat (ev_sector_nb e - ev_sector_nb w) + i))))"
    using ring rb r(2) l w(4-6) e q(2)
    by (intro COPY_DATA_TO_READ_BUFFER_frames [where xs = xs and Q = "[]"]) (auto simp: wb_inv_def)
  then show ?thesis
  proof (rule returns_mono, elim exE conjE)
    fix b' r
    assume b': "b' = b\<lparr>read_buffer := r, ftl_read_ptr := (ftl_read_ptr b + ev_length e) mod ?R,
        read_limit_ptr := (ftl_read_ptr b + ev_length e) mod ?R\<rparr>" and lr: "length r = length (read_buffer b)"
      and d: "\<forall>i<nat (ev_length e). r ! nat ((ftl_read_ptr b + int i) mod ?R) =
         write_buffer b ! nat (frame_at c b (length P + nat (ev_sector_nb e - ev_sector_nb w) + i))"
    let ?b = "(insert_read e b')\<lparr>empty_read_buffer_frame := empty_read_buffer_frame b' - len\<rparr>"
    obtain qq rr where f: "insert_read e b' = b'\<lparr>e_queue := qq, last_read_entry := rr\<rparr>" using insert_read_fields by blast
    have "queued [] ws b'" using q(1) b' by simp
    then have qb: "queued ([] @ [e]) ws ?b" using insert_read_queued [OF _ e(2)] by fastforce
    have fb: "?b = b\<lparr>read_buffer := r, ftl_read_ptr := (ftl_read_ptr b + ev_length e) mod ?R,
        read_limit_ptr := (ftl_read_ptr b + ev_length e) mod ?R, empty_read_buffer_frame := empty_read_buffer_frame b - ev_length e,
        e_queue := qq, last_read_entry := rr\<rparr>" unfolding f by (simp add: b' e)
    have "wb_inv c ws ?b" unfolding fb using q(2) by simp
    moreover have "rb_inv c ([] @ [e]) ?b" unfolding fb using rb_inv_add [OF q(3) e(1)] r(2) e lr by simp
    moreover have "copied c b0 w e ?b"
    proof -
      have "sectors e \<subseteq> sectors w" using w(4,5) e by (simp add: sectors_def)
      moreover have "frame_at c b (length P + nat (sec - ev_sector_nb w) + i) =
          (frame_at c b (length P) + (sec - ev_sector_nb w) + int i) mod ?N" for i
        using w(4) by (simp add: frame_at_def mod_add_left_eq add.assoc)
      ultimately show ?thesis
        using w(2) d e ring(3) b0 unfolding copied_def fb by simp
    qed
    ultimately show "read_added c sec len b0 [] e ws ?b"
      using qb q(4) e o w(1) by (auto simp: read_added_def firm_inv_def)
  qed
qed

lemma ENQUEUE_READ_added:
  assumes env: "firm_env gt c n U" and b: "firm_inv c rs ws b" and s: "ready_for c U (length rs + length ws + k) s"
    and U: "pending_pages c ws \<subseteq> U" and r: "in_range c sec len" "len \<le> empty_read_buffer_frame b"
  shows "returns (ENQUEUE_READ gt c sec len (b, s)) (\<lambda>(b', s'). \<exists>rs' e ws'. read_added c sec len b rs' e ws' b' \<and>
    ready_for c U (length rs' + length ws' + k) s' \<and> pending_pages c ws' \<subseteq> pending_pages c ws \<and>
    mapped c (tables s') \<union> pending_pages c ws' = mapped c (tables s) \<union> pending_pages c ws)"
proof -
  let ?e = "ALLOC_NEW_EVENT READ sec len Null"
  have q: "queued rs ws b" "\<forall>e\<in>set ws. write_event c e" and rb: "rb_inv c rs b" using b by (simp_all add: firm_inv_def)
  have wf: "wf_config c" using env by (simp add: firm_env_def)
  have l: "0 \<le> sec" "0 < len" "sec + len \<le> SECTOR_NB c" and S: "SECTOR_NB c < 2147483648"
    using r(1) wf_sectors(2) [OF wf] by (simp_all add: in_range_def)
  have il: "i32 len = len" using l S by (simp add: i32_id)
  have nofl: ?thesis if "covering sec len b = None" and o: "\<forall>x\<in>set ws. \<not> overlaps sec len x"
    and eq: "ENQUEUE_READ gt c sec len (b, s) = Some ((insert_read ?e b)\<lparr>empty_read_buffer_frame := empty_read_buffer_frame b - len\<rparr>, s)"
    unfolding eq returns_Some prod.case using read_added_waiting [OF b r o that(1)] s by blast
  have em: "empty_read_buffer_frame (insert_read x y) = empty_read_buffer_frame y" for x y
    by (simp add: insert_read_def Let_def)
  show ?thesis
  proof (cases "rs @ ws = []")
    case True
    then have "ENQUEUE_READ gt c sec len (b, s) = Some ((insert_read ?e b)\<lparr>empty_read_buffer_frame := empty_read_buffer_frame b - len\<rparr>, s)"
      using q(1) il by (simp add: ENQUEUE_READ_def queued_def insert_read_def after_reads_def)
    moreover have "covering sec len b = None"
      using True q(1) by (simp add: covering_def CHECK_IO_DEPENDENCY_FOR_READ_def queued_def)
    ultimately show ?thesis using True by (intro nofl) simp_all
  next
    case False
    have "q_entry_nb (e_queue b) = int (length (rs @ ws))" using q(1) by (simp add: queued_def)
    then have nz: "q_entry_nb (e_queue b) \<noteq> 0" using False by (simp only: of_nat_eq_0_iff length_0_conv not_False_eq_True)
    from q S l show ?thesis
    proof (cases rule: CHECK_IO_DEPENDENCY_FOR_READ_cases)
      case none
      then show ?thesis using nz il by (intro nofl) (simp_all add: ENQUEUE_READ_def em covering_def)
    next
      case (some ws1 w ws2)
      have we: "write_event c w" using q(2) some(1) by simp
      note wb = write_event_bounds [OF we S]
      have s': "ready_for c U (length rs + length ws1 + 1 + (length ws2 + k)) s" using s some(1) by (simp add: add.assoc)
      have b': "firm_inv c rs (ws1 @ w # ws2) b" and U': "pending_pages c (ws1 @ w # ws2) \<subseteq> U" using b U some(1) by simp_all
      obtain b1 s1 where f: "FLUSH_EVENT_QUEUE_UNTIL gt c (Some (length rs + length ws1)) (b, s) = Some (b1, s1)"
        "firm_inv c [] ws2 b1" "ready_for c U (length ws2 + k) s1"
        "mapped c (tables s1) \<union> pending_pages c ws2 = mapped c (tables s) \<union> pending_pages c (ws1 @ w # ws2)"
        "released c w b1" "keeps b b1"
        using FLUSH_writes [OF env b' s' U'] some(3) unfolding returns_def by auto
      have len1: "len \<le> empty_read_buffer_frame b1" and wb1: "write_buffer b1 = write_buffer b" using f(6) r(2) by (simp_all add: keeps_def)
      have nw: "q_entries (e_queue b) ! (length rs + length ws1) = w" using q(1) some(1) by (simp add: queued_def nth_append)
      have cov: "covering sec len b = (if ev_sector_nb w \<le> sec \<and> sec + len \<le> ev_sector_nb w + ev_length w then Some w else None)"
        using some(2) nw by (simp add: covering_def)
      have cover: "u32 (sec + len) \<le> u32 (ev_sector_nb w + ev_length w) \<longleftrightarrow> sec + len \<le> ev_sector_nb w + ev_length w"
        using wb l S by (simp add: u32_id)
      have post: "ready_for c U (length [] + length ws2 + k) s1" "pending_pages c ws2 \<subseteq> pending_pages c ws"
        "mapped c (tables s1) \<union> pending_pages c ws2 = mapped c (tables s) \<union> pending_pages c ws"
        using f(3,4) some(1) by auto
      show ?thesis
      proof (cases "ev_sector_nb w \<le> sec \<and> sec + len \<le> ev_sector_nb w + ev_length w")
        case False
        then have eq: "ENQUEUE_READ gt c sec len (b, s) = Some ((insert_read ?e b1)\<lparr>empty_read_buffer_frame := empty_read_buffer_frame b1 - len\<rparr>, s1)"
          using nz il some(2) nw f(1) cover by (auto simp: ENQUEUE_READ_def em)
        have "covering sec len b = None" using cov False by simp
        then show ?thesis unfolding eq returns_Some prod.case
          using read_added_waiting [OF f(2) r(1) len1 some(4)] post by blast
      next
        case True
        let ?c = "?e\<lparr>ev_buf := Read_Frame (ftl_read_ptr b1)\<rparr>"
        have "covering sec len b = Some w" using cov True by simp
        then obtain b2 where b2: "COPY_DATA_TO_READ_BUFFER c ?c w b1 = Some b2"
          "read_added c sec len b [] ?c ws2 ((insert_read ?c b2)\<lparr>empty_read_buffer_frame := empty_read_buffer_frame b2 - len\<rparr>)"
          using read_added_copied [OF f(2) r(1) len1 some(4) _ some(3) f(5) _ _ wb(1) wf wb1] True unfolding returns_def by blast
        have eq: "ENQUEUE_READ gt c sec len (b, s) = Some ((insert_read ?c b2)\<lparr>empty_read_buffer_frame := empty_read_buffer_frame b2 - len\<rparr>, s1)"
          using nz il some(2) nw f(1) cover True b2(1) by (simp add: ENQUEUE_READ_def em)
        show ?thesis unfolding eq returns_Some prod.case using b2(2) post by blast
      qed
    qed
  qed
qed

section \<open>What the buffered device promises its host\<close>

text \<open>
  To the host the buffered device is again the set of logical pages that were ever written,
  whether they have reached the chips or still wait in the write buffer.
\<close>

definition pending_writes :: "io_buffer \<Rightarrow> event_queue_entry list" where
  "pending_writes b = filter (\<lambda>e. ev_io_type e = WRITE) (q_entries (e_queue b))"

definition written_pages :: "ssd_config \<Rightarrow> firm \<Rightarrow> int set" where
  "written_pages c = (\<lambda>(b, s). mapped c (tables s) \<union> pending_pages c (pending_writes b))"

fun spec_buffered :: "ssd_config \<Rightarrow> host_op \<Rightarrow> int set \<Rightarrow> unit \<times> int set" where
  "spec_buffered c (Host_Read sector_nb len) A = ((), A)"
| "spec_buffered c (Host_Write sector_nb len) A = ((), A \<union> request_pages c sector_nb len)"
| "spec_buffered c Host_Restart A = ((), A)"

fun run_buffered ::
  "clock \<Rightarrow> ssd_config \<Rightarrow> string option \<Rightarrow> disk \<Rightarrow> firm \<Rightarrow> host_op \<Rightarrow> firm \<Rightarrow> (unit \<times> firm) option" where
  "run_buffered gt c conf d0 f0 (Host_Read sector_nb len) f = map_option (Pair ()) (SSD_READ_buffered gt c len sector_nb f)"
| "run_buffered gt c conf d0 f0 (Host_Write sector_nb len) f = map_option (Pair ()) (SSD_WRITE_buffered gt c len sector_nb f)"
| "run_buffered gt c conf d0 f0 Host_Restart f = do {
     d \<leftarrow> FTL_TERM_buffered gt c f d0;
     (c', f') \<leftarrow> FTL_INIT_buffered conf d (zero_config, f0);
     Some ((), f')
   }"

text \<open>Requests the host may issue: ranges of existing sectors that fit into the buffer.\<close>

fun buffered_allowed :: "ssd_config \<Rightarrow> int set \<Rightarrow> host_op \<Rightarrow> bool" where
  "buffered_allowed c U (Host_Read sector_nb len) \<longleftrightarrow> in_range c sector_nb len \<and> len \<le> READ_BUFFER_FRAME_NB c"
| "buffered_allowed c U (Host_Write sector_nb len) \<longleftrightarrow> in_range c sector_nb len \<and>
     request_pages c sector_nb len \<subseteq> U \<and> len \<le> WRITE_BUFFER_FRAME_NB c"
| "buffered_allowed c U Host_Restart \<longleftrightarrow> True"

definition firm_surroundings ::
  "clock \<Rightarrow> ssd_config \<Rightarrow> string option \<Rightarrow> firm \<Rightarrow> int \<Rightarrow> int set \<Rightarrow> bool" where
  "firm_surroundings gt c conf f0 n U \<longleftrightarrow> firm_env gt c n U \<and> 0 < WRITE_BUFFER_FRAME_NB c \<and>
     WRITE_BUFFER_FRAME_NB c < 2147483648 \<and> 0 < READ_BUFFER_FRAME_NB c \<and> READ_BUFFER_FRAME_NB c < 2147483648 \<and>
     INIT_SSD_CONFIG True conf zero_config = Some c \<and> g_init (snd f0) = 0"

definition firm_ready :: "ssd_config \<Rightarrow> int set \<Rightarrow> nat \<Rightarrow> firm \<Rightarrow> bool" where
  "firm_ready c U k = (\<lambda>(b, s). \<exists>rs ws. firm_inv c rs ws b \<and> ready_for c U (length rs + length ws + k) s \<and>
     pending_pages c ws \<subseteq> U)"

lemma firm_inv_writes: "firm_inv c rs ws b \<Longrightarrow> pending_writes b = ws"
proof -
  assume "firm_inv c rs ws b"
  then have "q_entries (e_queue b) = rs @ ws" "\<forall>e\<in>set rs. ev_io_type e = READ" "\<forall>e\<in>set ws. ev_io_type e = WRITE"
    by (simp_all add: firm_inv_def queued_def write_event_def)
  moreover from this have "filter (\<lambda>e. ev_io_type e = WRITE) rs = []" "filter (\<lambda>e. ev_io_type e = WRITE) ws = ws"
    by (simp_all add: filter_empty_conv filter_id_conv)
  ultimately show "pending_writes b = ws" by (simp add: pending_writes_def)
qed

lemma firm_inv_completed:
  assumes "firm_inv c rs ws b"
  shows "returns (DEQUEUE_COMPLETED_READ c b) (\<lambda>b'. firm_inv c rs ws b' \<and> q_entries (c_e_queue b') = [] \<and>
    empty_write_buffer_frame b' = empty_write_buffer_frame b)"
proof -
  have "rb_inv c rs b" using assms by (simp add: firm_inv_def)
  from DEQUEUE_COMPLETED_READ_inv [OF this] show ?thesis
    by (rule returns_mono) (use assms in \<open>auto simp: firm_inv_def\<close>)
qed

lemma pending_pages_add:
  "pending ws' = pending ws \<union> {sec..<sec + len} \<Longrightarrow> pending_pages c ws' = pending_pages c ws \<union> request_pages c sec len"
  by (simp add: pending_pages_def request_pages_def image_Un)

lemma SSD_WRITE_buffered_ready:
  assumes env: "firm_env gt c n U" and f: "firm_ready c U (Suc k) (b, s)" and r: "in_range c sec len"
    "request_pages c sec len \<subseteq> U" "len \<le> WRITE_BUFFER_FRAME_NB c"
  shows "returns (SSD_WRITE_buffered gt c len sec (b, s)) (\<lambda>f'. firm_ready c U k f' \<and>
    written_pages c f' = written_pages c (b, s) \<union> request_pages c sec len)"
proof -
  obtain rs ws where b: "firm_inv c rs ws b" and s: "ready_for c U (length rs + length ws + Suc k) s" and U: "pending_pages c ws \<subseteq> U"
    using f by (auto simp: firm_ready_def)
  have wf: "wf_config c" using env by (simp add: firm_env_def)
  have l: "0 \<le> sec" "0 < len" "sec + len \<le> SECTOR_NB c" and S: "SECTOR_NB c < 2147483648"
    using r(1) wf_sectors(2) [OF wf] by (simp_all add: in_range_def)
  obtain b1 where b1: "DEQUEUE_COMPLETED_READ c b = Some b1" "firm_inv c rs ws b1"
    using firm_inv_completed [OF b] unfolding returns_def by blast
  have e1: "u32 (empty_write_buffer_frame b1) = empty_write_buffer_frame b1"
  proof -
    have "wb_inv c ws b1" "WRITE_BUFFER_FRAME_NB c < 2147483648"
      using b1(2) by (auto simp: firm_inv_def wb_inv_def wb_shape_def)
    then show ?thesis using wb_inv_bounds(1,2) [of c ws b1] by (simp add: u32_id)
  qed
  have "\<exists>rs2 ws2 b2 s2. (if EVENT_QUEUE_IS_FULL WRITE len b1 = SUCCESS then SECURE_WRITE_BUFFER gt c (b1, s) else Some (b1, s)) = Some (b2, s2) \<and>
    firm_inv c rs2 ws2 b2 \<and> ready_for c U (length rs2 + length ws2 + Suc k) s2 \<and> pending_pages c ws2 \<subseteq> U \<and>
    mapped c (tables s2) \<union> pending_pages c ws2 = mapped c (tables s) \<union> pending_pages c ws \<and> len \<le> empty_write_buffer_frame b2"
  proof (cases "empty_write_buffer_frame b1 < len")
    case True
    then have full: "EVENT_QUEUE_IS_FULL WRITE len b1 = SUCCESS" by (simp add: EVENT_QUEUE_IS_FULL_def e1)
    obtain b2 s2 where f2: "SECURE_WRITE_BUFFER gt c (b1, s) = Some (b2, s2)" "firm_inv c [] [] b2" "ready_for c U (Suc k) s2"
      "mapped c (tables s2) = mapped c (tables s) \<union> pending_pages c ws"
      using FLUSH_all [OF env b1(2) s U] unfolding returns_def SECURE_WRITE_BUFFER_def by auto
    have "wb_inv c [] b2" using f2(2) by (simp add: firm_inv_def)
    then have "len \<le> empty_write_buffer_frame b2" using wb_inv_bounds(3) r(3) by fastforce
    then show ?thesis using full f2 by (intro exI [of _ b2] exI [of _ s2] exI [of _ "[]"]) simp
  next
    case False
    then have "EVENT_QUEUE_IS_FULL WRITE len b1 = FAIL" by (simp add: EVENT_QUEUE_IS_FULL_def e1)
    then show ?thesis using b1(2) s U False by force
  qed
  then obtain rs2 ws2 b2 s2 where f2: "(if EVENT_QUEUE_IS_FULL WRITE len b1 = SUCCESS then SECURE_WRITE_BUFFER gt c (b1, s) else Some (b1, s)) = Some (b2, s2)"
    "firm_inv c rs2 ws2 b2" "ready_for c U (length rs2 + length ws2 + Suc k) s2" "pending_pages c ws2 \<subseteq> U"
    "mapped c (tables s2) \<union> pending_pages c ws2 = mapped c (tables s) \<union> pending_pages c ws" "len \<le> empty_write_buffer_frame b2"
    by blast
  have q2: "wb_inv c ws2 b2" "queued rs2 ws2 b2" "\<forall>e\<in>set ws2. write_event c e" "rb_inv c rs2 b2"
    using f2(2) by (simp_all add: firm_inv_def)
  obtain b3 ws3 where b3: "ENQUEUE_WRITE c sec len b2 = Some b3" "wb_inv c ws3 b3" "queued rs2 ws3 b3"
    "\<forall>e\<in>set ws3. write_event c e" "length ws3 \<le> Suc (length ws2)" "pending ws3 = pending ws2 \<union> {sec..<sec + len}"
    "\<exists>a q p m. b3 = b2\<lparr>wb_valid_array := a, e_queue := q, sata_write_ptr := p, empty_write_buffer_frame := m\<rparr>"
    using ENQUEUE_WRITE_inv [OF q2(1-3) S l f2(6)] unfolding returns_def by blast
  have i3: "firm_inv c rs2 ws3 b3" using b3 q2(4) by (auto simp: firm_inv_def)
  note p3 = pending_pages_add [OF b3(6), of c]
  have "ready_for c U (length rs2 + length ws3 + k) s2" using f2(3) b3(5) by (elim ready_for_mono) simp
  moreover have "pending_pages c ws3 \<subseteq> U" using p3 f2(4) r(2) by simp
  ultimately have "firm_ready c U k (b3, s2)" using i3 unfolding firm_ready_def by auto
  moreover have "SSD_WRITE_buffered gt c len sec (b, s) = Some (b3, s2)"
    using b1(1) f2(1) b3(1) by (simp add: SSD_WRITE_buffered_def ENQUEUE_IO_def)
  moreover have "written_pages c (b3, s2) = written_pages c (b, s) \<union> request_pages c sec len"
    using f2(5) p3 firm_inv_writes [OF i3] firm_inv_writes [OF b] by (auto simp: written_pages_def)
  ultimately show ?thesis by simp
qed

lemma rb_inv_empty:
  "rb_inv c [] b \<Longrightarrow> q_entries (c_e_queue b) = [] \<Longrightarrow> empty_read_buffer_frame b = READ_BUFFER_FRAME_NB c"
  by (simp add: rb_inv_def Let_def)

lemma SECURE_READ_BUFFER_empties:
  assumes env: "firm_env gt c n U" and b: "firm_inv c rs ws b" "q_entries (c_e_queue b) = []"
    and s: "ready_for c U (length rs + length ws + k) s"
  shows "returns (SECURE_READ_BUFFER gt c (b, s)) (\<lambda>(b', s'). firm_inv c [] ws b' \<and>
    ready_for c U (length ws + k) s' \<and> mapped c (tables s') = mapped c (tables s) \<and>
    empty_read_buffer_frame b' = READ_BUFFER_FRAME_NB c)"
proof -
  have q: "queued rs ws b" "rb_inv c rs b" using b(1) by (simp_all add: firm_inv_def)
  have z: "q_entry_nb (c_e_queue b) = 0" using q(2) b(2) by (simp add: rb_inv_def Let_def)
  show ?thesis
  proof (cases "rs = []")
    case True
    then have "SECURE_READ_BUFFER gt c (b, s) = Some (b, s)"
      using q(1) z by (simp add: SECURE_READ_BUFFER_def queued_def)
    then show ?thesis using True b s rb_inv_empty q(2) by simp
  next
    case False
    then have lr: "last_read_entry b = Some (length rs - 1)" using q(1) by (simp add: queued_def)
    have s': "ready_for c U (length rs + (length ws + k)) s" using s by (simp add: add.assoc)
    obtain b1 s1 where f: "FLUSH_EVENT_QUEUE_UNTIL gt c (Some (length rs - 1)) (b, s) = Some (b1, s1)" "firm_inv c [] ws b1"
      "ready_for c U (length ws + k) s1" "mapped c (tables s1) = mapped c (tables s)"
      using FLUSH_reads [OF env b(1) s' False] unfolding returns_def by auto
    obtain b2 where b2: "DEQUEUE_COMPLETED_READ c b1 = Some b2" "firm_inv c [] ws b2" "q_entries (c_e_queue b2) = []"
      using firm_inv_completed [OF f(2)] unfolding returns_def by blast
    have "SECURE_READ_BUFFER gt c (b, s) = Some (b2, s1)" using z lr f(1) b2(1) by (simp add: SECURE_READ_BUFFER_def)
    then show ?thesis using b2 f(3,4) rb_inv_empty by (simp add: firm_inv_def)
  qed
qed

text \<open>
  A buffered read: either its frames were copied from the write buffer, or the FTL will serve
  it, and no write that was issued before it and touches its sectors is still in the queue.
\<close>

definition read_issued :: "ssd_config \<Rightarrow> int \<Rightarrow> int \<Rightarrow> io_buffer \<Rightarrow> bool" where
  "read_issued c sec len b \<longleftrightarrow> (\<exists>rs e. q_entries (e_queue b) = rs @ e # pending_writes b \<and>
     last_read_entry b = Some (length rs) \<and> ev_io_type e = READ \<and> ev_sector_nb e = sec \<and> ev_length e = len \<and>
     (\<forall>x\<in>set (pending_writes b). \<not> overlaps sec len x))"

lemma read_added_issued:
  assumes "read_added c sec len b rs' e ws' b'"
  shows "read_issued c sec len b'"
proof -
  have f: "firm_inv c (rs' @ [e]) ws' b'" using assms by (simp add: read_added_def)
  then have "q_entries (e_queue b') = rs' @ e # ws'" "last_read_entry b' = Some (length rs')" "ev_io_type e = READ"
    by (simp_all add: firm_inv_def queued_def)
  then show ?thesis
    using assms firm_inv_writes [OF f] unfolding read_issued_def read_added_def by auto
qed

lemma SSD_READ_buffered_ready:
  assumes env: "firm_env gt c n U" and f: "firm_ready c U (Suc k) (b, s)" and r: "in_range c sec len"
    "len \<le> READ_BUFFER_FRAME_NB c"
  shows "returns (SSD_READ_buffered gt c len sec (b, s)) (\<lambda>f'. firm_ready c U k f' \<and>
    written_pages c f' = written_pages c (b, s) \<and> read_issued c sec len (fst f'))"
proof -
  obtain rs ws where b: "firm_inv c rs ws b" and s: "ready_for c U (length rs + length ws + Suc k) s" and U: "pending_pages c ws \<subseteq> U"
    using f by (auto simp: firm_ready_def)
  have l: "0 < len" using r(1) by (simp add: in_range_def)
  obtain b1 where b1: "DEQUEUE_COMPLETED_READ c b = Some b1" "firm_inv c rs ws b1" "q_entries (c_e_queue b1) = []"
    using firm_inv_completed [OF b] unfolding returns_def by blast
  have e1: "u32 (empty_read_buffer_frame b1) = empty_read_buffer_frame b1"
  proof -
    have "rb_inv c rs b1" using b1(2) by (simp add: firm_inv_def)
    from rb_invD [OF this] show ?thesis by (simp add: u32_id)
  qed
  have "\<exists>rs2 b2 s2. (if EVENT_QUEUE_IS_FULL READ len b1 = SUCCESS then SECURE_READ_BUFFER gt c (b1, s) else Some (b1, s)) = Some (b2, s2) \<and>
    firm_inv c rs2 ws b2 \<and> ready_for c U (length rs2 + length ws + Suc k) s2 \<and>
    mapped c (tables s2) = mapped c (tables s) \<and> len \<le> empty_read_buffer_frame b2"
  proof (cases "empty_read_buffer_frame b1 < len")
    case True
    then have full: "EVENT_QUEUE_IS_FULL READ len b1 = SUCCESS" by (simp add: EVENT_QUEUE_IS_FULL_def e1)
    obtain b2 s2 where f2: "SECURE_READ_BUFFER gt c (b1, s) = Some (b2, s2)" "firm_inv c [] ws b2"
      "ready_for c U (length ws + Suc k) s2" "mapped c (tables s2) = mapped c (tables s)"
      "empty_read_buffer_frame b2 = READ_BUFFER_FRAME_NB c"
      using SECURE_READ_BUFFER_empties [OF env b1(2,3) s] unfolding returns_def by auto
    then show ?thesis using full r(2) by (intro exI [of _ b2] exI [of _ s2] exI [of _ "[]"]) simp
  next
    case False
    then have "EVENT_QUEUE_IS_FULL READ len b1 = FAIL" by (simp add: EVENT_QUEUE_IS_FULL_def e1)
    then show ?thesis using b1(2) s False by force
  qed
  then obtain rs2 b2 s2 where f2: "(if EVENT_QUEUE_IS_FULL READ len b1 = SUCCESS then SECURE_READ_BUFFER gt c (b1, s) else Some (b1, s)) = Some (b2, s2)"
    "firm_inv c rs2 ws b2" "ready_for c U (length rs2 + length ws + Suc k) s2"
    "mapped c (tables s2) = mapped c (tables s)" "len \<le> empty_read_buffer_frame b2"
    by blast
  obtain b3 s3 rs3 e ws3 where b3: "ENQUEUE_READ gt c sec len (b2, s2) = Some (b3, s3)" "read_added c sec len b2 rs3 e ws3 b3"
    "ready_for c U (length rs3 + length ws3 + Suc k) s3" "pending_pages c ws3 \<subseteq> pending_pages c ws"
    "mapped c (tables s3) \<union> pending_pages c ws3 = mapped c (tables s2) \<union> pending_pages c ws"
    using ENQUEUE_READ_added [OF env f2(2,3) U r(1) f2(5)] unfolding returns_def by auto
  have i3: "firm_inv c (rs3 @ [e]) ws3 b3" using b3(2) by (simp add: read_added_def)
  have "firm_ready c U k (b3, s3)"
    unfolding firm_ready_def prod.case
    by (intro exI [of _ "rs3 @ [e]"] exI [of _ ws3] conjI i3) (use b3(3,4) U in auto)
  moreover have "SSD_READ_buffered gt c len sec (b, s) = Some (b3, s3)"
    using b1(1) f2(1) b3(1) by (simp add: SSD_READ_buffered_def ENQUEUE_IO_def)
  moreover have "written_pages c (b3, s3) = written_pages c (b, s)"
    using f2(4) b3(5) firm_inv_writes [OF i3] firm_inv_writes [OF b] by (simp add: written_pages_def)
  ultimately show ?thesis using read_added_issued [OF b3(2)] by simp
qed

lemma INIT_IO_BUFFER_inv:
  assumes "0 < WRITE_BUFFER_FRAME_NB c" "WRITE_BUFFER_FRAME_NB c < 2147483648"
    "0 < READ_BUFFER_FRAME_NB c" "READ_BUFFER_FRAME_NB c < 2147483648"
  shows "firm_inv c [] [] (INIT_IO_BUFFER c)"
proof -
  let ?b = "INIT_IO_BUFFER c"
  have "wb_inv c [] ?b"
    using assms by (intro wb_invI [of c ?b "[]" "[]"])
      (simp_all add: INIT_IO_BUFFER_def wb_shape_def INIT_WB_VALID_ARRAY_def ring_def i32_id frame_at_def)
  moreover have "rb_inv c [] ?b"
    using assms by (intro rb_invI [of ?b "[]" c 0]) (simp_all add: INIT_IO_BUFFER_def empty_frames_def i32_id)
  moreover have "queued [] [] ?b" by (simp add: queued_def INIT_IO_BUFFER_def)
  ultimately show ?thesis by (simp add: firm_inv_def)
qed

lemma TERM_IO_BUFFER_writes:
  assumes env: "firm_env gt c n U" and f: "firm_ready c U k (b, s)"
  shows "returns (TERM_IO_BUFFER gt c (b, s)) (\<lambda>s'. ready_for c U k s' \<and> mapped c (tables s') = written_pages c (b, s))"
proof -
  obtain rs ws where b: "firm_inv c rs ws b" and s: "ready_for c U (length rs + length ws + k) s" and U: "pending_pages c ws \<subseteq> U"
    using f by (auto simp: firm_ready_def)
  obtain b1 s1 where "FLUSH_EVENT_QUEUE_UNTIL gt c (tail_position (e_queue b)) (b, s) = Some (b1, s1)" "ready_for c U k s1"
    "mapped c (tables s1) = mapped c (tables s) \<union> pending_pages c ws"
    using FLUSH_all [OF env b s U] unfolding returns_def by auto
  then show ?thesis using firm_inv_writes [OF b] by (simp add: TERM_IO_BUFFER_def written_pages_def)
qed

lemma FTL_INIT_buffered_restart:
  assumes "INIT_SSD_CONFIG True conf c0 = Some c" "wf_config c" "g_init s0 = 0"
    and "ftl_inv c (tables s)" "term_tables c (tables s) d0 = Some d"
  shows "returns (FTL_INIT_buffered conf d (c0, (b0, s0))) (\<lambda>(c', (b', s')). c' = c \<and> b' = INIT_IO_BUFFER c \<and> ftl_inv c (tables s') \<and>
    tables s' = (tables s)\<lparr>empty_block_table_index := 0, gc_count := gc_count (tables s0), fail_cnt := fail_cnt (tables s0)\<rparr> \<and>
    idle c (dev s') \<and> io_request_seq_nb (dev s') = 0)"
  using assms SSD_IO_INIT_idle [of c "dev s0"] saved_tables_load [OF assms(2,4,5), of "tables s0"]
    ftl_inv_restart [OF assms(2,4)]
  by (simp add: FTL_INIT_buffered_def) (simp add: SSD_IO_INIT_def INIT_PERF_CHECKER_def)

lemma firm_ready_start:
  assumes h: "firm_surroundings gt c conf f0 n U" and s: "ready_for c U k s"
  shows "firm_ready c U k (INIT_IO_BUFFER c, s)" "written_pages c (INIT_IO_BUFFER c, s) = mapped c (tables s)"
proof -
  have i: "firm_inv c [] [] (INIT_IO_BUFFER c)"
    using h by (intro INIT_IO_BUFFER_inv) (auto simp: firm_surroundings_def)
  then show "firm_ready c U k (INIT_IO_BUFFER c, s)"
    unfolding firm_ready_def prod.case using s by (intro exI [of _ "[]"]) simp
  show "written_pages c (INIT_IO_BUFFER c, s) = mapped c (tables s)"
    using firm_inv_writes [OF i] by (simp add: written_pages_def)
qed

lemma restart_buffered_ready:
  assumes h: "firm_surroundings gt c conf f0 n U" and f: "firm_ready c U k f"
  shows "returns (run_buffered gt c conf d0 f0 Host_Restart f) (\<lambda>(r, f'). firm_ready c U k f' \<and> written_pages c f' = written_pages c f)"
proof -
  obtain b s where fe: "f = (b, s)" by (cases f)
  obtain b0 s0 where f0: "f0 = (b0, s0)" by (cases f0)
  have env: "firm_env gt c n U" and conf: "INIT_SSD_CONFIG True conf zero_config = Some c" "g_init s0 = 0"
    using h by (simp_all add: firm_surroundings_def f0)
  have wf: "wf_config c" using env by (simp add: firm_env_def)
  obtain s1 where t: "TERM_IO_BUFFER gt c (b, s) = Some s1" "ready_for c U k s1" "mapped c (tables s1) = written_pages c (b, s)"
    using TERM_IO_BUFFER_writes [OF env f [unfolded fe]] unfolding returns_def by blast
  have inv: "ftl_inv c (tables s1)" "provisioned c U (tables s1)" using t(2) by (simp_all add: ready_for_def)
  obtain d where d: "term_tables c (tables s1) d0 = Some d" using term_tables_saves [OF wf inv(1)] by auto
  obtain s2 where i: "FTL_INIT_buffered conf d (zero_config, (b0, s0)) = Some (c, (INIT_IO_BUFFER c, s2))" "ftl_inv c (tables s2)"
    "tables s2 = (tables s1)\<lparr>empty_block_table_index := 0, gc_count := gc_count (tables s0), fail_cnt := fail_cnt (tables s0)\<rparr>"
    "idle c (dev s2)" "io_request_seq_nb (dev s2) = 0"
    using FTL_INIT_buffered_restart [OF conf(1) wf conf(2) inv(1) d, of b0] unfolding returns_def by auto
  have m: "provisioned c U (tables s2)" "mapped c (tables s2) = mapped c (tables s1)"
    using inv(2) i(3) by (simp_all add: provisioned_def mapped_def listed_def free_pages_def)
  have "ready_for c U k s2" using i m(1) t(2) by (simp add: ready_for_def)
  note st = firm_ready_start [OF h this]
  have "run_buffered gt c conf d0 f0 Host_Restart f = Some ((), (INIT_IO_BUFFER c, s2))"
    using t(1) d i(1) by (simp add: FTL_TERM_buffered_def fe f0)
  then show ?thesis using st m(2) t(3) fe by simp
qed

lemma run_buffered_refines:
  assumes h: "firm_surroundings gt c conf f0 n U" and f: "firm_ready c U (Suc k) f" and x: "buffered_allowed c U x"
  shows "returns (run_buffered gt c conf d0 f0 x f) (\<lambda>(r, f'). firm_ready c U k f' \<and>
    (r, written_pages c f') = spec_buffered c x (written_pages c f))"
proof -
  have env: "firm_env gt c n U" using h by (simp add: firm_surroundings_def)
  obtain b s where fe: "f = (b, s)" by (cases f)
  show ?thesis
  proof (cases x)
    case (Host_Read sec len)
    then show ?thesis using SSD_READ_buffered_ready [OF env f [unfolded fe], of sec len] x
      unfolding fe returns_def by auto
  next
    case (Host_Write sec len)
    then show ?thesis using SSD_WRITE_buffered_ready [OF env f [unfolded fe], of sec len] x
      unfolding fe returns_def by auto
  next
    case Host_Restart
    have "firm_ready c U k f" using f ready_for_mono unfolding firm_ready_def by fastforce
    from restart_buffered_ready [OF h this, of d0] show ?thesis
      unfolding Host_Restart by (auto simp: returns_def)
  qed
qed

interpretation buffered: implements "run_buffered gt c conf d0 f0" "spec_buffered c" "written_pages c"
  "\<lambda>k f. firm_surroundings gt c conf f0 n U \<and> firm_ready c U k f" "buffered_allowed c U"
  for gt c conf d0 f0 n U
proof
  fix k f x
  assume h: "firm_surroundings gt c conf f0 n U \<and> firm_ready c U (Suc k) f" and x: "buffered_allowed c U x"
  have "returns (run_buffered gt c conf d0 f0 x f) (\<lambda>(r, f'). firm_ready c U k f' \<and>
      (r, written_pages c f') = spec_buffered c x (written_pages c f))" using run_buffered_refines h x by blast
  then show "returns (run_buffered gt c conf d0 f0 x f) (\<lambda>(r, f'). (firm_surroundings gt c conf f0 n U \<and> firm_ready c U k f') \<and>
      (r, written_pages c f') = spec_buffered c x (written_pages c f))" using h by simp
qed

end
