(* ===== verification/Firm_Accounts.thy ===== *)
theory Firm_Accounts
  imports Firm_Spec
begin

text \<open>
  Consequences of the invariant of the firmware: the counters and marks of the buffers agree
  with the queue, a flush empties the queue, and what happens to a write that is longer than
  the write buffer.
\<close>

section \<open>The accounts of the buffers\<close>

text \<open>
  \<open>accounted c b\<close>: the pointers lie in their buffers, the free frames are those marked
  \<^verbatim>\<open>'0'\<close>, the frames marked \<^verbatim>\<open>'V'\<close> are those of the pending valid writes, reads stand before
  writes, the counters are the lengths of the chains, and the next frame that the host takes
  is the first frame of the first completed read.
\<close>

definition valid_length :: "event_queue_entry \<Rightarrow> int" where
  "valid_length e = (if ev_valid e = VALID then ev_length e else 0)"

definition accounted :: "ssd_config \<Rightarrow> io_buffer \<Rightarrow> bool" where
  "accounted c b \<longleftrightarrow>
     int (length (wb_valid_array b)) = WRITE_BUFFER_FRAME_NB c \<and>
     set (wb_valid_array b) \<subseteq> {CHR ''0'', CHR ''V'', CHR ''I''} \<and>
     int (count_list (wb_valid_array b) (CHR ''0'')) = empty_write_buffer_frame b \<and>
     int (count_list (wb_valid_array b) (CHR ''V'')) = sum_list (map valid_length (pending_writes b)) \<and>
     0 \<le> write_limit_ptr b \<and> write_limit_ptr b < WRITE_BUFFER_FRAME_NB c \<and> ftl_write_ptr b = write_limit_ptr b \<and>
     0 \<le> sata_write_ptr b \<and> sata_write_ptr b < WRITE_BUFFER_FRAME_NB c \<and>
     0 \<le> read_limit_ptr b \<and> read_limit_ptr b < READ_BUFFER_FRAME_NB c \<and> ftl_read_ptr b = read_limit_ptr b \<and>
     0 \<le> sata_read_ptr b \<and> sata_read_ptr b < READ_BUFFER_FRAME_NB c \<and>
     0 \<le> empty_read_buffer_frame b \<and> empty_read_buffer_frame b \<le> READ_BUFFER_FRAME_NB c \<and>
     q_entries (e_queue b) = filter (\<lambda>e. ev_io_type e = READ) (q_entries (e_queue b)) @ pending_writes b \<and>
     q_entry_nb (e_queue b) = int (length (q_entries (e_queue b))) \<and>
     q_entry_nb (c_e_queue b) = int (length (q_entries (c_e_queue b))) \<and>
     (q_entries (c_e_queue b) \<noteq> [] \<longrightarrow> ev_buf (hd (q_entries (c_e_queue b))) = Read_Frame (sata_read_ptr b))"

lemma count_marks_ring: "count_list (ring b) x = count_list (wb_valid_array b) x"
proof -
  let ?k = "nat (write_limit_ptr b) mod length (wb_valid_array b)"
  have "count_list (wb_valid_array b) x = count_list (take ?k (wb_valid_array b) @ drop ?k (wb_valid_array b)) x" by simp
  then show ?thesis unfolding ring_def rotate_drop_take count_list_append by simp
qed

lemma count_list_hits: "int (count_list u (CHR ''V'')) = hits is_V u"
  by (induction u) auto

lemma laid_count: "laid n k ws u \<Longrightarrow> int (count_list u (CHR ''V'')) = sum_list (map valid_length ws)"
  by (induction ws arbitrary: k u) (auto simp: stretch_def valid_length_def count_list_hits)

lemma count_list_absent: "x \<notin> set u \<Longrightarrow> count_list u x = 0"
  by (induction u) auto

lemma firm_inv_marks:
  assumes "wb_inv c ws b"
  shows "int (count_list (wb_valid_array b) (CHR ''0'')) = empty_write_buffer_frame b"
    "int (count_list (wb_valid_array b) (CHR ''V'')) = sum_list (map valid_length ws)"
    "set (wb_valid_array b) \<subseteq> {CHR ''0'', CHR ''V'', CHR ''I''}"
    "0 \<le> sata_write_ptr b" "sata_write_ptr b < WRITE_BUFFER_FRAME_NB c"
proof -
  obtain pre u where h: "wb_shape c b" "ring b = pre @ u @ replicate (nat (empty_write_buffer_frame b)) (CHR ''0'')"
    "set pre \<subseteq> {CHR ''I''}" "laid (WRITE_BUFFER_FRAME_NB c) (write_limit_ptr b + int (length pre)) ws u"
    "sata_write_ptr b = frame_at c b (length (pre @ u))" "0 \<le> empty_write_buffer_frame b"
    using wb_invE [OF assms] by metis
  have u: "set u \<subseteq> {CHR ''V'', CHR ''I''}" by (rule laid_marks [OF h(4)])
  have rep: "count_list (replicate m x) y = (if x = y then m else 0)" for m and x y :: char by (induction m) auto
  have p: "count_list pre (CHR ''0'') = 0" "count_list pre (CHR ''V'') = 0" "count_list u (CHR ''0'') = 0"
    using h(3) u by (auto intro!: count_list_absent)
  show "int (count_list (wb_valid_array b) (CHR ''0'')) = empty_write_buffer_frame b"
    "int (count_list (wb_valid_array b) (CHR ''V'')) = sum_list (map valid_length ws)"
    unfolding count_marks_ring [symmetric] h(2) using p h(6) laid_count [OF h(4)] by (simp_all add: rep)
  have "set (ring b) \<subseteq> {CHR ''0'', CHR ''V'', CHR ''I''}" unfolding h(2) using h(3) u by auto
  then show "set (wb_valid_array b) \<subseteq> {CHR ''0'', CHR ''V'', CHR ''I''}" by (simp add: ring_def)
  show "0 \<le> sata_write_ptr b" "sata_write_ptr b < WRITE_BUFFER_FRAME_NB c"
    using nat_frame_at(2,3) [OF h(1)] h(5) by simp_all
qed

lemma firm_inv_accounted:
  assumes "firm_inv c rs ws b"
  shows "accounted c b"
proof -
  have q: "queued rs ws b" "wb_inv c ws b" "rb_inv c rs b" using assms by (simp_all add: firm_inv_def)
  have sh: "wb_shape c b" "ftl_write_ptr b = write_limit_ptr b" using q(2) by (simp_all add: wb_inv_def)
  note w = firm_inv_marks [OF q(2)] wb_shapeD [OF sh(1)] and r = rb_invD [OF q(3)]
  have es: "q_entries (e_queue b) = rs @ ws" "q_entry_nb (e_queue b) = int (length (rs @ ws))" "\<forall>e\<in>set rs. ev_io_type e = READ"
    "\<forall>e\<in>set ws. ev_io_type e = WRITE"
    using q(1) assms by (simp_all add: queued_def firm_inv_def write_event_def)
  then have fl: "filter (\<lambda>e. ev_io_type e = READ) (rs @ ws) = rs" by (simp add: filter_id_conv filter_empty_conv)
  obtain p where "chained (READ_BUFFER_FRAME_NB c) (sata_read_ptr b) (q_entries (c_e_queue b)) p"
    using q(3) by (auto simp: rb_inv_def Let_def)
  then have c: "q_entries (c_e_queue b) \<noteq> [] \<longrightarrow> ev_buf (hd (q_entries (c_e_queue b))) = Read_Frame (sata_read_ptr b)"
    by (cases "q_entries (c_e_queue b)") auto
  have d: "0 \<le> sata_read_ptr b" "sata_read_ptr b < READ_BUFFER_FRAME_NB c"
    "q_entry_nb (c_e_queue b) = int (length (q_entries (c_e_queue b)))" using q(3) by (simp_all add: rb_inv_def Let_def)
  show ?thesis
    unfolding accounted_def firm_inv_writes [OF assms] es(1) fl using w r es(2) c d sh(2) by simp
qed

lemma firm_ready_accounted: "firm_ready c U k f \<Longrightarrow> accounted c (fst f)"
  by (auto simp: firm_ready_def intro: firm_inv_accounted split: prod.splits)

section \<open>Flushing\<close>

lemma SECURE_WRITE_BUFFER_empties:
  assumes env: "firm_env gt c n U" and f: "firm_ready c U k f"
  shows "returns (SECURE_WRITE_BUFFER gt c f) (\<lambda>f'. firm_ready c U k f' \<and> q_entries (e_queue (fst f')) = [] \<and>
    empty_write_buffer_frame (fst f') = WRITE_BUFFER_FRAME_NB c \<and> mapped c (tables (snd f')) = written_pages c f)"
proof -
  obtain b s where fe: "f = (b, s)" by (cases f)
  obtain rs ws where b: "firm_inv c rs ws b" and s: "ready_for c U (length rs + length ws + k) s" and U: "pending_pages c ws \<subseteq> U"
    using f fe by (auto simp: firm_ready_def)
  obtain b1 s1 where g: "FLUSH_EVENT_QUEUE_UNTIL gt c (tail_position (e_queue b)) (b, s) = Some (b1, s1)" "firm_inv c [] [] b1"
    "ready_for c U k s1" "mapped c (tables s1) = mapped c (tables s) \<union> pending_pages c ws"
    using FLUSH_all [OF env b s U] unfolding returns_def by auto
  have q: "queued [] [] b1" "wb_inv c [] b1" using g(2) by (simp_all add: firm_inv_def)
  have "firm_ready c U k (b1, s1)" unfolding firm_ready_def prod.case using g by (intro exI [of _ "[]"]) simp
  then show ?thesis
    using g q wb_inv_bounds(3) [OF q(2)] firm_inv_writes [OF b]
    by (simp add: SECURE_WRITE_BUFFER_def fe written_pages_def queued_def)
qed

section \<open>A write that is longer than the buffer\<close>

lemma INCREASE_WB_SATA_POINTER_steps:
  assumes "wb_shape c b" "0 \<le> sata_write_ptr b" "sata_write_ptr b < WRITE_BUFFER_FRAME_NB c"
  shows "returns (ofold (\<lambda>i b. do {
        b \<leftarrow> UPDATE_WB_VALID_ARRAY_ENTRY c (sata_write_ptr b) (CHR ''V'')
               (b\<lparr>empty_write_buffer_frame := empty_write_buffer_frame b - 1\<rparr>);
        Some (b\<lparr>sata_write_ptr := next_frame (WRITE_BUFFER_FRAME_NB c) (sata_write_ptr b)\<rparr>)
      }) (xs :: int list) b) (\<lambda>b'. \<exists>a p. b' = b\<lparr>wb_valid_array := a, sata_write_ptr := p,
        empty_write_buffer_frame := empty_write_buffer_frame b - int (length xs)\<rparr>)"
    (is "returns (ofold ?f _ _) _")
  using assms
proof (induction xs arbitrary: b)
  case Nil
  have "b = b\<lparr>wb_valid_array := wb_valid_array b, sata_write_ptr := sata_write_ptr b\<rparr>" by (cases b) simp
  then have "\<exists>a p. b = b\<lparr>wb_valid_array := a, sata_write_ptr := p\<rparr>" by blast
  then show ?case by simp
next
  case (Cons i xs)
  let ?n = "WRITE_BUFFER_FRAME_NB c" and ?p = "sata_write_ptr b"
  let ?b = "b\<lparr>wb_valid_array := (wb_valid_array b)[nat ?p := CHR ''V''], sata_write_ptr := next_frame ?n ?p,
      empty_write_buffer_frame := empty_write_buffer_frame b - 1\<rparr>"
  note w = wb_shapeD [OF Cons.prems(1)]
  have sh: "wb_shape c ?b" using Cons.prems(1) by (simp add: wb_shape_def)
  have p: "0 \<le> next_frame ?n ?p" "next_frame ?n ?p < ?n" using Cons.prems(2,3) w(1) by (simp_all add: next_frame_mod)
  have u: "u32 ?p = ?p" using Cons.prems(2,3) w(2) by (simp add: u32_id)
  have "UPDATE_WB_VALID_ARRAY_ENTRY c ?p (CHR ''V'') (b\<lparr>empty_write_buffer_frame := empty_write_buffer_frame b - 1\<rparr>) =
      Some (b\<lparr>wb_valid_array := (wb_valid_array b)[nat ?p := CHR ''V''], empty_write_buffer_frame := empty_write_buffer_frame b - 1\<rparr>)"
    using Cons.prems(2,3) w(5) by (simp add: UPDATE_WB_VALID_ARRAY_ENTRY_def u aset_def nat_less_iff)
  moreover have "b\<lparr>wb_valid_array := (wb_valid_array b)[nat ?p := CHR ''V''], empty_write_buffer_frame := empty_write_buffer_frame b - 1,
      sata_write_ptr := next_frame ?n ?p\<rparr> = ?b" by (cases b) simp
  moreover have "sata_write_ptr (b\<lparr>wb_valid_array := a, empty_write_buffer_frame := m\<rparr>) = ?p" for a m by simp
  ultimately have st: "ofold ?f (i # xs) b = ofold ?f xs ?b" by (simp only: ofold.simps bind.bind_lunit)
  have d: "empty_write_buffer_frame b - int (length (i # xs)) = empty_write_buffer_frame ?b - int (length xs)" by simp
  show ?case unfolding st d by (rule returns_mono [OF Cons.IH [OF sh]]) (use p in \<open>auto intro!: exI\<close>)
qed

lemma long_write:
  assumes b: "firm_inv c [] [] b" and l: "WRITE_BUFFER_FRAME_NB c < len" "len < 2147483648"
  shows "returns (SSD_WRITE_buffered gt c len sector_nb (b, s)) (\<lambda>(b', s'). s' = s \<and>
    empty_write_buffer_frame b' = WRITE_BUFFER_FRAME_NB c - len)"
proof -
  let ?n = "WRITE_BUFFER_FRAME_NB c"
  obtain b1 where b1: "DEQUEUE_COMPLETED_READ c b = Some b1" "firm_inv c [] [] b1"
    using firm_inv_completed [OF b] unfolding returns_def by blast
  have q: "queued [] [] b1" "wb_inv c [] b1" using b1(2) by (simp_all add: firm_inv_def)
  have e: "e_queue b1 = \<lparr>q_entry_nb = 0, q_entries = []\<rparr>" using q(1) by (simp add: queued_def)
  have em: "empty_write_buffer_frame b1 = ?n" using wb_inv_bounds(3) [OF q(2)] by simp
  have sh: "wb_shape c b1" using q(2) by (simp add: wb_inv_def)
  have il: "i32 len = len" using l wb_shapeD(1) [OF sh] by (simp add: i32_id)
  have fl: "(if EVENT_QUEUE_IS_FULL WRITE len b1 = SUCCESS then SECURE_WRITE_BUFFER gt c (b1, s) else Some (b1, s)) = Some (b1, s)"
    by (simp add: SECURE_WRITE_BUFFER_def tail_position_def FLUSH_EVENT_QUEUE_UNTIL_def e)
  obtain b2 a p where b2: "WRITE_DATA_TO_BUFFER c len b1 = Some b2"
    "b2 = b1\<lparr>wb_valid_array := a, sata_write_ptr := p, empty_write_buffer_frame := ?n - len\<rparr>"
    using INCREASE_WB_SATA_POINTER_steps [OF sh firm_inv_marks(4,5) [OF q(2)], of "[0..len - 1]"] l wb_shapeD(1) [OF sh]
    unfolding returns_def by (auto simp: WRITE_DATA_TO_BUFFER_def INCREASE_WB_SATA_POINTER_def il em)
  have e2: "e_queue b2 = \<lparr>q_entry_nb = 0, q_entries = []\<rparr>" using b2(2) e by simp
  have "ENQUEUE_WRITE c sector_nb len b1 =
      Some (b2\<lparr>e_queue := \<lparr>q_entry_nb = 1, q_entries = [ALLOC_NEW_EVENT WRITE sector_nb len (Write_Frame (sata_write_ptr b1))]\<rparr>\<rparr>)"
    using b2(1) by (simp add: ENQUEUE_WRITE_def attach_write_def e2 queue_tail_def CHECK_SEQUENTIALITY_def
        CHECK_IO_DEPENDENCY_FOR_WRITE_def append_event_def)
  then show ?thesis using b1(1) fl b2(2) by (simp add: SSD_WRITE_buffered_def ENQUEUE_IO_def)
qed

lemma negative_not_full:
  assumes "empty_write_buffer_frame b < 0" "-2147483648 \<le> empty_write_buffer_frame b" "len \<le> 2147483648"
  shows "EVENT_QUEUE_IS_FULL WRITE len b = FAIL"
proof -
  have "u32 (empty_write_buffer_frame b) = empty_write_buffer_frame b + 4294967296"
    using assms unfolding u32_def by (subst mod_pos_pos_trivial [symmetric, of _ 4294967296]) simp_all
  then show ?thesis using assms by (simp add: EVENT_QUEUE_IS_FULL_def)
qed

end
