(* ===== verification/Small_Buffered.thy ===== *)
theory Small_Buffered
  imports Small_Device Firm_Accounts
begin

text \<open>
  A concrete device with the firmware buffer, on which its theorems are instantiated: two chips
  of three blocks of eight pages of two sectors, a write buffer of eight and a read buffer of four frames.
\<close>

definition buf_text :: string where
  "buf_text = ''PAGE_SIZE 1024 PAGE_NB 8 SECTOR_SIZE 512 FLASH_NB 2 BLOCK_NB 3 PLANES_PER_FLASH 1 WRITE_BUFFER_FRAME_NB 8 READ_BUFFER_FRAME_NB 4 CHANNEL_NB 1''"

definition buf_conf :: ssd_config where
  "buf_conf = zero_config\<lparr>PAGE_SIZE := 1024, PAGE_NB := 8, SECTOR_SIZE := 512, FLASH_NB := 2, BLOCK_NB := 3,
     PLANES_PER_FLASH := 1, WRITE_BUFFER_FRAME_NB := 8, READ_BUFFER_FRAME_NB := 4, CHANNEL_NB := 1\<rparr>"

definition buf :: ssd_config where
  "buf = (case derive_config True buf_conf of Some c \<Rightarrow> c | None \<Rightarrow> buf_conf)"

text \<open>The globals before \<^verbatim>\<open>SSD_INIT\<close>, and the device after it.\<close>

definition off_buffer :: io_buffer where
  "off_buffer = INIT_IO_BUFFER zero_config"

definition buf_ssd :: ssd where
  "buf_ssd = (case FTL_INIT_buffered (Some buf_text) no_files (zero_config, (off_buffer, off_ssd)) of
     Some (c, (b, s)) \<Rightarrow> s | None \<Rightarrow> off_ssd)"

definition buf_firm :: firm where
  "buf_firm = (INIT_IO_BUFFER buf, buf_ssd)"

lemma buf_scan: "scan_conf True buf_text zero_config = Some buf_conf"
  by code_simp

lemma buf_valid: "valid_conf buf_conf"
  by (simp add: valid_conf_def buf_conf_def zero_config_def in_int_def)

lemma derive_config_buffered:
  "WRITE_BUFFER_FRAME_NB c \<noteq> 0 \<Longrightarrow> READ_BUFFER_FRAME_NB c \<noteq> 0 \<Longrightarrow> derive_config True c = derive_config False c"
  by (simp add: derive_config_def)

lemma buf_derived:
  "derive_config True buf_conf = Some buf" "wf_config buf"
  "PAGE_NB buf = 8" "BLOCK_NB buf = 3" "FLASH_NB buf = 2" "CHANNEL_NB buf = 1"
  "PLANES_PER_FLASH buf = 1" "SECTORS_PER_PAGE buf = 2" "GC_VICTIM_NB buf = 20"
proof -
  have d: "derive_config True buf_conf = derive_config False buf_conf"
    by (rule derive_config_buffered) (simp_all add: buf_conf_def)
  obtain c where c: "derive_config True buf_conf = Some c" "wf_config c" "PAGE_NB c = 8" "BLOCK_NB c = 3"
    "FLASH_NB c = 2" "CHANNEL_NB c = 1" "PLANES_PER_FLASH c = 1" "SECTORS_PER_PAGE c = 2" "GC_VICTIM_NB c = 20"
    using derive_config_wf [OF buf_valid] unfolding returns_def d by (auto simp: buf_conf_def zero_config_def)
  moreover have "buf = c" using c(1) by (simp add: buf_def)
  ultimately show "derive_config True buf_conf = Some buf" "wf_config buf"
    "PAGE_NB buf = 8" "BLOCK_NB buf = 3" "FLASH_NB buf = 2" "CHANNEL_NB buf = 1"
    "PLANES_PER_FLASH buf = 1" "SECTORS_PER_PAGE buf = 2" "GC_VICTIM_NB buf = 20" by simp_all
qed

lemma buf_frames: "WRITE_BUFFER_FRAME_NB buf = 8" "READ_BUFFER_FRAME_NB buf = 4" "SECTOR_SIZE buf = 512"
  by (simp_all add: buf_def derive_config_def buf_conf_def zero_config_def gc_victim_count_def
      cdiv_def imul_def lmul_def in_int_def in_long_def)

lemma buf_sectors: "SECTOR_NB buf = 96"
  using buf_derived(2-8) by (simp add: wf_config_def)

lemma buf_config: "INIT_SSD_CONFIG True (Some buf_text) zero_config = Some buf"
  by (simp add: INIT_SSD_CONFIG_def buf_scan buf_derived)

lemma buf_start:
  "FTL_INIT_buffered (Some buf_text) no_files (zero_config, (off_buffer, off_ssd)) = Some (buf, buf_firm)"
  "new_device buf (tables buf_ssd)" "idle buf (dev buf_ssd)" "io_request_seq_nb (dev buf_ssd) = 0"
proof -
  obtain t where t: "init_tables buf no_files (tables off_ssd) = Some t" "new_device buf t"
    using init_tables_fresh [OF buf_derived(2), of "tables off_ssd"] unfolding returns_def by blast
  let ?s = "off_ssd\<lparr>tables := t, dev := SSD_IO_INIT buf (INIT_PERF_CHECKER (dev off_ssd)), g_init := 1\<rparr>"
  have i: "FTL_INIT_buffered (Some buf_text) no_files (zero_config, (off_buffer, off_ssd)) = Some (buf, (INIT_IO_BUFFER buf, ?s))"
    using t(1) by (simp add: FTL_INIT_buffered_def buf_config) (simp add: off_ssd_def)
  then have s: "buf_ssd = ?s" by (simp add: buf_ssd_def)
  show "FTL_INIT_buffered (Some buf_text) no_files (zero_config, (off_buffer, off_ssd)) = Some (buf, buf_firm)"
    unfolding i buf_firm_def s ..
  show "new_device buf (tables buf_ssd)" "idle buf (dev buf_ssd)" "io_request_seq_nb (dev buf_ssd) = 0"
    unfolding s using t(2) SSD_IO_INIT_idle [of buf "dev off_ssd"] buf_derived(2)
    by (simp_all) (simp add: SSD_IO_INIT_def INIT_PERF_CHECKER_def)
qed

lemma buf_surroundings: "firm_surroundings tick buf (Some buf_text) (off_buffer, off_ssd) 5 {0, 1, 2, 3}"
  using buf_derived tick_advances
  by (simp add: firm_surroundings_def firm_env_def spare_def buffer_pages_def buf_frames buf_config) (simp add: off_ssd_def)

lemma buf_ssd_ready: "k \<le> 4294967295 \<Longrightarrow> ready_for buf {0, 1, 2, 3} k buf_ssd"
  using buf_start(2-4) new_device_inv(1) [OF buf_derived(2) buf_start(2)]
    new_device_provisioned [OF buf_derived(2) buf_start(2)] by (simp add: ready_for_def)

lemma buf_ready: "k \<le> 4294967295 \<Longrightarrow> firm_ready buf {0, 1, 2, 3} k buf_firm"
  "written_pages buf buf_firm = {}"
proof -
  show "firm_ready buf {0, 1, 2, 3} k buf_firm" if "k \<le> 4294967295"
    unfolding buf_firm_def by (rule firm_ready_start(1) [OF buf_surroundings buf_ssd_ready [OF that]])
  show "written_pages buf buf_firm = {}"
    unfolding buf_firm_def firm_ready_start(2) [OF buf_surroundings buf_ssd_ready [of 0, simplified]]
    using new_device_inv(2) [OF buf_derived(2) buf_start(2)] by (simp add: mapped_def)
qed

lemma buf_pages:
  "request_pages buf 0 4 = {0, 1}" "request_pages buf 2 4 = {1, 2}" "request_pages buf 4 1 = {2}"
proof -
  have "{0..<4 :: int} = {0, 1, 2, 3}" "{2..<6 :: int} = {2, 3, 4, 5}" "{4..<5 :: int} = {4}" by auto
  then show "request_pages buf 0 4 = {0, 1}" "request_pages buf 2 4 = {1, 2}" "request_pages buf 4 1 = {2}"
    by (auto simp: request_pages_def buf_derived)
qed

lemma buf_in_range: "in_range buf 0 4" "in_range buf 2 4" "in_range buf 4 1" "in_range buf 1 1"
  by (simp_all add: in_range_def buf_derived buf_sectors page_span_def)

lemma buf_env: "firm_env tick buf 5 {0, 1, 2, 3}"
  using buf_surroundings by (simp add: firm_surroundings_def)

lemma buf_empty: "firm_inv buf [] [] (INIT_IO_BUFFER buf)"
  by (rule INIT_IO_BUFFER_inv) (simp_all add: buf_frames)

text \<open>
  The empty buffer with frames of different contents, and the buffer after the writes of the
  sectors 0 to 2 and 1 to 4: one event for the sectors 0 to 4, whose frames are 0 and 3 to 6.
\<close>

definition fresh_buffer :: io_buffer where
  "fresh_buffer = (INIT_IO_BUFFER buf)\<lparr>write_buffer := [''0'', ''old 1'', ''old 2'', ''new 1'', ''new 2'', ''3'', ''4'', ''free'']\<rparr>"

definition first_buffer :: io_buffer where
  "first_buffer = fresh_buffer\<lparr>e_queue := \<lparr>q_entry_nb = 1, q_entries = [ALLOC_NEW_EVENT WRITE 0 3 (Write_Frame 0)]\<rparr>,
     wb_valid_array := ''VVV00000'', sata_write_ptr := 3, empty_write_buffer_frame := 5\<rparr>"

definition overlap_buffer :: io_buffer where
  "overlap_buffer = fresh_buffer\<lparr>e_queue := \<lparr>q_entry_nb = 1, q_entries = [ALLOC_NEW_EVENT WRITE 0 5 (Write_Frame 0)]\<rparr>,
     wb_valid_array := ''VIIVVVV0'', sata_write_ptr := 7, empty_write_buffer_frame := 1\<rparr>"

lemma upto_few: "[0..3 :: int] = [0, 1, 2, 3]"
  by (simp add: upto_rec1)

lemma fresh_inv: "firm_inv buf [] [] fresh_buffer"
proof -
  have "wb_inv buf [] fresh_buffer \<longleftrightarrow> wb_inv buf [] (INIT_IO_BUFFER buf)"
    by (simp add: fresh_buffer_def wb_inv_def wb_shape_def ring_def frame_at_def)
  moreover have "rb_inv buf [] fresh_buffer"
    using buf_empty by (simp add: fresh_buffer_def firm_inv_def rb_inv_def buf_frames Let_def)
  ultimately show ?thesis using buf_empty by (simp add: firm_inv_def queued_def fresh_buffer_def)
qed

lemmas buffer_eval = ENQUEUE_WRITE_def WRITE_DATA_TO_BUFFER_def INCREASE_WB_SATA_POINTER_def i32_def u32_def upto_few upto_small
  fresh_buffer_def first_buffer_def overlap_buffer_def INIT_IO_BUFFER_def INIT_WB_VALID_ARRAY_def buf_frames next_frame_def
  UPDATE_WB_VALID_ARRAY_ENTRY_def GET_WB_VALID_ARRAY_ENTRY_def aset_def aget_def numeral_nat after_reads_def attach_write_def
  queue_tail_def CHECK_SEQUENTIALITY_def CHECK_IO_DEPENDENCY_FOR_WRITE_def append_event_def ALLOC_NEW_EVENT_def
  check_overwritten_def CHECK_OVERWRITE_def UPDATE_WB_VALID_ARRAY_PARTIAL_def set_event_def

lemma first_write: "ENQUEUE_WRITE buf 0 3 fresh_buffer = Some first_buffer"
  by (simp add: buffer_eval)

lemma second_write: "ENQUEUE_WRITE buf 1 4 first_buffer = Some overlap_buffer"
  by (simp add: buffer_eval skip_frames.simps mark_frames.simps)

lemma overlap_covers: "covering 1 1 overlap_buffer = Some (ALLOC_NEW_EVENT WRITE 0 5 (Write_Frame 0))"
  by (simp add: buffer_eval covering_def CHECK_IO_DEPENDENCY_FOR_READ_def)

lemma ENQUEUE_WRITE_firm_inv:
  assumes b: "firm_inv c [] ws b" and S: "SECTOR_NB c < 2147483648" and r: "0 \<le> sec" "0 < len" "sec + len \<le> SECTOR_NB c"
    and l: "len \<le> empty_write_buffer_frame b" and w: "ENQUEUE_WRITE c sec len b = Some b'"
  shows "\<exists>ws'. firm_inv c [] ws' b'"
proof -
  have q: "wb_inv c ws b" "queued [] ws b" "\<forall>e\<in>set ws. write_event c e" "rb_inv c [] b" using b by (simp_all add: firm_inv_def)
  obtain ws' where "wb_inv c ws' b'" "queued [] ws' b'" "\<forall>e\<in>set ws'. write_event c e"
    "\<exists>a q p m. b' = b\<lparr>wb_valid_array := a, e_queue := q, sata_write_ptr := p, empty_write_buffer_frame := m\<rparr>"
    using ENQUEUE_WRITE_inv [OF q(1-3) S r l] unfolding w returns_Some by blast
  then show ?thesis using q(4) by (auto simp: firm_inv_def)
qed

lemma overlap_inv: "firm_inv buf [] [ALLOC_NEW_EVENT WRITE 0 5 (Write_Frame 0)] overlap_buffer"
proof -
  have S: "SECTOR_NB buf < 2147483648" by (simp add: buf_sectors)
  obtain ws1 where b1: "firm_inv buf [] ws1 first_buffer"
    using ENQUEUE_WRITE_firm_inv [OF fresh_inv S _ _ _ _ first_write] by (auto simp: buf_sectors buffer_eval)
  then obtain ws2 where b2: "firm_inv buf [] ws2 overlap_buffer"
    using ENQUEUE_WRITE_firm_inv [OF b1 S _ _ _ _ second_write] by (auto simp: buf_sectors buffer_eval)
  then have "ws2 = [ALLOC_NEW_EVENT WRITE 0 5 (Write_Frame 0)]" by (simp add: firm_inv_def queued_def overlap_buffer_def)
  then show ?thesis using b2 by simp
qed

lemma overlap_pages: "pending_pages buf [ALLOC_NEW_EVENT WRITE 0 5 (Write_Frame 0)] \<subseteq> {0, 1, 2, 3}"
  by (auto simp: ALLOC_NEW_EVENT_def request_pages_def buf_derived)

lemma overlap_contents: "write_buffer overlap_buffer ! 1 = ''old 1''" "write_buffer overlap_buffer ! 3 = ''new 1''"
  "empty_read_buffer_frame overlap_buffer = 4"
  by (simp_all add: overlap_buffer_def fresh_buffer_def INIT_IO_BUFFER_def buf_frames i32_def numeral_nat)

lemma overlap_ready: "firm_ready buf {0, 1, 2, 3} 0 (overlap_buffer, buf_ssd)"
  unfolding firm_ready_def prod.case
  by (intro exI conjI, rule overlap_inv) (use buf_ssd_ready [of 1] overlap_pages in simp_all)

lemma overlap_written: "{0, 1, 2} \<subseteq> written_pages buf (overlap_buffer, buf_ssd)"
proof -
  have "{0..<5 :: int} = {0, 1, 2, 3, 4}" by auto
  then have "{0, 1, 2} \<subseteq> request_pages buf 0 5" by (auto simp: request_pages_def buf_derived)
  then show ?thesis
    using firm_inv_writes [OF overlap_inv] by (auto simp: written_pages_def ALLOC_NEW_EVENT_def)
qed

end
