(* ===== verification/Firm_Threads.thy ===== *)
theory Firm_Threads
  imports Firm_Spec
begin

text \<open>
  The build with \<^verbatim>\<open>SSD_THREAD\<close>: the host puts its requests into the queue, and a second thread
  (\<^verbatim>\<open>SSD_THREAD_MAIN_LOOP\<close>) takes them out. The two threads are a step relation on the flags
  and the state of the firmware.

  A step is a critical section under \<^verbatim>\<open>eq_lock\<close> or \<^verbatim>\<open>cq_lock\<close>, or a test outside of one, and the
  steps interleave: accesses that race in the C code are taken to be sequentially consistent.
  \<^verbatim>\<open>pthread_cond_wait\<close> in a loop releases the lock, so the step after it is possible whenever the
  condition of the loop is false. A step that would be undefined is not possible.
\<close>

section \<open>The two threads\<close>

datatype thread_mode = SSD_THREAD_MODE_1 | SSD_THREAD_MODE_2

text \<open>Where the host is in \<^verbatim>\<open>SSD_WRITE\<close> or \<^verbatim>\<open>SSD_READ\<close>: type, length and sector of the request.\<close>

datatype host_pc =
    Host_Idle
  | At_Completed io_op int int
  | At_Check io_op int int
  | At_Wait io_op int int
  | At_Enqueue io_op int int

record threads =
  host :: host_pc
  r_queue_full :: bool
  w_queue_full :: bool
  fw :: firm

definition full_flag :: "io_op \<Rightarrow> threads \<Rightarrow> bool" where
  "full_flag io_type t = (if io_type = WRITE then w_queue_full t else r_queue_full t)"

definition set_full_flag :: "io_op \<Rightarrow> threads \<Rightarrow> threads" where
  "set_full_flag io_type t = (if io_type = WRITE then t\<lparr>w_queue_full := True\<rparr> else t\<lparr>r_queue_full := True\<rparr>)"

text \<open>
  The steps of the host, labelled with the request that a step completes. The loop
  \<^verbatim>\<open>while(w_queue_full == 1) pthread_cond_signal(&eq_ready);\<close> is \<open>spin\<close> and \<open>woken\<close>.
\<close>

inductive host_step ::
  "clock \<Rightarrow> ssd_config \<Rightarrow> threads \<Rightarrow> (io_op \<times> int \<times> int) list \<Rightarrow> threads \<Rightarrow> bool" for gt c where
  call: "host t = Host_Idle \<Longrightarrow> io_type = READ \<or> io_type = WRITE \<Longrightarrow>
    host_step gt c t [] (t\<lparr>host := At_Completed io_type len sec\<rparr>)"
| completed: "host t = At_Completed io_type len sec \<Longrightarrow> fw t = (b, s) \<Longrightarrow> DEQUEUE_COMPLETED_READ c b = Some b' \<Longrightarrow>
    host_step gt c t [] (t\<lparr>host := At_Check io_type len sec, fw := (b', s)\<rparr>)"
| not_full: "host t = At_Check io_type len sec \<Longrightarrow> EVENT_QUEUE_IS_FULL io_type len (fst (fw t)) = FAIL \<Longrightarrow>
    host_step gt c t [] (t\<lparr>host := At_Enqueue io_type len sec\<rparr>)"
| is_full: "host t = At_Check io_type len sec \<Longrightarrow> EVENT_QUEUE_IS_FULL io_type len (fst (fw t)) = SUCCESS \<Longrightarrow>
    host_step gt c t [] ((set_full_flag io_type t)\<lparr>host := At_Wait io_type len sec\<rparr>)"
| spin: "host t = At_Wait io_type len sec \<Longrightarrow> full_flag io_type t \<Longrightarrow> host_step gt c t [] t"
| woken: "host t = At_Wait io_type len sec \<Longrightarrow> \<not> full_flag io_type t \<Longrightarrow>
    host_step gt c t [] (t\<lparr>host := At_Enqueue io_type len sec\<rparr>)"
| enqueue: "host t = At_Enqueue io_type len sec \<Longrightarrow> ENQUEUE_IO gt c io_type sec len (fw t) = Some f \<Longrightarrow>
    host_step gt c t [(io_type, len, sec)] (t\<lparr>host := Host_Idle, fw := f\<rparr>)"

text \<open>\<^verbatim>\<open>SSD_THREAD_MAIN_LOOP\<close>: one pass of its loop.\<close>

inductive SSD_THREAD_MAIN_LOOP :: "thread_mode \<Rightarrow> clock \<Rightarrow> ssd_config \<Rightarrow> threads \<Rightarrow> threads \<Rightarrow> bool" where
  dequeue: "q_entry_nb (e_queue (fst (fw t))) \<noteq> 0 \<Longrightarrow> DEQUEUE_IO gt c (fw t) = Some f \<Longrightarrow>
    SSD_THREAD_MAIN_LOOP SSD_THREAD_MODE_1 gt c t (t\<lparr>fw := f\<rparr>)"
| secure_read: "r_queue_full t \<Longrightarrow> SECURE_READ_BUFFER gt c (fw t) = Some f \<Longrightarrow>
    SSD_THREAD_MAIN_LOOP SSD_THREAD_MODE_2 gt c t (t\<lparr>r_queue_full := False, fw := f\<rparr>)"
| secure_write: "\<not> r_queue_full t \<Longrightarrow> w_queue_full t \<Longrightarrow> SECURE_WRITE_BUFFER gt c (fw t) = Some f \<Longrightarrow>
    SSD_THREAD_MAIN_LOOP SSD_THREAD_MODE_2 gt c t (t\<lparr>w_queue_full := False, fw := f\<rparr>)"

text \<open>Runs of both threads, with the requests that were completed.\<close>

inductive thread_run ::
  "thread_mode \<Rightarrow> clock \<Rightarrow> ssd_config \<Rightarrow> threads \<Rightarrow> (io_op \<times> int \<times> int) list \<Rightarrow> threads \<Rightarrow> bool" for mode gt c t where
  start: "thread_run mode gt c t [] t"
| host: "thread_run mode gt c t ls t' \<Longrightarrow> host_step gt c t' l t'' \<Longrightarrow> thread_run mode gt c t (ls @ l) t''"
| ssd: "thread_run mode gt c t ls t' \<Longrightarrow> SSD_THREAD_MAIN_LOOP mode gt c t' t'' \<Longrightarrow> thread_run mode gt c t ls t''"

inductive_cases main_loop_1E: "SSD_THREAD_MAIN_LOOP SSD_THREAD_MODE_1 gt c t t'"
inductive_cases main_loop_2E: "SSD_THREAD_MAIN_LOOP SSD_THREAD_MODE_2 gt c t t'"
inductive_cases host_stepE: "host_step gt c t l t'"

section \<open>Mode 1: a host that finds the buffer full waits forever\<close>

lemma mode_1_waits:
  assumes "thread_run SSD_THREAD_MODE_1 gt c t ls t'" "host t = At_Wait io_type len sec" "full_flag io_type t"
  shows "host t' = At_Wait io_type len sec \<and> full_flag io_type t' \<and> ls = []"
  using assms
proof (induction rule: thread_run.induct)
  case (host ls t' l t'')
  then have w: "host t' = At_Wait io_type len sec" "full_flag io_type t'" "ls = []" by simp_all
  from host.hyps(2) show ?case by (cases rule: host_step.cases) (use w in auto)
next
  case (ssd ls t' t'')
  then have w: "host t' = At_Wait io_type len sec" "full_flag io_type t'" "ls = []" by simp_all
  from ssd.hyps(2) show ?case by (rule main_loop_1E) (use w in \<open>auto simp: full_flag_def\<close>)
qed simp

section \<open>Mode 2: the threads behave as the device without threads\<close>

text \<open>A request as the build without threads serves it.\<close>

fun serve :: "clock \<Rightarrow> ssd_config \<Rightarrow> io_op \<times> int \<times> int \<Rightarrow> firm \<Rightarrow> firm option" where
  "serve gt c (io_type, len, sec) f =
     (if io_type = WRITE then SSD_WRITE_buffered gt c len sec f else SSD_READ_buffered gt c len sec f)"

definition secure :: "clock \<Rightarrow> ssd_config \<Rightarrow> io_op \<Rightarrow> firm \<Rightarrow> firm option" where
  "secure gt c io_type f = (if io_type = WRITE then SECURE_WRITE_BUFFER gt c f else SECURE_READ_BUFFER gt c f)"

lemma serve_eq:
  assumes "io_type = READ \<or> io_type = WRITE"
  shows "serve gt c (io_type, len, sec) (b, s) = do {
    b \<leftarrow> DEQUEUE_COMPLETED_READ c b;
    f \<leftarrow> (if EVENT_QUEUE_IS_FULL io_type len b = SUCCESS then secure gt c io_type (b, s) else Some (b, s));
    ENQUEUE_IO gt c io_type sec len f
  }"
  using assms by (auto simp: SSD_WRITE_buffered_def SSD_READ_buffered_def secure_def case_prod_beta cong: if_cong)

text \<open>
  \<open>progress gt c f t\<close>: the host has come from \<open>f\<close>, the state of the firmware when it was idle, to
  where it stands in \<open>t\<close>, in the way the build without threads does.
\<close>

definition flags_down :: "threads \<Rightarrow> bool" where
  "flags_down t \<longleftrightarrow> \<not> r_queue_full t \<and> \<not> w_queue_full t"

fun progress :: "clock \<Rightarrow> ssd_config \<Rightarrow> firm \<Rightarrow> host_pc \<Rightarrow> threads \<Rightarrow> bool" where
  "progress gt c f Host_Idle t \<longleftrightarrow> flags_down t \<and> fw t = f"
| "progress gt c f (At_Completed io_type len sec) t \<longleftrightarrow> flags_down t \<and> fw t = f \<and> (io_type = READ \<or> io_type = WRITE)"
| "progress gt c f (At_Check io_type len sec) t \<longleftrightarrow> flags_down t \<and> (io_type = READ \<or> io_type = WRITE) \<and>
     (\<exists>b. DEQUEUE_COMPLETED_READ c (fst f) = Some b \<and> fw t = (b, snd f))"
| "progress gt c f (At_Wait io_type len sec) t \<longleftrightarrow> (io_type = READ \<or> io_type = WRITE) \<and>
     (\<exists>b. DEQUEUE_COMPLETED_READ c (fst f) = Some b \<and> EVENT_QUEUE_IS_FULL io_type len b = SUCCESS \<and>
       (flags_down t \<and> secure gt c io_type (b, snd f) = Some (fw t) \<or>
        fw t = (b, snd f) \<and> (r_queue_full t \<longleftrightarrow> io_type = READ) \<and> (w_queue_full t \<longleftrightarrow> io_type = WRITE)))"
| "progress gt c f (At_Enqueue io_type len sec) t \<longleftrightarrow> flags_down t \<and> (io_type = READ \<or> io_type = WRITE) \<and>
     (\<exists>b. DEQUEUE_COMPLETED_READ c (fst f) = Some b \<and>
       (if EVENT_QUEUE_IS_FULL io_type len b = SUCCESS then secure gt c io_type (b, snd f) else Some (b, snd f)) = Some (fw t))"

lemma host_step_progress:
  assumes "host_step gt c t l t'" "progress gt c f (host t) t"
  shows "\<exists>f'. ofold (serve gt c) l f = Some f' \<and> progress gt c f' (host t') t'"
  using assms
proof (cases rule: host_step.cases)
  case (enqueue io_type len sec f1)
  then have "serve gt c (io_type, len, sec) (fst f, snd f) = Some f1"
    using assms(2) by (subst serve_eq) auto
  then show ?thesis using enqueue assms(2) by (auto simp: flags_down_def)
next
  case (completed io_type len sec b s b')
  have f: "f = (b, s)" using completed assms(2) by simp
  show ?thesis using completed assms(2) unfolding f by (auto simp: flags_down_def)
qed (use assms(2) in \<open>auto simp: flags_down_def full_flag_def set_full_flag_def\<close>)

lemma main_loop_progress:
  assumes "SSD_THREAD_MAIN_LOOP SSD_THREAD_MODE_2 gt c t t'" "progress gt c f (host t) t"
  shows "progress gt c f (host t') t'"
  using assms by (cases rule: main_loop_2E; cases "host t") (auto simp: flags_down_def secure_def)

lemma mode_2_sequential:
  assumes "thread_run SSD_THREAD_MODE_2 gt c t ls t'" "host t = Host_Idle" "flags_down t"
  shows "\<exists>f. ofold (serve gt c) ls (fw t) = Some f \<and> progress gt c f (host t') t'"
  using assms
proof (induction rule: thread_run.induct)
  case (host ls t' l t'')
  then obtain f where f: "ofold (serve gt c) ls (fw t) = Some f" "progress gt c f (threads.host t') t'" by blast
  obtain f' where "ofold (serve gt c) l f = Some f'" "progress gt c f' (threads.host t'') t''"
    using host_step_progress [OF host.hyps(2) f(2)] by blast
  then show ?case using f(1) by (auto simp: ofold_app)
next
  case (ssd ls t' t'')
  then show ?case using main_loop_progress by blast
qed simp

text \<open>
  The other direction: whatever the build without threads serves, the threads can complete, from every
  place the host can be at.
\<close>

fun pending :: "host_pc \<Rightarrow> (io_op \<times> int \<times> int) list" where
  "pending Host_Idle = []"
| "pending (At_Completed io_type len sec) = [(io_type, len, sec)]"
| "pending (At_Check io_type len sec) = [(io_type, len, sec)]"
| "pending (At_Wait io_type len sec) = [(io_type, len, sec)]"
| "pending (At_Enqueue io_type len sec) = [(io_type, len, sec)]"

definition idle_at :: "firm \<Rightarrow> threads \<Rightarrow> bool" where
  "idle_at f t \<longleftrightarrow> host t = Host_Idle \<and> flags_down t \<and> fw t = f"

lemma thread_run_trans:
  assumes "thread_run mode gt c t' ls' t''" "thread_run mode gt c t ls t'"
  shows "thread_run mode gt c t (ls @ ls') t''"
  using assms
proof (induction rule: thread_run.induct)
  case (host ls1 t1 l t2)
  then show ?case using thread_run.host [of mode gt c t "ls @ ls1" t1 l t2] by simp
qed (auto intro: thread_run.ssd)

lemmas host_first = thread_run_trans [OF _ thread_run.host [OF thread_run.start], simplified]
lemmas ssd_first = thread_run_trans [OF _ thread_run.ssd [OF thread_run.start], simplified]

lemma completes_enqueue:
  assumes "host t = At_Enqueue io_type len sec" "progress gt c f (host t) t" "serve gt c (io_type, len, sec) f = Some f'"
  shows "\<exists>t'. thread_run mode gt c t [(io_type, len, sec)] t' \<and> idle_at f' t'"
proof -
  have "ENQUEUE_IO gt c io_type sec len (fw t) = Some f'"
    using assms serve_eq [of io_type gt c len sec "fst f" "snd f"] by auto
  from thread_run.host [OF thread_run.start host_step.enqueue [OF assms(1) this]]
  show ?thesis using assms by (fastforce simp: idle_at_def flags_down_def)
qed

lemma completes_wait:
  assumes t: "host t = At_Wait io_type len sec" "progress gt c f (host t) t" "serve gt c (io_type, len, sec) f = Some f'"
  shows "\<exists>t'. thread_run SSD_THREAD_MODE_2 gt c t [(io_type, len, sec)] t' \<and> idle_at f' t'"
proof -
  obtain b where b: "DEQUEUE_COMPLETED_READ c (fst f) = Some b" "EVENT_QUEUE_IS_FULL io_type len b = SUCCESS"
    and io: "io_type = READ \<or> io_type = WRITE"
    and flag: "flags_down t \<and> secure gt c io_type (b, snd f) = Some (fw t) \<or>
        fw t = (b, snd f) \<and> (r_queue_full t \<longleftrightarrow> io_type = READ) \<and> (w_queue_full t \<longleftrightarrow> io_type = WRITE)"
    using t by auto
  have down: "\<exists>t'. thread_run SSD_THREAD_MODE_2 gt c u [(io_type, len, sec)] t' \<and> idle_at f' t'"
    if u: "host u = At_Wait io_type len sec" "flags_down u" "secure gt c io_type (b, snd f) = Some (fw u)" for u
  proof -
    have "host_step gt c u [] (u\<lparr>host := At_Enqueue io_type len sec\<rparr>)"
      by (rule host_step.woken) (use u in \<open>auto simp: flags_down_def full_flag_def\<close>)
    moreover have "\<exists>t'. thread_run SSD_THREAD_MODE_2 gt c (u\<lparr>host := At_Enqueue io_type len sec\<rparr>) [(io_type, len, sec)] t' \<and> idle_at f' t'"
      by (rule completes_enqueue [OF _ _ t(3)]) (use u b io in \<open>auto simp: flags_down_def\<close>)
    ultimately show ?thesis using host_first by fastforce
  qed
  show ?thesis
  proof (cases "flags_down t")
    case True
    then show ?thesis using down [of t] t(1) flag io by (auto simp: flags_down_def)
  next
    case False
    then have up: "fw t = (b, snd f)" "r_queue_full t \<longleftrightarrow> io_type = READ" "w_queue_full t \<longleftrightarrow> io_type = WRITE"
      using flag by auto
    obtain f1 where f1: "secure gt c io_type (b, snd f) = Some f1"
      using t(3) serve_eq [OF io, of gt c len sec "fst f" "snd f"] b
      by (cases "secure gt c io_type (b, snd f)") (simp_all del: serve.simps)
    let ?u = "t\<lparr>r_queue_full := False, w_queue_full := False, fw := f1\<rparr>"
    have "SSD_THREAD_MAIN_LOOP SSD_THREAD_MODE_2 gt c t ?u"
      using io
    proof
      assume r: "io_type = READ"
      then have e: "?u = t\<lparr>r_queue_full := False, fw := f1\<rparr>" using up by (cases t) simp
      show ?thesis unfolding e by (rule secure_read) (use r up f1 in \<open>simp_all add: secure_def\<close>)
    next
      assume w: "io_type = WRITE"
      then have e: "?u = t\<lparr>w_queue_full := False, fw := f1\<rparr>" using up by (cases t) simp
      show ?thesis unfolding e by (rule secure_write) (use w up f1 in \<open>simp_all add: secure_def\<close>)
    qed
    then show ?thesis using down [of ?u] t(1) f1 ssd_first by (fastforce simp: flags_down_def)
  qed
qed

lemma completes_check:
  assumes t: "host t = At_Check io_type len sec" "progress gt c f (host t) t" "serve gt c (io_type, len, sec) f = Some f'"
  shows "\<exists>t'. thread_run SSD_THREAD_MODE_2 gt c t [(io_type, len, sec)] t' \<and> idle_at f' t'"
proof (cases "EVENT_QUEUE_IS_FULL io_type len (fst (fw t))")
  case FAIL
  have "\<exists>t'. thread_run SSD_THREAD_MODE_2 gt c (t\<lparr>host := At_Enqueue io_type len sec\<rparr>) [(io_type, len, sec)] t' \<and> idle_at f' t'"
    by (rule completes_enqueue [OF _ _ t(3)]) (use t FAIL in \<open>auto simp: flags_down_def\<close>)
  then show ?thesis using host_first host_step.not_full [OF t(1) FAIL] by fastforce
next
  case SUCCESS
  have "\<exists>t'. thread_run SSD_THREAD_MODE_2 gt c ((set_full_flag io_type t)\<lparr>host := At_Wait io_type len sec\<rparr>) [(io_type, len, sec)] t' \<and> idle_at f' t'"
    by (rule completes_wait [OF _ _ t(3)]) (use t SUCCESS in \<open>auto simp: flags_down_def set_full_flag_def\<close>)
  then show ?thesis using host_first host_step.is_full [OF t(1) SUCCESS] by fastforce
qed

lemma completes_completed:
  assumes t: "host t = At_Completed io_type len sec" "progress gt c f (host t) t" "serve gt c (io_type, len, sec) f = Some f'"
  shows "\<exists>t'. thread_run SSD_THREAD_MODE_2 gt c t [(io_type, len, sec)] t' \<and> idle_at f' t'"
proof -
  have io: "io_type = READ \<or> io_type = WRITE" using t by simp
  obtain b where b: "DEQUEUE_COMPLETED_READ c (fst f) = Some b"
    using t(3) serve_eq [OF io, of gt c len sec "fst f" "snd f"]
    by (cases "DEQUEUE_COMPLETED_READ c (fst f)") (simp_all del: serve.simps)
  have e: "fw t = (fst f, snd f)" using t by simp
  have "\<exists>t'. thread_run SSD_THREAD_MODE_2 gt c (t\<lparr>host := At_Check io_type len sec, fw := (b, snd f)\<rparr>) [(io_type, len, sec)] t' \<and> idle_at f' t'"
    by (rule completes_check [OF _ _ t(3)]) (use t b in \<open>auto simp: flags_down_def\<close>)
  then show ?thesis using host_first host_step.completed [OF t(1) e b] by fastforce
qed

lemma mode_2_completes:
  assumes "progress gt c f (host t) t" "ofold (serve gt c) (pending (host t)) f = Some f'"
  shows "\<exists>t'. thread_run SSD_THREAD_MODE_2 gt c t (pending (host t)) t' \<and> idle_at f' t'"
proof (cases "host t")
  case Host_Idle
  then show ?thesis using assms thread_run.start by (fastforce simp: idle_at_def)
qed (use assms completes_completed completes_check completes_wait completes_enqueue in \<open>simp_all del: serve.simps progress.simps\<close>)

lemma mode_2_serves:
  assumes "idle_at f t" "ofold (serve gt c) ls f = Some f'" "\<forall>(io_type, len, sec) \<in> set ls. io_type = READ \<or> io_type = WRITE"
  shows "\<exists>t'. thread_run SSD_THREAD_MODE_2 gt c t ls t' \<and> idle_at f' t'"
  using assms
proof (induction ls arbitrary: f t)
  case Nil
  then show ?case using thread_run.start by fastforce
next
  case (Cons p ls)
  obtain io_type len sec where p: "p = (io_type, len, sec)" by (cases p)
  have io: "io_type = READ \<or> io_type = WRITE" using Cons.prems(3) p by simp
  obtain f1 where f1: "serve gt c (io_type, len, sec) f = Some f1" "ofold (serve gt c) ls f1 = Some f'"
    using Cons.prems(2) p by (auto simp: bind_eq_Some_conv simp del: serve.simps)
  let ?u = "t\<lparr>host := At_Completed io_type len sec\<rparr>"
  have c: "host_step gt c t [] ?u" using Cons.prems(1) io by (auto simp: idle_at_def intro: host_step.call)
  have "\<exists>t1. thread_run SSD_THREAD_MODE_2 gt c ?u [(io_type, len, sec)] t1 \<and> idle_at f1 t1"
    by (rule completes_completed [OF _ _ f1(1)]) (use Cons.prems(1) io in \<open>auto simp: idle_at_def flags_down_def\<close>)
  then obtain t1 where t1: "thread_run SSD_THREAD_MODE_2 gt c t [(io_type, len, sec)] t1" "idle_at f1 t1"
    using host_first [OF _ c] by fastforce
  have "\<exists>t'. thread_run SSD_THREAD_MODE_2 gt c t1 ls t' \<and> idle_at f' t'"
    using Cons.IH [OF t1(2) f1(2)] Cons.prems(3) by simp
  then show ?case using thread_run_trans [OF _ t1(1)] p by fastforce
qed

text \<open>The requests as operations of the specification of the device.\<close>

fun as_host_op :: "io_op \<times> int \<times> int \<Rightarrow> host_op" where
  "as_host_op (io_type, len, sec) = (if io_type = WRITE then Host_Write sec len else Host_Read sec len)"

lemma serve_run_steps: "ofold (serve gt c) ls f = map_option snd (run_steps (run_buffered gt c conf d0 f0) (map as_host_op ls) f)"
proof (induction ls arbitrary: f)
  case (Cons p ls)
  have one: "run_buffered gt c conf d0 f0 (as_host_op p) f = map_option (Pair ()) (serve gt c p f)" by (cases p) simp
  show ?case
  proof (cases "serve gt c p f")
    case (Some f1)
    then show ?thesis
      using Cons.IH [of f1] by (cases "run_steps (run_buffered gt c conf d0 f0) (map as_host_op ls) f1") (auto simp: one)
  qed (simp add: one)
qed simp

lemma serve_refines:
  assumes "firm_surroundings gt c conf f0 n U" "firm_ready c U (length ls) f" "\<forall>p\<in>set ls. buffered_allowed c U (as_host_op p)"
  shows "returns (ofold (serve gt c) ls f) (\<lambda>f'. firm_ready c U 0 f' \<and>
    written_pages c f' = snd (spec_steps (spec_buffered c) (map as_host_op ls) (written_pages c f)))"
proof -
  have "returns (run_steps (run_buffered gt c conf undefined f0) (map as_host_op ls) f) (\<lambda>(rs, f'). firm_ready c U 0 f' \<and>
      (rs, written_pages c f') = spec_steps (spec_buffered c) (map as_host_op ls) (written_pages c f))"
    by (rule returns_mono [OF buffered.run_refines]) (use assms in auto)
  then obtain rs f' where r: "run_steps (run_buffered gt c conf undefined f0) (map as_host_op ls) f = Some (rs, f')"
    "firm_ready c U 0 f'" "spec_steps (spec_buffered c) (map as_host_op ls) (written_pages c f) = (rs, written_pages c f')"
    unfolding returns_def by (auto split: prod.splits)
  show ?thesis unfolding serve_run_steps [of _ _ _ _ conf undefined f0] r(1) using r(2,3) by simp
qed

end
