(* ===== verification/Small_Threads.thy ===== *)
theory Small_Threads
  imports Small_Buffered Firm_Threads
begin

text \<open>
  The small buffered device with a thread of its own: an idle host with an empty buffer, and a host
  that finds the buffer too full for its write.
\<close>

definition buf_threads :: threads where
  "buf_threads = \<lparr>host = Host_Idle, r_queue_full = False, w_queue_full = False, fw = buf_firm\<rparr>"

definition full_threads :: threads where
  "full_threads = \<lparr>host = Host_Idle, r_queue_full = False, w_queue_full = False, fw = (overlap_buffer, buf_ssd)\<rparr>"

definition waiting_threads :: threads where
  "waiting_threads = \<lparr>host = At_Wait WRITE 2 0, r_queue_full = False, w_queue_full = True, fw = (overlap_buffer, buf_ssd)\<rparr>"

lemma buf_threads_idle: "idle_at buf_firm buf_threads"
  by (simp add: idle_at_def flags_down_def buf_threads_def)

lemma buf_threads_called:
  "thread_run SSD_THREAD_MODE_2 gt c buf_threads [] (buf_threads\<lparr>host := At_Completed WRITE 4 0\<rparr>)"
proof -
  have "host_step gt c buf_threads [] (buf_threads\<lparr>host := At_Completed WRITE 4 0\<rparr>)"
    by (rule host_step.call) (simp_all add: buf_threads_def)
  from thread_run.host [OF thread_run.start this] show ?thesis by simp
qed

lemma overlap_full: "EVENT_QUEUE_IS_FULL WRITE 2 (fst (fw full_threads)) = SUCCESS"
  by (simp add: full_threads_def EVENT_QUEUE_IS_FULL_def buffer_eval)

lemma overlap_waits: "host_step gt c (full_threads\<lparr>host := At_Check WRITE 2 0\<rparr>) [] waiting_threads"
proof -
  have "waiting_threads = (set_full_flag WRITE (full_threads\<lparr>host := At_Check WRITE 2 0\<rparr>))\<lparr>host := At_Wait WRITE 2 0\<rparr>"
    by (simp add: waiting_threads_def set_full_flag_def full_threads_def)
  then show ?thesis
    using host_step.is_full [of "full_threads\<lparr>host := At_Check WRITE 2 0\<rparr>" WRITE 2 0] overlap_full by simp
qed

lemma overlap_called: "thread_run mode gt c full_threads [] waiting_threads"
proof -
  have d: "DEQUEUE_COMPLETED_READ c overlap_buffer = Some overlap_buffer"
    by (simp add: DEQUEUE_COMPLETED_READ_def overlap_buffer_def fresh_buffer_def INIT_IO_BUFFER_def)
  let ?t = "full_threads\<lparr>host := At_Completed WRITE 2 0\<rparr>"
  have "host_step gt c full_threads [] ?t" by (rule host_step.call) (simp_all add: full_threads_def)
  from thread_run.host [OF thread_run.start this] have 1: "thread_run mode gt c full_threads [] ?t" by simp
  have "host_step gt c ?t [] (?t\<lparr>host := At_Check WRITE 2 0, fw := (overlap_buffer, buf_ssd)\<rparr>)"
    by (rule host_step.completed [OF _ _ d]) (simp_all add: full_threads_def)
  moreover have "?t\<lparr>host := At_Check WRITE 2 0, fw := (overlap_buffer, buf_ssd)\<rparr> = full_threads\<lparr>host := At_Check WRITE 2 0\<rparr>"
    by (simp add: full_threads_def)
  ultimately have "thread_run mode gt c full_threads [] (full_threads\<lparr>host := At_Check WRITE 2 0\<rparr>)"
    using thread_run.host [OF 1] by fastforce
  from thread_run.host [OF this overlap_waits] show ?thesis by simp
qed

text \<open>The thread of the device empties the queue while the host waits.\<close>

lemma overlap_emptied:
  "\<exists>f. thread_run SSD_THREAD_MODE_1 tick buf waiting_threads [] (waiting_threads\<lparr>fw := f\<rparr>) \<and> q_entries (e_queue (fst f)) = []"
proof -
  obtain b s where d: "DEQUEUE_IO tick buf (overlap_buffer, buf_ssd) = Some (b, s)" "firm_inv buf [] [] b"
    using DEQUEUE_write [OF buf_env overlap_inv buf_ssd_ready overlap_pages, of 0] unfolding returns_def by auto
  have "SSD_THREAD_MAIN_LOOP SSD_THREAD_MODE_1 tick buf waiting_threads (waiting_threads\<lparr>fw := (b, s)\<rparr>)"
    by (rule SSD_THREAD_MAIN_LOOP.dequeue) (use d(1) in \<open>simp_all add: waiting_threads_def overlap_buffer_def\<close>)
  from thread_run.ssd [OF thread_run.start this] show ?thesis
    using d(2) by (intro exI [of _ "(b, s)"]) (simp add: firm_inv_def queued_def)
qed

end
