(* ===== verification/Ftl_Cache.thy ===== *)
theory Ftl_Cache
  imports Gc_Manager
begin

text \<open>
  \<^verbatim>\<open>FTL/PAGE_MAP/ftl_cache.c\<close>, the cache of map pages, compiled with \<^verbatim>\<open>FTL_MAP_CACHE\<close>: the index
  table with its clock algorithm, the state of every map page, and the list of the map pages
  that were written.

  The file calls \<^verbatim>\<open>CELL_READ\<close> and \<^verbatim>\<open>CELL_WRITE\<close>, which no compiled source defines;
  they are the fields of the parameter \<open>cell_io\<close>, functions on a state of their own that is
  kept in the field \<open>cells\<close>. The array \<^verbatim>\<open>inverse_page_mapping_table\<close>, which none
  declares either, is a field of the state. A pointer to an entry of \<^verbatim>\<open>cache_idx_table\<close> is its
  index, and the data of an entry is the list of its \<^verbatim>\<open>int32_t\<close> values. The last section
  shows that the clock algorithm ends and which entry it chooses.
\<close>

section \<open>State\<close>

datatype map_kind = MAP | INV_MAP

record map_data =
  md_ppn :: int
  md_data :: "int list"

record cache_idx_entry =
  map_num :: int
  clock_bit :: bool
  map_type :: map_kind
  update_bit :: bool
  idx_data :: "int list"

record map_state_entry =
  map_ppn :: int
  is_cached :: bool
  cache_entry :: "int option"

text \<open>The sizes, and the functions that access the flash cells: chip, block, page, offset, type.\<close>

record cache_config =
  CACHE_IDX_SIZE :: int
  MAP_ENTRIES_PER_PAGE :: int
  MAP_ENTRY_NB :: int

record 'd cell_io =
  CELL_READ :: "int \<Rightarrow> int \<Rightarrow> int \<Rightarrow> int \<Rightarrow> io_op \<Rightarrow> 'd \<Rightarrow> 'd option"
  CELL_WRITE :: "int \<Rightarrow> int \<Rightarrow> int \<Rightarrow> int \<Rightarrow> io_op \<Rightarrow> 'd \<Rightarrow> 'd option"

record 'd cached_ftl =
  cache_idx_table :: "cache_idx_entry list"
  map_state_table :: "map_state_entry list"
  clock_hand :: int
  cache_map_data :: "map_data list"
  cache_map_data_nb :: int
  inverse_page_mapping_table :: "int list"
  ftl :: ftl_state
  cells :: 'd

definition map_cache_config :: "ssd_config \<Rightarrow> int \<Rightarrow> cache_config option" where
  "map_cache_config c idx_size = do {
     let per_page = u32 (PAGE_SIZE c) div 4;
     nb \<leftarrow> cdiv (PAGE_MAPPING_ENTRY_NB c) per_page;
     Some \<lparr>CACHE_IDX_SIZE = idx_size, MAP_ENTRIES_PER_PAGE = per_page, MAP_ENTRY_NB = u32 nb\<rparr>
   }"

section \<open>Written map pages\<close>

definition REARRANGE_MAP_DATA_ENTRY :: "map_data \<Rightarrow> 'd cached_ftl \<Rightarrow> 'd cached_ftl" where
  "REARRANGE_MAP_DATA_ENTRY new_entry s =
     (if cache_map_data s = [] then s\<lparr>cache_map_data := [new_entry]\<rparr>
      else s\<lparr>cache_map_data := cache_map_data s @ [new_entry]\<rparr>)"

definition WRITE_MAP ::
  "ssd_config \<Rightarrow> 'd cell_io \<Rightarrow> int \<Rightarrow> int list \<Rightarrow> 'd cached_ftl \<Rightarrow> 'd cached_ftl option" where
  "WRITE_MAP c io page_nb buf s = do {
     let s = s\<lparr>cache_map_data_nb := u32 (cache_map_data_nb s + 1)\<rparr>;
     let s = REARRANGE_MAP_DATA_ENTRY \<lparr>md_ppn = page_nb, md_data = buf\<rparr> s;
     d \<leftarrow> CELL_WRITE io (CALC_FLASH c (i32 page_nb)) (CALC_BLOCK c (i32 page_nb)) (CALC_PAGE c (i32 page_nb))
           0 MAP_WRITE (cells s);
     Some (s\<lparr>cells := d\<rparr>)
   }"

text \<open>The loop runs \<open>n\<close> times along the chain, whatever its length; \<open>None\<close> inside is NULL.\<close>

fun find_map_data :: "nat \<Rightarrow> int \<Rightarrow> map_data list \<Rightarrow> map_data option option" where
  "find_map_data 0 page_nb es = Some None"
| "find_map_data (Suc n) page_nb [] = None"
| "find_map_data (Suc n) page_nb (e # es) =
     (if md_ppn e = page_nb then Some (Some e) else find_map_data n page_nb es)"

definition LOOKUP_MAP_DATA_ENTRY :: "int \<Rightarrow> 'd cached_ftl \<Rightarrow> map_data option option" where
  "LOOKUP_MAP_DATA_ENTRY page_nb s = find_map_data (nat (cache_map_data_nb s)) page_nb (cache_map_data s)"

definition READ_MAP :: "int \<Rightarrow> 'd cached_ftl \<Rightarrow> int list option option" where
  "READ_MAP page_nb s = do {
     e \<leftarrow> LOOKUP_MAP_DATA_ENTRY page_nb s;
     Some (map_option md_data e)
   }"

section \<open>The cache\<close>

text \<open>\<^verbatim>\<open>while(1)\<close>: the hand moves on until it meets an entry whose clock bit is clear.\<close>

partial_function (option) CACHE_SELECT_VICTIM ::
  "cache_config \<Rightarrow> 'd cached_ftl \<Rightarrow> (int \<times> 'd cached_ftl) option" where
  "CACHE_SELECT_VICTIM g s = do {
     let n = u32 (CACHE_IDX_SIZE g);
     let idx = (if clock_hand s = n then 0 else clock_hand s);
     let hand = u32 (clock_hand s + 1);
     let s = s\<lparr>clock_hand := (if hand = n then 0 else hand)\<rparr>;
     e \<leftarrow> aget (cache_idx_table s) idx;
     t \<leftarrow> aset (cache_idx_table s) idx (e\<lparr>clock_bit := \<not> clock_bit e\<rparr>);
     if clock_bit e then CACHE_SELECT_VICTIM g (s\<lparr>cache_idx_table := t\<rparr>)
     else Some (idx, s\<lparr>cache_idx_table := t\<rparr>)
   }"

definition LOOKUP_CACHE :: "int \<Rightarrow> map_kind \<Rightarrow> 'd cached_ftl \<Rightarrow> int option option" where
  "LOOKUP_CACHE map_index kind s = do {
     m \<leftarrow> aget (map_state_table s) map_index;
     if is_cached m then do {
       i \<leftarrow> cache_entry m;
       e \<leftarrow> aget (cache_idx_table s) i;
       Some (if map_type e = kind \<and> map_num e = map_index then Some i else None)
     }
     else Some None
   }"

text \<open>
  \<^verbatim>\<open>new_ppn\<close> is a local variable that \<^verbatim>\<open>GET_NEW_PAGE\<close> sets only when it succeeds; its result is
  not checked, and using the unset variable is undefined.
\<close>

definition write_back ::
  "ssd_config \<Rightarrow> 'd cell_io \<Rightarrow> cache_idx_entry \<Rightarrow> map_state_entry \<Rightarrow> 'd cached_ftl
     \<Rightarrow> (map_state_entry \<times> 'd cached_ftl) option" where
  "write_back c io e m s =
     (if update_bit e then do {
        (page, t) \<leftarrow> GET_NEW_PAGE c VICTIM_OVERALL (EMPTY_TABLE_ENTRY_NB c) (ftl s);
        new_ppn \<leftarrow> page;
        s \<leftarrow> WRITE_MAP c io (u32 new_ppn) (idx_data e) (s\<lparr>ftl := t\<rparr>);
        Some (m\<lparr>map_ppn := new_ppn\<rparr>, s)
      }
      else Some (m, s))"

definition CACHE_EVICT_MAP ::
  "ssd_config \<Rightarrow> cache_config \<Rightarrow> 'd cell_io \<Rightarrow> 'd cached_ftl \<Rightarrow> (int \<times> 'd cached_ftl) option" where
  "CACHE_EVICT_MAP c g io s = do {
     (victim_index, s) \<leftarrow> CACHE_SELECT_VICTIM g s;
     e \<leftarrow> aget (cache_idx_table s) victim_index;
     m \<leftarrow> aget (map_state_table s) (map_num e);
     (m, s) \<leftarrow> write_back c io e m s;
     ms \<leftarrow> aset (map_state_table s) (map_num e) (m\<lparr>is_cached := False, cache_entry := None\<rparr>);
     es \<leftarrow> aset (cache_idx_table s) victim_index (e\<lparr>map_num := 0, clock_bit := False, update_bit := False\<rparr>);
     Some (victim_index, s\<lparr>map_state_table := ms, cache_idx_table := es\<rparr>)
   }"

text \<open>\<^verbatim>\<open>memcpy\<close> of one map page; reading beyond the table is undefined.\<close>

definition map_page :: "cache_config \<Rightarrow> int \<Rightarrow> int list \<Rightarrow> int list option" where
  "map_page g index table =
     (if 0 \<le> index \<and> index + MAP_ENTRIES_PER_PAGE g \<le> int (length table)
      then Some (take (nat (MAP_ENTRIES_PER_PAGE g)) (drop (nat index) table)) else None)"

definition CACHE_INSERT_MAP ::
  "ssd_config \<Rightarrow> cache_config \<Rightarrow> 'd cell_io \<Rightarrow> int \<Rightarrow> map_kind \<Rightarrow> int \<Rightarrow> 'd cached_ftl
     \<Rightarrow> (int \<times> 'd cached_ftl) option" where
  "CACHE_INSERT_MAP c g io map_index kind victim_index s = do {
     let index = i32 (map_index * MAP_ENTRIES_PER_PAGE g);
     e \<leftarrow> aget (cache_idx_table s) victim_index;
     m \<leftarrow> aget (map_state_table s) map_index;
     let ppn = map_ppn m;
     data \<leftarrow> map_page g index (case kind of MAP \<Rightarrow> mapping_table (ftl s) | INV_MAP \<Rightarrow> inverse_page_mapping_table s);
     d \<leftarrow> CELL_READ io (CALC_FLASH c ppn) (CALC_BLOCK c ppn) (CALC_PAGE c ppn) 0 MAP_READ (cells s);
     es \<leftarrow> aset (cache_idx_table s) victim_index
       (e\<lparr>map_num := map_index mod 2 ^ 29, clock_bit := True, map_type := kind, update_bit := False, idx_data := data\<rparr>);
     ms \<leftarrow> aset (map_state_table s) map_index (m\<lparr>is_cached := True, cache_entry := Some victim_index\<rparr>);
     Some (victim_index, s\<lparr>cache_idx_table := es, map_state_table := ms, cells := d\<rparr>)
   }"

definition CACHE_GET_MAP ::
  "ssd_config \<Rightarrow> cache_config \<Rightarrow> 'd cell_io \<Rightarrow> int \<Rightarrow> map_kind \<Rightarrow> 'd cached_ftl \<Rightarrow> (int \<times> 'd cached_ftl) option" where
  "CACHE_GET_MAP c g io map_index kind s = do {
     r \<leftarrow> LOOKUP_CACHE map_index kind s;
     case r of
       Some i \<Rightarrow> do {
         e \<leftarrow> aget (cache_idx_table s) i;
         es \<leftarrow> aset (cache_idx_table s) i (e\<lparr>clock_bit := True\<rparr>);
         Some (i, s\<lparr>cache_idx_table := es\<rparr>)
       }
     | None \<Rightarrow> do {
         (victim_index, s) \<leftarrow> CACHE_EVICT_MAP c g io s;
         CACHE_INSERT_MAP c g io map_index kind victim_index s
       }
   }"

section \<open>Access to the mapping through the cache\<close>

text \<open>The quotient of an \<^verbatim>\<open>int32_t\<close> and an \<^verbatim>\<open>uint32_t\<close> is computed with unsigned numbers.\<close>

definition map_index_of :: "cache_config \<Rightarrow> int \<Rightarrow> int option" where
  "map_index_of g nr = (if MAP_ENTRIES_PER_PAGE g = 0 then None else Some (u32 nr div MAP_ENTRIES_PER_PAGE g))"

definition CACHE_GET_PPN ::
  "ssd_config \<Rightarrow> cache_config \<Rightarrow> 'd cell_io \<Rightarrow> int \<Rightarrow> 'd cached_ftl \<Rightarrow> (int \<times> 'd cached_ftl) option" where
  "CACHE_GET_PPN c g io lpn s = do {
     map_index \<leftarrow> map_index_of g lpn;
     (i, s) \<leftarrow> CACHE_GET_MAP c g io map_index MAP s;
     ppn \<leftarrow> GET_MAPPING_INFO lpn (ftl s);
     Some (ppn, s)
   }"

definition CACHE_GET_LPN ::
  "ssd_config \<Rightarrow> cache_config \<Rightarrow> 'd cell_io \<Rightarrow> int \<Rightarrow> 'd cached_ftl \<Rightarrow> (int \<times> 'd cached_ftl) option" where
  "CACHE_GET_LPN c g io ppn s = do {
     map_index \<leftarrow> map_index_of g ppn;
     (i, s) \<leftarrow> CACHE_GET_MAP c g io map_index INV_MAP s;
     lpn \<leftarrow> GET_INVERSE_MAPPING_INFO ppn (ftl s);
     Some (lpn, s)
   }"

definition set_update_bit :: "int \<Rightarrow> 'd cached_ftl \<Rightarrow> 'd cached_ftl option" where
  "set_update_bit i s = do {
     e \<leftarrow> aget (cache_idx_table s) i;
     es \<leftarrow> aset (cache_idx_table s) i (e\<lparr>update_bit := True\<rparr>);
     Some (s\<lparr>cache_idx_table := es\<rparr>)
   }"

definition CACHE_UPDATE_PPN ::
  "ssd_config \<Rightarrow> cache_config \<Rightarrow> 'd cell_io \<Rightarrow> int \<Rightarrow> int \<Rightarrow> 'd cached_ftl \<Rightarrow> 'd cached_ftl option" where
  "CACHE_UPDATE_PPN c g io lpn ppn s = do {
     map_index \<leftarrow> map_index_of g lpn;
     (i, s) \<leftarrow> CACHE_GET_MAP c g io map_index MAP s;
     s \<leftarrow> set_update_bit i s;
     t \<leftarrow> aset (mapping_table (ftl s)) lpn ppn;
     Some (s\<lparr>ftl := (ftl s)\<lparr>mapping_table := t\<rparr>\<rparr>)
   }"

definition CACHE_UPDATE_LPN ::
  "ssd_config \<Rightarrow> cache_config \<Rightarrow> 'd cell_io \<Rightarrow> int \<Rightarrow> int \<Rightarrow> 'd cached_ftl \<Rightarrow> 'd cached_ftl option" where
  "CACHE_UPDATE_LPN c g io lpn ppn s = do {
     map_index \<leftarrow> map_index_of g ppn;
     (i, s) \<leftarrow> CACHE_GET_MAP c g io map_index INV_MAP s;
     s \<leftarrow> set_update_bit i s;
     t \<leftarrow> aset (inverse_page_mapping_table s) ppn lpn;
     Some (s\<lparr>inverse_page_mapping_table := t\<rparr>)
   }"

section \<open>Initialisation\<close>

text \<open>
  One pass of the loop over the map states. The local \<^verbatim>\<open>new_ppn\<close> keeps its value when
  \<^verbatim>\<open>GET_NEW_PAGE\<close> fails, and is unset (\<open>None\<close>) before the first success.
\<close>

definition init_map_state ::
  "ssd_config \<Rightarrow> int \<Rightarrow> int option \<times> 'd cached_ftl \<Rightarrow> (int option \<times> 'd cached_ftl) option" where
  "init_map_state c i = (\<lambda>(new_ppn, s). do {
     (page, t) \<leftarrow> GET_NEW_PAGE c VICTIM_OVERALL (EMPTY_TABLE_ENTRY_NB c) (ftl s);
     let new_ppn = (if page = None then new_ppn else page);
     ppn \<leftarrow> new_ppn;
     ms \<leftarrow> aset (map_state_table s) i \<lparr>map_ppn = ppn, is_cached = False, cache_entry = None\<rparr>;
     Some (new_ppn, s\<lparr>ftl := t, map_state_table := ms\<rparr>)
   })"

text \<open>With a saved file (\<open>saved\<close>) the code does nothing.\<close>

definition INIT_CACHE :: "ssd_config \<Rightarrow> cache_config \<Rightarrow> bool \<Rightarrow> 'd cached_ftl \<Rightarrow> 'd cached_ftl option" where
  "INIT_CACHE c g saved s =
     (if saved then Some s
      else do {
        let s = s\<lparr>cache_idx_table := replicate (nat (CACHE_IDX_SIZE g))
                    \<lparr>map_num = 0, clock_bit = False, map_type = MAP, update_bit = False,
                     idx_data = replicate (nat (MAP_ENTRIES_PER_PAGE g)) 0\<rparr>,
                  clock_hand := 0,
                  map_state_table := replicate (nat (MAP_ENTRY_NB g))
                    \<lparr>map_ppn = 0, is_cached = False, cache_entry = None\<rparr>\<rparr>;
        (new_ppn, s) \<leftarrow> ofold (init_map_state c) [0..MAP_ENTRY_NB g - 1] (None, s);
        Some (s\<lparr>cache_map_data := [], cache_map_data_nb := 0\<rparr>)
      })"

section \<open>The clock algorithm\<close>

text \<open>The cache with its hand at \<open>h\<close> and the entries \<open>es\<close>, read from the hand on.\<close>

definition at_hand :: "nat \<Rightarrow> cache_idx_entry list \<Rightarrow> 'd cached_ftl \<Rightarrow> 'd cached_ftl" where
  "at_hand h es s = s\<lparr>cache_idx_table := unrotate h es, clock_hand := int h\<rparr>"

lemma at_hand_fields [simp]:
  "cache_idx_table (at_hand h es s) = unrotate h es" "clock_hand (at_hand h es s) = int h"
  "map_state_table (at_hand h es s) = map_state_table s" "cache_map_data (at_hand h es s) = cache_map_data s"
  "inverse_page_mapping_table (at_hand h es s) = inverse_page_mapping_table s"
  "ftl (at_hand h es s) = ftl s" "cells (at_hand h es s) = cells s"
  by (simp_all add: at_hand_def)

lemma unrotate_advance:
  assumes "h < length (e # es)"
  shows "unrotate h (e # es) = unrotate (Suc h mod length (e # es)) (es @ [e])"
proof -
  let ?x = "unrotate h (e # es)"
  have "rotate (Suc h mod length (e # es)) ?x = rotate (Suc h mod length ?x) ?x" by simp
  also have "\<dots> = rotate1 (rotate h ?x)" by (simp only: rotate_conv_mod [symmetric] rotate_Suc)
  finally have "rotate (Suc h mod length (e # es)) ?x = es @ [e]" by simp
  then show ?thesis by (metis rotate_unrotate(2))
qed

lemma unrotate_head:
  assumes "h < length (e # es)"
  shows "unrotate h (e # es) ! h = e" "(unrotate h (e # es))[h := x] = unrotate h (x # es)"
proof -
  have "rotate h (unrotate h (e # es)) ! 0 = unrotate h (e # es) ! ((h + 0) mod length (unrotate h (e # es)))"
    using assms by (subst nth_rotate) (simp_all add: add.commute)
  then show "unrotate h (e # es) ! h = e" using assms by simp
  have "rotate h ((unrotate h (e # es))[(h + 0) mod length (unrotate h (e # es)) := x]) = (rotate h (unrotate h (e # es)))[0 := x]"
    by (rule rotate_update) simp
  then have "rotate h ((unrotate h (e # es))[h := x]) = x # es" using assms by simp
  then show "(unrotate h (e # es))[h := x] = unrotate h (x # es)" by (metis rotate_unrotate(2))
qed

lemma CACHE_SELECT_VICTIM_step:
  assumes h: "h < length (e # es)" and n: "CACHE_IDX_SIZE g = int (length (e # es))" "CACHE_IDX_SIZE g < 2147483648"
  shows "CACHE_SELECT_VICTIM g (at_hand h (e # es) s) =
    (let s' = at_hand (Suc h mod length (e # es)) (es @ [e\<lparr>clock_bit := \<not> clock_bit e\<rparr>]) s
     in if clock_bit e then CACHE_SELECT_VICTIM g s' else Some (int h, s'))"
proof -
  let ?n = "int (length (e # es))" and ?e = "e\<lparr>clock_bit := \<not> clock_bit e\<rparr>"
  have u: "u32 (CACHE_IDX_SIZE g) = ?n" "u32 (int h + 1) = int h + 1" using h n by (simp_all add: u32_id)
  have hand: "(if int h + 1 = ?n then 0 else int h + 1) = int (Suc h mod length (e # es))"
  proof (cases "Suc h = length (e # es)")
    case False
    then have "Suc h < length (e # es)" using h by simp
    then show ?thesis by simp
  qed simp
  have get: "aget (unrotate h (e # es)) (int h) = Some e" "aset (unrotate h (e # es)) (int h) ?e = Some (unrotate h (?e # es))"
    using h unrotate_head [OF h] by (simp_all add: aget_def aset_def)
  have adv: "unrotate h (?e # es) = unrotate (Suc h mod length (e # es)) (es @ [?e])"
    using unrotate_advance [of h ?e es] h by simp
  have fin: "(at_hand h (e # es) s)\<lparr>clock_hand := int (Suc h mod length (e # es)), cache_idx_table := unrotate h (?e # es)\<rparr> =
      at_hand (Suc h mod length (e # es)) (es @ [?e]) s" unfolding adv by (simp add: at_hand_def)
  have idx: "(if int h = ?n then 0 else int h) = int h" using h by simp
  have tab: "cache_idx_table (s\<lparr>clock_hand := x\<rparr>) = cache_idx_table s" for x and s :: "'d cached_ftl" by simp
  show ?thesis
    by (subst CACHE_SELECT_VICTIM.simps)
      (simp only: Let_def at_hand_fields(1,2) tab u hand idx get fin bind.bind_lunit)
qed

text \<open>The hand clears the bits of the entries it passes.\<close>

lemma CACHE_SELECT_VICTIM_pass:
  assumes h: "h < length es" and n: "CACHE_IDX_SIZE g = int (length es)" "CACHE_IDX_SIZE g < 2147483648"
    and k: "k \<le> length es" "\<forall>e\<in>set (take k es). clock_bit e"
  shows "CACHE_SELECT_VICTIM g (at_hand h es s) = CACHE_SELECT_VICTIM g
    (at_hand ((h + k) mod length es) (drop k es @ map (clock_bit_update (\<lambda>_. False)) (take k es)) s)"
  using assms
proof (induction k arbitrary: h es)
  case 0
  then show ?case by simp
next
  case (Suc k)
  then obtain e fs where es: "es = e # fs" by (cases es) auto
  let ?c = "clock_bit_update (\<lambda>_. False)" and ?n = "length es"
  have e: "clock_bit e" and fs: "\<forall>e\<in>set (take k fs). clock_bit e" "k \<le> length fs" using Suc.prems es by auto
  have "CACHE_SELECT_VICTIM g (at_hand h es s) = CACHE_SELECT_VICTIM g (at_hand (Suc h mod ?n) (fs @ [?c e]) s)"
    using CACHE_SELECT_VICTIM_step [of h e fs g s] Suc.prems e es by (simp add: Let_def)
  also have "\<dots> = CACHE_SELECT_VICTIM g (at_hand ((Suc h mod ?n + k) mod length (fs @ [?c e]))
      (drop k (fs @ [?c e]) @ map ?c (take k (fs @ [?c e]))) s)"
    using Suc.prems es fs by (intro Suc.IH) simp_all
  also have "(Suc h mod ?n + k) mod length (fs @ [?c e]) = (h + Suc k) mod ?n" by (simp add: es mod_add_left_eq)
  also have "drop k (fs @ [?c e]) @ map ?c (take k (fs @ [?c e])) = drop (Suc k) es @ map ?c (take (Suc k) es)"
    using fs es by simp
  finally show ?case .
qed

text \<open>
  The reference: from the hand on, the first entry whose bit is clear, or the entry at the hand
  if all bits are set. The entries before it lose their bit, it gets its own, and the hand
  stands behind it.
\<close>

definition clock_victim :: "nat \<Rightarrow> cache_idx_entry list \<Rightarrow> 'd cached_ftl \<Rightarrow> int \<times> 'd cached_ftl" where
  "clock_victim h es s =
     (let k = length (takeWhile clock_bit es);
          passed = map (clock_bit_update (\<lambda>_. False));
          chosen = clock_bit_update (\<lambda>_. True);
          v = (h + k) mod length es
      in (int v, at_hand (Suc v mod length es)
            (if k < length es then drop (Suc k) es @ passed (take k es) @ [chosen (es ! k)]
             else passed (tl es) @ [chosen (hd es)]) s))"

lemma CACHE_SELECT_VICTIM_eq:
  assumes h: "h < length es" and n: "CACHE_IDX_SIZE g = int (length es)" "CACHE_IDX_SIZE g < 2147483648"
  shows "CACHE_SELECT_VICTIM g (at_hand h es s) = Some (clock_victim h es s)"
proof -
  let ?k = "length (takeWhile clock_bit es)" and ?n = "length es" and ?c = "clock_bit_update (\<lambda>_. False)"
  have k: "?k \<le> ?n" by (rule length_takeWhile_le)
  have tk: "\<forall>e\<in>set (take ?k es). clock_bit e" using set_takeWhileD [of _ clock_bit es] by (metis takeWhile_eq_take)
  note p = CACHE_SELECT_VICTIM_pass [OF h n k tk, of s]
  have n0: "0 < ?n" using h by linarith
  show ?thesis
  proof (cases "?k < ?n")
    case True
    let ?rest = "drop (Suc ?k) es @ map ?c (take ?k es)"
    have c: "\<not> clock_bit (es ! ?k)" by (rule nth_length_takeWhile [OF True])
    have d: "drop ?k es @ map ?c (take ?k es) = es ! ?k # ?rest" using Cons_nth_drop_Suc [OF True, symmetric] by simp
    have l: "length (es ! ?k # ?rest) = ?n" using True by simp
    have hk: "(h + ?k) mod ?n < length (es ! ?k # ?rest)" unfolding l using n0 by simp
    have "CACHE_SELECT_VICTIM g (at_hand ((h + ?k) mod ?n) (es ! ?k # ?rest) s) =
        Some (int ((h + ?k) mod ?n), at_hand (Suc ((h + ?k) mod ?n) mod ?n) (?rest @ [(es ! ?k)\<lparr>clock_bit := True\<rparr>]) s)"
      using CACHE_SELECT_VICTIM_step [OF hk, of g s] n c unfolding l by (simp add: Let_def)
    then show ?thesis unfolding p d clock_victim_def Let_def using True by simp
  next
    case False
    then have kn: "?k = ?n" using k by simp
    then have all: "\<forall>e\<in>set es. clock_bit e" using tk by simp
    obtain e fs where es: "es = e # fs" using h by (cases es) auto
    have r: "(h + ?n) mod ?n = h" "drop ?n es @ map ?c (take ?n es) = ?c e # map ?c fs"
      using h by simp (simp add: es)
    have "CACHE_SELECT_VICTIM g (at_hand h es s) = CACHE_SELECT_VICTIM g (at_hand h (?c e # map ?c fs) s)"
      using p unfolding kn r .
    also have "\<dots> = Some (int h, at_hand (Suc h mod ?n) (map ?c fs @ [(?c e)\<lparr>clock_bit := True\<rparr>]) s)"
      using h n es by (subst CACHE_SELECT_VICTIM_step) (simp_all add: Let_def)
    also have "\<dots> = Some (clock_victim h es s)"
      unfolding clock_victim_def Let_def kn r(1) by (simp add: es)
    finally show ?thesis .
  qed
qed

end
