(* ===== verification/Cache_Spec.thy ===== *)
theory Cache_Spec
  imports Ftl_Cache
begin

text \<open>
  What the map cache promises: its operations return and keep its tables consistent, a map
  page that was fetched is found again, and lookups and updates through the cache behave as
  on the mapping table itself.
\<close>

section \<open>Lookups through the cache\<close>

text \<open>
  \<open>cache_ok\<close>: the tables have their sizes, every entry is for an existing map page and holds a
  page of data, and a map page that counts as cached has an entry. \<open>cache_ready c g k s\<close>: in
  addition the lists of blocks are consistent and \<open>k\<close> pages are free for map pages.
\<close>

definition entry_fits :: "cache_config \<Rightarrow> cache_idx_entry \<Rightarrow> bool" where
  "entry_fits g e \<longleftrightarrow> 0 \<le> map_num e \<and> map_num e < MAP_ENTRY_NB g \<and> int (length (idx_data e)) = MAP_ENTRIES_PER_PAGE g"

definition state_fits :: "cache_config \<Rightarrow> map_state_entry \<Rightarrow> bool" where
  "state_fits g m \<longleftrightarrow> (is_cached m \<longrightarrow> (\<exists>i. cache_entry m = Some i \<and> 0 \<le> i \<and> i < CACHE_IDX_SIZE g))"

definition cache_sizes :: "cache_config \<Rightarrow> bool" where
  "cache_sizes g \<longleftrightarrow> 0 < CACHE_IDX_SIZE g \<and> CACHE_IDX_SIZE g < 2147483648 \<and> 0 < MAP_ENTRY_NB g \<and>
     MAP_ENTRY_NB g \<le> 2 ^ 29 \<and> 0 < MAP_ENTRIES_PER_PAGE g \<and> MAP_ENTRY_NB g * MAP_ENTRIES_PER_PAGE g < 2147483648"

definition cache_ok :: "cache_config \<Rightarrow> 'd cached_ftl \<Rightarrow> bool" where
  "cache_ok g s \<longleftrightarrow> cache_sizes g \<and> int (length (cache_idx_table s)) = CACHE_IDX_SIZE g \<and>
     0 \<le> clock_hand s \<and> clock_hand s < CACHE_IDX_SIZE g \<and> int (length (map_state_table s)) = MAP_ENTRY_NB g \<and>
     MAP_ENTRY_NB g * MAP_ENTRIES_PER_PAGE g \<le> int (length (mapping_table (ftl s))) \<and>
     MAP_ENTRY_NB g * MAP_ENTRIES_PER_PAGE g \<le> int (length (inverse_page_mapping_table s)) \<and>
     (\<forall>e\<in>set (cache_idx_table s). entry_fits g e) \<and> (\<forall>m\<in>set (map_state_table s). state_fits g m)"

definition cells_return :: "'d cell_io \<Rightarrow> bool" where
  "cells_return io \<longleftrightarrow> (\<forall>f b p i t d. CELL_READ io f b p i t d \<noteq> None \<and> CELL_WRITE io f b p i t d \<noteq> None)"

definition cache_ready :: "ssd_config \<Rightarrow> cache_config \<Rightarrow> nat \<Rightarrow> 'd cached_ftl \<Rightarrow> bool" where
  "cache_ready c g k s \<longleftrightarrow> cache_ok g s \<and> lists_ok c (ftl s) \<and> k \<le> card (free_pages c (ftl s))"

text \<open>What a lookup leaves alone.\<close>

definition same_maps :: "'d cached_ftl \<Rightarrow> 'd cached_ftl \<Rightarrow> bool" where
  "same_maps s s' \<longleftrightarrow> same_tables (ftl s) (ftl s') \<and> inverse_page_mapping_table s' = inverse_page_mapping_table s"

lemma same_maps_refl [simp]: "same_maps s s" by (simp add: same_maps_def same_tables_def)

lemma same_maps_trans: "same_maps s t \<Longrightarrow> same_maps t u \<Longrightarrow> same_maps s u"
  by (simp add: same_maps_def same_tables_def)

lemma agetD: "aget xs i = Some x \<Longrightarrow> x \<in> set xs"
  by (auto simp: aget_def split: if_splits intro!: nth_mem)

lemma aset_inside: "0 \<le> i \<Longrightarrow> i < int (length xs) \<Longrightarrow> aset xs i v = Some (xs[nat i := v])"
  by (simp add: aset_def)

lemma aget_inside: "0 \<le> i \<Longrightarrow> i < int (length xs) \<Longrightarrow> aget xs i = Some (xs ! nat i)"
  by (simp add: aget_def)

lemma ball_update: "\<forall>x\<in>set xs. P x \<Longrightarrow> P v \<Longrightarrow> \<forall>x\<in>set (xs[i := v]). P x"
  using set_update_subset_insert [of xs i v] by blast

lemma cache_ok_set:
  assumes "cache_ok g s" "entry_fits g e" "state_fits g m"
    and "cache_idx_table s' = (cache_idx_table s)[i := e]" "map_state_table s' = (map_state_table s)[j := m]"
    "clock_hand s' = clock_hand s" "same_maps s s'"
  shows "cache_ok g s'"
proof -
  have "\<forall>x\<in>set ((cache_idx_table s)[i := e]). entry_fits g x" "\<forall>x\<in>set ((map_state_table s)[j := m]). state_fits g x"
    by (rule ball_update; use assms(1-3) in \<open>simp add: cache_ok_def\<close>)+
  then show ?thesis using assms(1,7) unfolding cache_ok_def assms(4-6) by (simp add: same_maps_def same_tables_def)
qed

lemma set_unrotate [simp]: "set (unrotate m xs) = set xs"
  by (simp add: unrotate_def)

lemma entry_fits_bit [simp]:
  "entry_fits g (clock_bit_update f e) = entry_fits g e" "entry_fits g (update_bit_update f e) = entry_fits g e"
  by (simp_all add: entry_fits_def)

lemma clock_victim_fits:
  assumes "h < length es" "\<forall>e\<in>set es. entry_fits g e"
  obtains v h' es' where "clock_victim h es s = (int v, at_hand h' es' s)" "v < length es" "h' < length es"
    "length es' = length es" "\<forall>e\<in>set es'. entry_fits g e"
proof -
  let ?k = "length (takeWhile clock_bit es)" and ?c = "clock_bit_update (\<lambda>_. False)" and ?t = "clock_bit_update (\<lambda>_. True)"
  have ne: "es \<noteq> []" "0 < length es" using assms(1) by auto
  have lt: "?k \<le> length es" by (rule length_takeWhile_le)
  let ?x = "if ?k < length es then drop (Suc ?k) es @ map ?c (take ?k es) @ [?t (es ! ?k)] else map ?c (tl es) @ [?t (hd es)]"
  have "\<forall>e\<in>set ?x. entry_fits g e"
    using assms(2) ne by (auto dest: in_set_dropD in_set_takeD list.set_sel(2))
  moreover have "length ?x = length es" using lt ne by auto
  ultimately show thesis
    using that [of "(h + ?k) mod length es" "Suc ((h + ?k) mod length es) mod length es" ?x] ne(2)
    by (simp add: clock_victim_def Let_def)
qed

lemma SELECT_VICTIM_ok:
  assumes "cache_ok g s"
  shows "returns (CACHE_SELECT_VICTIM g s) (\<lambda>(v, s'). 0 \<le> v \<and> v < CACHE_IDX_SIZE g \<and>
    (\<exists>es h. s' = s\<lparr>cache_idx_table := es, clock_hand := h\<rparr>) \<and> cache_ok g s')"
proof -
  let ?h = "nat (clock_hand s)"
  obtain es where es: "rotate ?h (cache_idx_table s) = es" by blast
  have l: "length es = length (cache_idx_table s)" "set es = set (cache_idx_table s)" unfolding es [symmetric] by simp_all
  have k: "?h < length es" "CACHE_IDX_SIZE g = int (length es)" "CACHE_IDX_SIZE g < 2147483648" "0 \<le> clock_hand s"
    using assms by (auto simp: cache_ok_def cache_sizes_def nat_less_iff l)
  have s: "at_hand ?h es s = s" using k(4) by (simp add: at_hand_def es [symmetric])
  have "\<forall>e\<in>set es. entry_fits g e" using assms by (simp add: cache_ok_def l)
  from k(1) this obtain v h' es' where cv: "clock_victim ?h es s = (int v, at_hand h' es' s)" "v < length es" "h' < length es"
    "length es' = length es" "\<forall>e\<in>set es'. entry_fits g e" by (rule clock_victim_fits)
  have "CACHE_SELECT_VICTIM g s = Some (int v, at_hand h' es' s)"
    using CACHE_SELECT_VICTIM_eq [OF k(1-3), of s] unfolding s cv(1) .
  moreover have "cache_ok g (at_hand h' es' s)" using assms cv(3-5) k(2) by (simp add: cache_ok_def)
  moreover have "at_hand h' es' s = s\<lparr>cache_idx_table := unrotate h' es', clock_hand := int h'\<rparr>" by (simp add: at_hand_def)
  ultimately show ?thesis using cv(2) k(2) by auto
qed

text \<open>Eviction needs a free page only if the victim was changed.\<close>

lemma write_back_ok:
  assumes wf: "wf_config c" and io: "cells_return io" and ok: "lists_ok c (ftl s)" "Suc k \<le> card (free_pages c (ftl s))"
  shows "returns (write_back c io e m s) (\<lambda>(m', s'). lists_ok c (ftl s') \<and> k \<le> card (free_pages c (ftl s')) \<and> same_maps s s' \<and>
    map_state_table s' = map_state_table s \<and> cache_idx_table s' = cache_idx_table s \<and> clock_hand s' = clock_hand s)"
proof (cases "update_bit e")
  case False
  then show ?thesis using ok by (simp add: write_back_def)
next
  case True
  obtain page t where pt: "GET_NEW_PAGE c VICTIM_OVERALL (EMPTY_TABLE_ENTRY_NB c) (ftl s) = Some (page, t)" "new_page c (ftl s) (page, t)"
    using GET_NEW_PAGE_overall [OF wf ok(1), of "EMPTY_TABLE_ENTRY_NB c"] unfolding returns_def by auto
  have "free_pages c (ftl s) \<noteq> {}" using ok(2) by auto
  then obtain p where p: "page = Some p" "p \<in> free_pages c (ftl s)" "free_pages c t = free_pages c (ftl s) - {p}"
    using pt(2) by (auto simp: new_page_def split: option.splits)
  then have "k \<le> card (free_pages c t)" using ok(2) finite_free_pages [OF wf ok(1)] by simp
  moreover obtain d where "CELL_WRITE io (CALC_FLASH c (i32 (u32 p))) (CALC_BLOCK c (i32 (u32 p))) (CALC_PAGE c (i32 (u32 p))) 0 MAP_WRITE (cells s) = Some d"
    using io unfolding cells_return_def by blast
  ultimately show ?thesis
    using True pt p by (simp add: write_back_def WRITE_MAP_def REARRANGE_MAP_DATA_ENTRY_def Let_def new_page_def same_maps_def)
qed

lemma EVICT_MAP_ok:
  assumes wf: "wf_config c" and io: "cells_return io" and s: "cache_ready c g (Suc k) s"
  shows "returns (CACHE_EVICT_MAP c g io s) (\<lambda>(v, s'). 0 \<le> v \<and> v < CACHE_IDX_SIZE g \<and>
    cache_ready c g k s' \<and> same_maps s s')"
proof -
  have ok: "cache_ok g s" "lists_ok c (ftl s)" "Suc k \<le> card (free_pages c (ftl s))"
    using s by (simp_all add: cache_ready_def)
  obtain v s1 es h where v: "CACHE_SELECT_VICTIM g s = Some (v, s1)" "0 \<le> v" "v < CACHE_IDX_SIZE g" "cache_ok g s1"
    "s1 = s\<lparr>cache_idx_table := es, clock_hand := h\<rparr>" using SELECT_VICTIM_ok [OF ok(1)] unfolding returns_def by auto
  have f: "ftl s1 = ftl s" "same_maps s s1" using v(5) by (simp_all add: same_maps_def same_tables_def)
  define e where "e = cache_idx_table s1 ! nat v"
  have vin: "v < int (length (cache_idx_table s1))" using v(3,4) by (simp add: cache_ok_def)
  then have e: "aget (cache_idx_table s1) v = Some e" "e \<in> set (cache_idx_table s1)"
    using v(2) by (simp_all add: aget_def e_def)
  then have fits: "entry_fits g e" using v(4) by (simp add: cache_ok_def)
  then have num: "0 \<le> map_num e" "map_num e < int (length (map_state_table s1))"
    using v(4) by (simp_all add: entry_fits_def cache_ok_def)
  define m where "m = map_state_table s1 ! nat (map_num e)"
  have m: "aget (map_state_table s1) (map_num e) = Some m" using num by (simp add: aget_def m_def)
  obtain m2 s2 where w: "write_back c io e m s1 = Some (m2, s2)" "lists_ok c (ftl s2)" "k \<le> card (free_pages c (ftl s2))"
    "same_maps s1 s2" "map_state_table s2 = map_state_table s1" "cache_idx_table s2 = cache_idx_table s1" "clock_hand s2 = clock_hand s1"
    using write_back_ok [OF wf io, of s1 k e m] ok(2,3) f(1) unfolding returns_def by auto
  let ?m = "m2\<lparr>is_cached := False, cache_entry := None\<rparr>" and ?e = "e\<lparr>map_num := 0, clock_bit := False, update_bit := False\<rparr>"
  let ?s = "s2\<lparr>map_state_table := (map_state_table s1)[nat (map_num e) := ?m], cache_idx_table := (cache_idx_table s1)[nat v := ?e]\<rparr>"
  have "CACHE_EVICT_MAP c g io s = Some (v, ?s)"
    using v(1,2) e(1) m w num vin by (simp add: CACHE_EVICT_MAP_def aset_def)
  moreover have "entry_fits g ?e" "state_fits g ?m"
    using fits v(4) by (simp_all add: entry_fits_def cache_ok_def cache_sizes_def state_fits_def)
  then have "cache_ok g ?s"
    by (rule cache_ok_set [OF v(4)]) (use w(4-7) in \<open>simp_all add: same_maps_def\<close>)
  moreover have "same_maps s ?s" using same_maps_trans [OF f(2) w(4)] by (simp add: same_maps_def)
  ultimately show ?thesis using v(2,3) w by (simp add: cache_ready_def)
qed

lemma map_page_inside:
  assumes "cache_sizes g" "0 \<le> m" "m < MAP_ENTRY_NB g" "MAP_ENTRY_NB g * MAP_ENTRIES_PER_PAGE g \<le> int (length table)"
  shows "i32 (m * MAP_ENTRIES_PER_PAGE g) = m * MAP_ENTRIES_PER_PAGE g"
    "map_page g (m * MAP_ENTRIES_PER_PAGE g) table =
      Some (take (nat (MAP_ENTRIES_PER_PAGE g)) (drop (nat (m * MAP_ENTRIES_PER_PAGE g)) table))"
    "int (length (take (nat (MAP_ENTRIES_PER_PAGE g)) (drop (nat (m * MAP_ENTRIES_PER_PAGE g)) table))) = MAP_ENTRIES_PER_PAGE g"
proof -
  have p: "0 < MAP_ENTRIES_PER_PAGE g" "MAP_ENTRY_NB g * MAP_ENTRIES_PER_PAGE g < 2147483648"
    using assms(1) by (simp_all add: cache_sizes_def)
  have "(m + 1) * MAP_ENTRIES_PER_PAGE g \<le> MAP_ENTRY_NB g * MAP_ENTRIES_PER_PAGE g"
    using assms(3) p(1) by (intro mult_right_mono) simp_all
  then have b: "m * MAP_ENTRIES_PER_PAGE g + MAP_ENTRIES_PER_PAGE g \<le> MAP_ENTRY_NB g * MAP_ENTRIES_PER_PAGE g"
    by (simp add: distrib_right)
  have z: "0 \<le> m * MAP_ENTRIES_PER_PAGE g" using assms(2) p(1) by simp
  show "i32 (m * MAP_ENTRIES_PER_PAGE g) = m * MAP_ENTRIES_PER_PAGE g" using b p z by (simp add: i32_id)
  have le: "m * MAP_ENTRIES_PER_PAGE g + MAP_ENTRIES_PER_PAGE g \<le> int (length table)" using b assms(4) by linarith
  show "map_page g (m * MAP_ENTRIES_PER_PAGE g) table =
      Some (take (nat (MAP_ENTRIES_PER_PAGE g)) (drop (nat (m * MAP_ENTRIES_PER_PAGE g)) table))"
    using le z by (simp add: map_page_def)
  have "nat (m * MAP_ENTRIES_PER_PAGE g) + nat (MAP_ENTRIES_PER_PAGE g) \<le> length table" using le z p(1) by linarith
  then show "int (length (take (nat (MAP_ENTRIES_PER_PAGE g)) (drop (nat (m * MAP_ENTRIES_PER_PAGE g)) table))) = MAP_ENTRIES_PER_PAGE g"
    using p(1) by simp
qed

text \<open>\<open>holds s m kind i\<close>: entry \<open>i\<close> is the one that a lookup of the map page finds.\<close>

definition holds :: "'d cached_ftl \<Rightarrow> int \<Rightarrow> map_kind \<Rightarrow> int \<Rightarrow> bool" where
  "holds s m kind i \<longleftrightarrow> LOOKUP_CACHE m kind s = Some (Some i) \<and> 0 \<le> i \<and> i < int (length (cache_idx_table s)) \<and>
     clock_bit (cache_idx_table s ! nat i)"

lemma INSERT_MAP_ok:
  assumes io: "cells_return io" and s: "cache_ready c g k s" and v: "0 \<le> v" "v < CACHE_IDX_SIZE g"
    and m: "0 \<le> m" "m < MAP_ENTRY_NB g"
  shows "returns (CACHE_INSERT_MAP c g io m kind v s) (\<lambda>(i, s'). cache_ready c g k s' \<and> same_maps s s' \<and> holds s' m kind i \<and>
    idx_data (cache_idx_table s' ! nat i) = take (nat (MAP_ENTRIES_PER_PAGE g)) (drop (nat (m * MAP_ENTRIES_PER_PAGE g))
      (case kind of MAP \<Rightarrow> mapping_table (ftl s) | INV_MAP \<Rightarrow> inverse_page_mapping_table s)))"
proof -
  have ok: "cache_ok g s" "cache_sizes g" using s by (simp_all add: cache_ready_def cache_ok_def)
  let ?t = "case kind of MAP \<Rightarrow> mapping_table (ftl s) | INV_MAP \<Rightarrow> inverse_page_mapping_table s"
  have "MAP_ENTRY_NB g * MAP_ENTRIES_PER_PAGE g \<le> int (length ?t)" using ok(1) by (cases kind) (simp_all add: cache_ok_def)
  note pg = map_page_inside [OF ok(2) m this]
  let ?data = "take (nat (MAP_ENTRIES_PER_PAGE g)) (drop (nat (m * MAP_ENTRIES_PER_PAGE g)) ?t)"
  define e where "e = cache_idx_table s ! nat v"
  define ms where "ms = map_state_table s ! nat m"
  have i: "v < int (length (cache_idx_table s))" "m < int (length (map_state_table s))" using v m ok(1) by (simp_all add: cache_ok_def)
  obtain d where d: "CELL_READ io (CALC_FLASH c (map_ppn ms)) (CALC_BLOCK c (map_ppn ms)) (CALC_PAGE c (map_ppn ms)) 0 MAP_READ (cells s) = Some d"
    using io unfolding cells_return_def by blast
  have b29: "m mod 2 ^ 29 = m" using m ok(2) by (intro mod_pos_pos_trivial) (simp_all add: cache_sizes_def)
  let ?e = "e\<lparr>map_num := m, clock_bit := True, map_type := kind, update_bit := False, idx_data := ?data\<rparr>"
  let ?m = "ms\<lparr>is_cached := True, cache_entry := Some v\<rparr>"
  let ?s = "s\<lparr>cache_idx_table := (cache_idx_table s)[nat v := ?e], map_state_table := (map_state_table s)[nat m := ?m], cells := d\<rparr>"
  have eq: "CACHE_INSERT_MAP c g io m kind v s = Some (v, ?s)"
    using v m i d pg(1,2) unfolding CACHE_INSERT_MAP_def b29 by (simp add: Let_def aget_def aset_def e_def ms_def)
  have "entry_fits g ?e" "state_fits g ?m" using m v pg(3) by (simp_all only: entry_fits_def state_fits_def) simp_all
  then have "cache_ok g ?s" by (rule cache_ok_set [OF ok(1)]) (simp_all add: same_maps_def same_tables_def)
  then have "cache_ready c g k ?s" using s by (simp add: cache_ready_def)
  moreover have "holds ?s m kind v" using v m i by (simp add: holds_def LOOKUP_CACHE_def aget_def nat_less_iff)
  moreover have "same_maps s ?s" by (simp add: same_maps_def same_tables_def)
  moreover have "idx_data (cache_idx_table ?s ! nat v) = ?data" using v i by (simp add: nat_less_iff)
  ultimately show ?thesis unfolding eq returns_Some prod.case by blast
qed

lemma LOOKUP_CACHE_ok:
  assumes "cache_ok g s" "0 \<le> m" "m < MAP_ENTRY_NB g"
  shows "returns (LOOKUP_CACHE m kind s) (\<lambda>r. \<forall>i. r = Some i \<longrightarrow> 0 \<le> i \<and> i < int (length (cache_idx_table s)))"
proof -
  let ?m = "map_state_table s ! nat m"
  have i: "m < int (length (map_state_table s))" using assms by (simp add: cache_ok_def)
  then have "?m \<in> set (map_state_table s)" using assms(2) by (simp add: nat_less_iff)
  then have "state_fits g ?m" using assms(1) by (simp add: cache_ok_def)
  then show ?thesis
    using assms i by (auto simp: LOOKUP_CACHE_def aget_def state_fits_def cache_ok_def)
qed

lemma holds_again:
  assumes "holds s m kind i"
  shows "CACHE_GET_MAP c g io m kind s = Some (i, s)"
proof -
  let ?e = "cache_idx_table s ! nat i"
  have "?e\<lparr>clock_bit := True\<rparr> = ?e" using assms by (cases ?e) (simp add: holds_def)
  then have e: "s\<lparr>cache_idx_table := (cache_idx_table s)[nat i := ?e\<lparr>clock_bit := True\<rparr>]\<rparr> = s" by (simp only: list_update_id) simp
  have "CACHE_GET_MAP c g io m kind s = Some (i, s\<lparr>cache_idx_table := (cache_idx_table s)[nat i := ?e\<lparr>clock_bit := True\<rparr>]\<rparr>)"
    using assms by (simp add: CACHE_GET_MAP_def holds_def aget_def aset_def)
  then show ?thesis unfolding e .
qed

lemma CACHE_GET_MAP_ok:
  assumes wf: "wf_config c" and io: "cells_return io" and s: "cache_ready c g (Suc k) s"
    and m: "0 \<le> m" "m < MAP_ENTRY_NB g"
  shows "returns (CACHE_GET_MAP c g io m kind s) (\<lambda>(i, s'). cache_ready c g k s' \<and> same_maps s s' \<and> holds s' m kind i \<and>
    (LOOKUP_CACHE m kind s = Some None \<longrightarrow>
      idx_data (cache_idx_table s' ! nat i) = take (nat (MAP_ENTRIES_PER_PAGE g)) (drop (nat (m * MAP_ENTRIES_PER_PAGE g))
        (case kind of MAP \<Rightarrow> mapping_table (ftl s) | INV_MAP \<Rightarrow> inverse_page_mapping_table s))))"
proof -
  have ok: "cache_ok g s" using s by (simp add: cache_ready_def)
  obtain r where r: "LOOKUP_CACHE m kind s = Some r" "\<And>i. r = Some i \<Longrightarrow> 0 \<le> i \<and> i < int (length (cache_idx_table s))"
    using LOOKUP_CACHE_ok [OF ok m, of kind] unfolding returns_def by auto
  show ?thesis
  proof (cases r)
    case (Some i)
    let ?e = "(cache_idx_table s ! nat i)\<lparr>clock_bit := True\<rparr>"
    let ?s = "s\<lparr>cache_idx_table := (cache_idx_table s)[nat i := ?e]\<rparr>"
    have i: "0 \<le> i" "i < int (length (cache_idx_table s))" using r(2) Some by simp_all
    have eq: "CACHE_GET_MAP c g io m kind s = Some (i, ?s)" using r Some i by (simp add: CACHE_GET_MAP_def aget_def aset_def)
    have in': "cache_idx_table s ! nat i \<in> set (cache_idx_table s)" "map_state_table s ! 0 \<in> set (map_state_table s)"
      using i ok m by (auto simp: cache_ok_def cache_sizes_def intro!: nth_mem)
    have "cache_ok g ?s"
      by (rule cache_ok_set [OF ok, of ?e "map_state_table s ! 0" ?s "nat i" 0])
        (use ok in' in \<open>simp_all add: cache_ok_def same_maps_def same_tables_def\<close>)
    moreover have "holds ?s m kind i"
      using r(1) Some i by (auto simp: holds_def LOOKUP_CACHE_def aget_def nth_list_update split: if_splits option.splits bind_splits)
    ultimately show ?thesis
      unfolding eq using s r(1) Some by (simp add: cache_ready_def same_maps_def same_tables_def)
  next
    case None
    obtain v s1 where v: "CACHE_EVICT_MAP c g io s = Some (v, s1)" "0 \<le> v" "v < CACHE_IDX_SIZE g" "cache_ready c g k s1" "same_maps s s1"
      using EVICT_MAP_ok [OF wf io s] unfolding returns_def by auto
    have t: "(case kind of MAP \<Rightarrow> mapping_table (ftl s1) | INV_MAP \<Rightarrow> inverse_page_mapping_table s1) =
        (case kind of MAP \<Rightarrow> mapping_table (ftl s) | INV_MAP \<Rightarrow> inverse_page_mapping_table s)"
      using v(5) by (cases kind) (simp_all add: same_maps_def same_tables_def)
    have eq: "CACHE_GET_MAP c g io m kind s = CACHE_INSERT_MAP c g io m kind v s1"
      using r(1) None v(1) by (simp add: CACHE_GET_MAP_def)
    show ?thesis
      unfolding eq
      by (rule returns_mono [OF INSERT_MAP_ok [OF io v(4,2,3) m, where kind = kind]])
        (use t same_maps_trans [OF v(5)] in auto)
  qed
qed

section \<open>The cache is transparent\<close>

text \<open>The logical pages that the map pages cover.\<close>

definition covered :: "cache_config \<Rightarrow> int \<Rightarrow> bool" where
  "covered g lpn \<longleftrightarrow> 0 \<le> lpn \<and> lpn < MAP_ENTRY_NB g * MAP_ENTRIES_PER_PAGE g"

lemma covered_index:
  assumes "cache_ok g s" "covered g lpn"
  shows "map_index_of g lpn = Some (lpn div MAP_ENTRIES_PER_PAGE g)" "0 \<le> lpn div MAP_ENTRIES_PER_PAGE g"
    "lpn div MAP_ENTRIES_PER_PAGE g < MAP_ENTRY_NB g" "lpn < int (length (mapping_table (ftl s)))" "0 \<le> lpn"
proof -
  have p: "0 < MAP_ENTRIES_PER_PAGE g" "MAP_ENTRY_NB g * MAP_ENTRIES_PER_PAGE g < 2147483648"
    "MAP_ENTRY_NB g * MAP_ENTRIES_PER_PAGE g \<le> int (length (mapping_table (ftl s)))"
    using assms(1) by (simp_all add: cache_ok_def cache_sizes_def)
  have l: "0 \<le> lpn" "lpn < MAP_ENTRY_NB g * MAP_ENTRIES_PER_PAGE g" using assms(2) by (simp_all add: covered_def)
  then show "0 \<le> lpn" "lpn < int (length (mapping_table (ftl s)))" using p(3) by simp_all
  show "map_index_of g lpn = Some (lpn div MAP_ENTRIES_PER_PAGE g)" using p l by (simp add: map_index_of_def u32_id)
  show "0 \<le> lpn div MAP_ENTRIES_PER_PAGE g" using p l by (simp add: pos_imp_zdiv_nonneg_iff)
  show "lpn div MAP_ENTRIES_PER_PAGE g < MAP_ENTRY_NB g"
    using l(2) by (intro div_less_bound [OF p(1)]) simp
qed

lemma CACHE_GET_PPN_ok:
  assumes wf: "wf_config c" and io: "cells_return io" and s: "cache_ready c g (Suc k) s" and l: "covered g lpn"
  shows "returns (CACHE_GET_PPN c g io lpn s) (\<lambda>(ppn, s'). cache_ready c g k s' \<and> same_maps s s' \<and>
    ppn = mapping_table (ftl s) ! nat lpn)"
proof -
  have ok: "cache_ok g s" using s by (simp add: cache_ready_def)
  note i = covered_index [OF ok l]
  obtain j s1 where g: "CACHE_GET_MAP c g io (lpn div MAP_ENTRIES_PER_PAGE g) MAP s = Some (j, s1)" "cache_ready c g k s1" "same_maps s s1"
    using CACHE_GET_MAP_ok [OF wf io s i(2,3), of MAP] unfolding returns_def by auto
  then show ?thesis
    using i by (simp add: CACHE_GET_PPN_def GET_MAPPING_INFO_def aget_def same_maps_def same_tables_def)
qed

text \<open>
  An update goes to the mapping table itself. The copy in the cache is marked as changed, but
  keeps what it held before.
\<close>

lemma CACHE_UPDATE_PPN_ok:
  assumes wf: "wf_config c" and io: "cells_return io" and s: "cache_ready c g (Suc k) s" and l: "covered g lpn"
  shows "returns (CACHE_UPDATE_PPN c g io lpn ppn s) (\<lambda>s'. cache_ready c g k s' \<and>
    mapping_table (ftl s') = (mapping_table (ftl s))[nat lpn := ppn] \<and>
    (\<exists>i. LOOKUP_CACHE (lpn div MAP_ENTRIES_PER_PAGE g) MAP s' = Some (Some i) \<and> update_bit (cache_idx_table s' ! nat i) \<and>
      (LOOKUP_CACHE (lpn div MAP_ENTRIES_PER_PAGE g) MAP s = Some None \<longrightarrow>
        idx_data (cache_idx_table s' ! nat i) ! nat (lpn mod MAP_ENTRIES_PER_PAGE g) = mapping_table (ftl s) ! nat lpn)))"
proof -
  let ?p = "MAP_ENTRIES_PER_PAGE g" and ?m = "lpn div MAP_ENTRIES_PER_PAGE g"
  have ok: "cache_ok g s" using s by (simp add: cache_ready_def)
  note i = covered_index [OF ok l]
  obtain j s1 where g: "CACHE_GET_MAP c g io ?m MAP s = Some (j, s1)" "cache_ready c g k s1" "same_maps s s1" "holds s1 ?m MAP j"
    "LOOKUP_CACHE ?m MAP s = Some None \<Longrightarrow>
      idx_data (cache_idx_table s1 ! nat j) = take (nat ?p) (drop (nat (?m * ?p)) (mapping_table (ftl s)))"
    using CACHE_GET_MAP_ok [OF wf io s i(2,3), of MAP] unfolding returns_def by auto
  have j: "0 \<le> j" "j < int (length (cache_idx_table s1))" using g(4) by (simp_all add: holds_def)
  have tab: "mapping_table (ftl s1) = mapping_table (ftl s)" using g(3) by (simp add: same_maps_def same_tables_def)
  let ?e = "(cache_idx_table s1 ! nat j)\<lparr>update_bit := True\<rparr>"
  let ?s = "s1\<lparr>cache_idx_table := (cache_idx_table s1)[nat j := ?e], ftl := (ftl s1)\<lparr>mapping_table := (mapping_table (ftl s))[nat lpn := ppn]\<rparr>\<rparr>"
  have eq: "CACHE_UPDATE_PPN c g io lpn ppn s = Some ?s"
    using g(1) i j by (simp add: CACHE_UPDATE_PPN_def set_update_bit_def aget_def aset_def tab)
  have "cache_idx_table s1 ! nat j \<in> set (cache_idx_table s1)" using j by (simp add: nat_less_iff)
  then have "entry_fits g ?e" using g(2) by (simp add: cache_ready_def cache_ok_def)
  moreover have "\<forall>e\<in>set (cache_idx_table s1). entry_fits g e" using g(2) by (simp add: cache_ready_def cache_ok_def)
  ultimately have "\<forall>e\<in>set ((cache_idx_table s1)[nat j := ?e]). entry_fits g e" by (intro ball_update)
  then have "cache_ready c g k ?s"
    using g(2) by (simp add: cache_ready_def cache_ok_def lists_ok_def free_pages_def tab)
  moreover have "LOOKUP_CACHE ?m MAP ?s = Some (Some j)"
    using g(4) j by (auto simp: holds_def LOOKUP_CACHE_def aget_def nth_list_update split: if_splits option.splits bind_splits)
  moreover have "idx_data (cache_idx_table ?s ! nat j) ! nat (lpn mod ?p) = mapping_table (ftl s) ! nat lpn"
    if miss: "LOOKUP_CACHE ?m MAP s = Some None"
  proof -
    have p: "0 < ?p" using ok by (simp add: cache_ok_def cache_sizes_def)
    have b: "0 \<le> lpn mod ?p" "lpn mod ?p < ?p" "0 \<le> ?m * ?p" using p i(2) by simp_all
    have sum: "nat (?m * ?p) + nat (lpn mod ?p) = nat lpn" using b div_mult_mod_eq [of lpn ?p] by linarith
    have "nat (?m * ?p) \<le> length (mapping_table (ftl s))" using sum i(4,5) by linarith
    then show ?thesis using g(5) [OF miss] j b sum by (simp add: nat_less_iff)
  qed
  ultimately show ?thesis unfolding eq returns_Some using j by (auto simp: nat_less_iff)
qed

text \<open>To its users the cache is the mapping table.\<close>

datatype map_op = Get_Ppn int | Update_Ppn int int

fun map_spec :: "map_op \<Rightarrow> int list \<Rightarrow> int option \<times> int list" where
  "map_spec (Get_Ppn lpn) t = (Some (t ! nat lpn), t)"
| "map_spec (Update_Ppn lpn ppn) t = (None, t[nat lpn := ppn])"

fun map_step ::
  "ssd_config \<Rightarrow> cache_config \<Rightarrow> 'd cell_io \<Rightarrow> map_op \<Rightarrow> 'd cached_ftl \<Rightarrow> (int option \<times> 'd cached_ftl) option" where
  "map_step c g io (Get_Ppn lpn) s = do {
     (ppn, s) \<leftarrow> CACHE_GET_PPN c g io lpn s;
     Some (Some ppn, s)
   }"
| "map_step c g io (Update_Ppn lpn ppn) s = do {
     s \<leftarrow> CACHE_UPDATE_PPN c g io lpn ppn s;
     Some (None, s)
   }"

fun map_allowed :: "cache_config \<Rightarrow> map_op \<Rightarrow> bool" where
  "map_allowed g (Get_Ppn lpn) \<longleftrightarrow> covered g lpn"
| "map_allowed g (Update_Ppn lpn ppn) \<longleftrightarrow> covered g lpn"

lemma map_step_refines:
  assumes "wf_config c" "cells_return io" "cache_ready c g (Suc k) s" "map_allowed g x"
  shows "returns (map_step c g io x s) (\<lambda>(r, s'). cache_ready c g k s' \<and>
    (r, mapping_table (ftl s')) = map_spec x (mapping_table (ftl s)))"
proof (cases x)
  case (Get_Ppn lpn)
  then show ?thesis
    using CACHE_GET_PPN_ok [OF assms(1-3), of lpn] assms(4)
    by (auto simp: returns_def same_maps_def same_tables_def)
next
  case (Update_Ppn lpn ppn)
  then show ?thesis using CACHE_UPDATE_PPN_ok [OF assms(1-3), of lpn ppn] assms(4) by (auto simp: returns_def)
qed

interpretation cached_map: implements "map_step c g io" map_spec "\<lambda>s. mapping_table (ftl s)"
  "\<lambda>k s. wf_config c \<and> cells_return io \<and> cache_ready c g k s" "map_allowed g"
  for c g and io :: "'d cell_io"
proof
  fix k x and s :: "'d cached_ftl"
  assume h: "wf_config c \<and> cells_return io \<and> cache_ready c g (Suc k) s" and x: "map_allowed g x"
  from map_step_refines [OF _ _ _ x, of c io k s] h
  show "returns (map_step c g io x s) (\<lambda>(r, s'). (wf_config c \<and> cells_return io \<and> cache_ready c g k s') \<and>
      (r, mapping_table (ftl s')) = map_spec x (mapping_table (ftl s)))" by simp
qed

section \<open>A new cache\<close>

lemma init_map_state_ok:
  assumes wf: "wf_config c" and s: "lists_ok c (ftl s)" "Suc k \<le> card (free_pages c (ftl s))"
    and i: "0 \<le> i" "i < int (length (map_state_table s))" and m: "\<forall>m\<in>set (map_state_table s). \<not> is_cached m"
  shows "returns (init_map_state c i (p, s)) (\<lambda>(p', s'). lists_ok c (ftl s') \<and> k \<le> card (free_pages c (ftl s')) \<and>
    same_tables (ftl s) (ftl s') \<and> (\<forall>m\<in>set (map_state_table s'). \<not> is_cached m) \<and>
    length (map_state_table s') = length (map_state_table s) \<and> cache_idx_table s' = cache_idx_table s \<and>
    clock_hand s' = clock_hand s \<and> inverse_page_mapping_table s' = inverse_page_mapping_table s)"
proof -
  obtain page t where pt: "GET_NEW_PAGE c VICTIM_OVERALL (EMPTY_TABLE_ENTRY_NB c) (ftl s) = Some (page, t)" "new_page c (ftl s) (page, t)"
    using GET_NEW_PAGE_overall [OF wf s(1), of "EMPTY_TABLE_ENTRY_NB c"] unfolding returns_def by auto
  have "free_pages c (ftl s) \<noteq> {}" using s(2) by auto
  then obtain q where q: "page = Some q" "q \<in> free_pages c (ftl s)" "free_pages c t = free_pages c (ftl s) - {q}"
    using pt(2) by (auto simp: new_page_def split: option.splits)
  then have "k \<le> card (free_pages c t)" using s(2) finite_free_pages [OF wf s(1)] by simp
  moreover have "\<forall>m\<in>set ((map_state_table s)[nat i := \<lparr>map_ppn = q, is_cached = False, cache_entry = None\<rparr>]). \<not> is_cached m"
    by (rule ball_update [OF m]) simp
  ultimately show ?thesis using pt q i by (auto simp: init_map_state_def aset_def new_page_def)
qed

lemma init_map_states_ok:
  assumes wf: "wf_config c" and s: "lists_ok c (ftl s)" "length is + k \<le> card (free_pages c (ftl s))"
    and i: "\<forall>i\<in>set is. 0 \<le> i \<and> i < int (length (map_state_table s))" and m: "\<forall>m\<in>set (map_state_table s). \<not> is_cached m"
  shows "returns (ofold (init_map_state c) is (p, s)) (\<lambda>(p', s'). lists_ok c (ftl s') \<and> k \<le> card (free_pages c (ftl s')) \<and>
    same_tables (ftl s) (ftl s') \<and> (\<forall>m\<in>set (map_state_table s'). \<not> is_cached m) \<and>
    length (map_state_table s') = length (map_state_table s) \<and> cache_idx_table s' = cache_idx_table s \<and>
    clock_hand s' = clock_hand s \<and> inverse_page_mapping_table s' = inverse_page_mapping_table s)"
  using s i m
proof (induction "is" arbitrary: p s)
  case Nil
  then show ?case by (simp add: same_tables_def)
next
  case (Cons i xs)
  have c: "Suc (length xs + k) \<le> card (free_pages c (ftl s))" using Cons.prems(2) by simp
  obtain p1 s1 where s1: "init_map_state c i (p, s) = Some (p1, s1)" "lists_ok c (ftl s1)" "length xs + k \<le> card (free_pages c (ftl s1))"
    "same_tables (ftl s) (ftl s1)" "\<forall>m\<in>set (map_state_table s1). \<not> is_cached m" "length (map_state_table s1) = length (map_state_table s)"
    "cache_idx_table s1 = cache_idx_table s" "clock_hand s1 = clock_hand s" "inverse_page_mapping_table s1 = inverse_page_mapping_table s"
    using init_map_state_ok [OF wf Cons.prems(1) c, of i p] Cons.prems(3,4) unfolding returns_def by auto
  have "\<forall>i\<in>set xs. 0 \<le> i \<and> i < int (length (map_state_table s1))" using Cons.prems(3) s1(6) by simp
  from Cons.IH [OF s1(2,3) this s1(5), of p1] show ?case
    using s1(1,4,6-9) by (auto simp: returns_def same_tables_def)
qed

lemma INIT_CACHE_ready:
  assumes wf: "wf_config c" and g: "cache_sizes g" and s: "lists_ok c (ftl s)"
    and k: "nat (MAP_ENTRY_NB g) + k \<le> card (free_pages c (ftl s))"
    and t: "MAP_ENTRY_NB g * MAP_ENTRIES_PER_PAGE g \<le> int (length (mapping_table (ftl s)))"
      "MAP_ENTRY_NB g * MAP_ENTRIES_PER_PAGE g \<le> int (length (inverse_page_mapping_table s))"
  shows "returns (INIT_CACHE c g False s) (\<lambda>s'. cache_ready c g k s' \<and> same_maps s s' \<and>
    (\<forall>m kind. 0 \<le> m \<longrightarrow> m < MAP_ENTRY_NB g \<longrightarrow> LOOKUP_CACHE m kind s' = Some None))"
proof -
  let ?e = "\<lparr>map_num = 0, clock_bit = False, map_type = MAP, update_bit = False,
      idx_data = replicate (nat (MAP_ENTRIES_PER_PAGE g)) 0\<rparr>"
  let ?s = "s\<lparr>cache_idx_table := replicate (nat (CACHE_IDX_SIZE g)) ?e, clock_hand := 0,
      map_state_table := replicate (nat (MAP_ENTRY_NB g)) \<lparr>map_ppn = 0, is_cached = False, cache_entry = None\<rparr>\<rparr>"
  have z: "0 < MAP_ENTRY_NB g" "0 < MAP_ENTRIES_PER_PAGE g" "0 < CACHE_IDX_SIZE g" using g by (simp_all add: cache_sizes_def)
  obtain p s1 where s1: "ofold (init_map_state c) [0..MAP_ENTRY_NB g - 1] (None, ?s) = Some (p, s1)"
    "lists_ok c (ftl s1)" "k \<le> card (free_pages c (ftl s1))" "same_tables (ftl s) (ftl s1)"
    "\<forall>m\<in>set (map_state_table s1). \<not> is_cached m" "length (map_state_table s1) = nat (MAP_ENTRY_NB g)"
    "cache_idx_table s1 = replicate (nat (CACHE_IDX_SIZE g)) ?e" "clock_hand s1 = 0"
    "inverse_page_mapping_table s1 = inverse_page_mapping_table s"
    using init_map_states_ok [OF wf, of ?s "[0..MAP_ENTRY_NB g - 1]" k None] s k z unfolding returns_def by auto
  let ?r = "s1\<lparr>cache_map_data := [], cache_map_data_nb := 0\<rparr>"
  have eq: "INIT_CACHE c g False s = Some ?r" using s1(1) by (simp add: INIT_CACHE_def Let_def)
  have "cache_ok g ?r"
    using s1(4-9) z t g by (auto simp: cache_ok_def entry_fits_def state_fits_def same_tables_def)
  moreover have "LOOKUP_CACHE m kind ?r = Some None" if "0 \<le> m" "m < MAP_ENTRY_NB g" for m kind
  proof -
    have "map_state_table s1 ! nat m \<in> set (map_state_table s1)" using that s1(6) by (simp add: nat_less_iff)
    then show ?thesis using that s1(5,6) by (simp add: LOOKUP_CACHE_def aget_def)
  qed
  ultimately show ?thesis unfolding eq using s1 by (simp add: cache_ready_def same_maps_def)
qed

text \<open>One state per map page serves both kinds of map: caching one kind hides the other.\<close>

lemma holds_hides:
  assumes "holds s m kind i" "kind' \<noteq> kind"
  shows "LOOKUP_CACHE m kind' s = Some None"
proof -
  have l: "LOOKUP_CACHE m kind s = Some (Some i)" using assms(1) by (simp add: holds_def)
  then obtain x where x: "aget (map_state_table s) m = Some x" by (cases "aget (map_state_table s) m") (auto simp: LOOKUP_CACHE_def)
  then have "is_cached x" using l by (cases "is_cached x") (auto simp: LOOKUP_CACHE_def)
  moreover from this obtain j where "cache_entry x = Some j" using l x by (cases "cache_entry x") (auto simp: LOOKUP_CACHE_def)
  moreover from calculation obtain e where "aget (cache_idx_table s) j = Some e"
    using l x by (cases "aget (cache_idx_table s) j") (auto simp: LOOKUP_CACHE_def)
  ultimately show ?thesis using l x assms(2) by (simp add: LOOKUP_CACHE_def split: if_splits)
qed

end
