(* ===== verification/Small_Cache.thy ===== *)
theory Small_Cache
  imports Small_Device Cache_Spec
begin

text \<open>
  A concrete map cache with two entries for three map pages of four logical pages each, on the
  tables of the small device. Its flash cells count the accesses.
\<close>

definition small_cells :: "nat cell_io" where
  "small_cells = \<lparr>CELL_READ = (\<lambda>f b p i t n. Some (n + 1)), CELL_WRITE = (\<lambda>f b p i t n. Some (n + 1))\<rparr>"

definition small_geometry :: cache_config where
  "small_geometry = \<lparr>CACHE_IDX_SIZE = 2, MAP_ENTRIES_PER_PAGE = 4, MAP_ENTRY_NB = 3\<rparr>"

definition no_cache :: "nat cached_ftl" where
  "no_cache = \<lparr>cache_idx_table = [], map_state_table = [], clock_hand = 0, cache_map_data = [], cache_map_data_nb = 0,
     inverse_page_mapping_table = replicate 12 (-1), ftl = worn, cells = 0\<rparr>"

definition small_cache :: "nat cached_ftl" where
  "small_cache = (case INIT_CACHE small small_geometry False no_cache of Some s \<Rightarrow> s | None \<Rightarrow> no_cache)"

lemma small_cells_return: "cells_return small_cells"
  by (simp add: cells_return_def small_cells_def)

lemma small_geometry_sizes: "cache_sizes small_geometry"
  by (simp add: cache_sizes_def small_geometry_def)

lemma small_cache_ready:
  "INIT_CACHE small small_geometry False no_cache = Some small_cache"
  "cache_ready small small_geometry 4 small_cache" "mapping_table (ftl small_cache) = mapping_table worn"
  "0 \<le> m \<Longrightarrow> m < 3 \<Longrightarrow> LOOKUP_CACHE m kind small_cache = Some None"
proof -
  have "returns (INIT_CACHE small small_geometry False no_cache) (\<lambda>s'. cache_ready small small_geometry 4 s' \<and> same_maps no_cache s' \<and>
      (\<forall>m kind. 0 \<le> m \<longrightarrow> m < MAP_ENTRY_NB small_geometry \<longrightarrow> LOOKUP_CACHE m kind s' = Some None))"
    by (rule INIT_CACHE_ready [OF small_derived(2) small_geometry_sizes])
      (simp_all add: no_cache_def worn_lists worn_free small_geometry_def)
  then obtain s where s: "INIT_CACHE small small_geometry False no_cache = Some s" "cache_ready small small_geometry 4 s" "same_maps no_cache s"
    "\<forall>m kind. 0 \<le> m \<longrightarrow> m < 3 \<longrightarrow> LOOKUP_CACHE m kind s = Some None"
    by (auto simp: returns_def small_geometry_def)
  moreover have e: "small_cache = s" using s(1) by (simp add: small_cache_def)
  ultimately show "INIT_CACHE small small_geometry False no_cache = Some small_cache"
    "cache_ready small small_geometry 4 small_cache" "mapping_table (ftl small_cache) = mapping_table worn"
    "0 \<le> m \<Longrightarrow> m < 3 \<Longrightarrow> LOOKUP_CACHE m kind small_cache = Some None"
    by (simp_all add: same_maps_def same_tables_def no_cache_def)
qed

lemma small_covered: "0 \<le> lpn \<Longrightarrow> lpn < 12 \<Longrightarrow> covered small_geometry lpn"
  by (simp add: covered_def small_geometry_def)

text \<open>An entry of the index table with a given clock bit.\<close>

definition bit_entry :: "int \<Rightarrow> bool \<Rightarrow> cache_idx_entry" where
  "bit_entry n b = \<lparr>map_num = n, clock_bit = b, map_type = MAP, update_bit = False, idx_data = []\<rparr>"

end
