(* ===== verification/Spec2Isabelle.thy ===== *)
theory Spec2Isabelle
  imports Qemu_Overhead Small_Device Small_Buffered Small_Threads Small_Cache
begin

text \<open>
  VSSIM, a simulator of a solid state disk: the page-mapping flash translation layer (FTL), the
  timing of the flash chips under it, and the functions of the firmware that a host calls.

  \<^bold>\<open>The program.\<close> A host reads and writes ranges of sectors with \<^verbatim>\<open>SSD_READ\<close> and \<^verbatim>\<open>SSD_WRITE\<close>
  (\<^verbatim>\<open>FIRMWARE/ssd.c\<close>). The FTL (\<^verbatim>\<open>FTL/PAGE_MAP/ftl.c\<close>) splits a range into logical pages. For a
  write it takes a new physical page for each of them from the list of empty blocks, marks the
  old page invalid, and afterwards lets the garbage collector empty blocks when few are left.
  Every page access goes to the I/O manager (\<^verbatim>\<open>SSD_MODULE/ssd_io_manager.c\<close>), which
  simulates the chips by busy waiting on the clock, and which stamps the pages of the request
  in the performance manager (\<^verbatim>\<open>FTL/COMMON/ftl_perf_manager.c\<close>). No user data is stored: what
  the device keeps is the mapping.

  Three options of the build add parts to this. With \<^verbatim>\<open>FIRM_IO_BUFFER\<close>, requests wait in an event
  queue and their sectors in a write and a read buffer (\<^verbatim>\<open>FIRMWARE/firm_buffer_manager.c\<close>) until the
  buffer is full or a read depends on them. With \<^verbatim>\<open>SSD_THREAD\<close>, a second thread takes the
  requests from the queue. With \<^verbatim>\<open>FTL_MAP_CACHE\<close>, accesses to the mapping pass through a cache of
  map pages (\<^verbatim>\<open>FTL/PAGE_MAP/ftl_cache.c\<close>).

  The development models the build of \<^verbatim>\<open>LOCAL/makefile\<close>, \<^verbatim>\<open>PAGE_MAP\<close> with \<^verbatim>\<open>GC_ON\<close>,
  \<^verbatim>\<open>GC_TRIGGER_OVERALL\<close> and \<^verbatim>\<open>VSSIM_BENCH\<close>, then the same build with the firmware buffer, with the
  buffer and the thread in both of its modes, and the functions of the map cache.

  \<^bold>\<open>Conventions.\<close> A C function is a function on an explicit state with an \<open>option\<close> result.
  \<open>None\<close> stands for undefined behaviour (an index out of bounds, a NULL pointer followed, a
  division by zero, a signed overflow) and, for the loops that are \<open>partial_function\<close>s or
  \<open>while_option\<close>s, for a loop that does not end. \<open>returns m Q\<close> says that \<open>m\<close> is
  \<open>Some x\<close> with \<open>Q x\<close>: every theorem of that form includes termination and the absence of
  undefined behaviour, and no fuel is used anywhere. Integers are \<open>int\<close> with the conversions
  \<open>u32\<close> and \<open>i32\<close> written out where the C code can wrap around; request numbers are 32-bit
  and the bit-fields of a request 16-bit words; \<^verbatim>\<open>double\<close> is \<open>real\<close>. Time stamps, an
  \<^verbatim>\<open>int64_t\<close> number of microseconds, are taken not to overflow, and memory allocation to
  succeed. \<^verbatim>\<open>gettimeofday\<close> is the parameter \<open>gt\<close>, the sequence of the values it returns; the
  theorems about waiting assume that it passes every moment (\<open>clock_advances\<close>). Files are
  parameters too: the text of \<^verbatim>\<open>ssd.conf\<close> and the records of the saved tables.

  \<^bold>\<open>Theories.\<close>
  \<^item> \<open>Vssim_Prelude\<close>: C arithmetic, arrays, the total correctness predicate \<open>returns\<close> with its
    rules (collection \<open>vc\<close>), loops over ranges, and the locale \<open>implements\<close>: a component
    whose steps refine a specification does so for sequences of steps.
  \<^item> \<open>Vssim_Config\<close> (\<^verbatim>\<open>CONFIG/vssim_config_manager.c\<close>): the configuration globals (record
    \<open>ssd_config\<close>), the parser and the derived values of \<^verbatim>\<open>INIT_SSD_CONFIG\<close>.
  \<^item> \<open>Vssim_Common\<close> (\<^verbatim>\<open>FTL/COMMON/common.h\<close>): constants, the clock, how a request is split into
    pages, and the well-formedness of a configuration (\<open>wf_config\<close>), which every configuration
    accepted by \<open>valid_conf\<close> gets.
  \<^item> \<open>Perf_Manager\<close>: pending requests (record \<open>io_request\<close>, the list \<open>io_requests\<close>) and
    statistics; one definition per function of \<^verbatim>\<open>ftl_perf_manager.c\<close>. Lemmas: the list stays well
    formed, the life of a request, its latency, the averages.
  \<^item> \<open>Io_Manager\<close>: the arrays with one entry per register (record \<open>io_state\<close>, which extends
    the performance state) and all functions of \<^verbatim>\<open>ssd_io_manager.c\<close>. Lemmas: the invariant
    \<open>io_inv\<close> and \<open>io_good\<close>, that all waits end, and, in the locales \<open>register_op\<close> and
    \<open>register_seq\<close>, what the delay functions of a register have in common. \<open>Qemu_Overhead\<close>: the
    function that takes the time spent by the emulator off all time stamps.
  \<^item> \<open>Block_Manager\<close> (\<^verbatim>\<open>ftl_inverse_mapping_manager.c\<close>): block states and the lists of empty
    and victim blocks (record \<open>ftl_state\<close>; a linked list is the list of its entries). Lemmas:
    \<open>lists_ok\<close> and \<open>blocks_ok\<close> are kept, list operations in terms of \<open>put_chains\<close>, the
    searches of \<^verbatim>\<open>GET_EMPTY_BLOCK\<close> end and find an open block if one exists.
  \<^item> \<open>Mapping_Manager\<close> (\<^verbatim>\<open>ftl_mapping_manager.c\<close>): the mapping and page allocation. The
    invariant \<open>ftl_inv\<close>, and the locale \<open>page_source\<close>: what its users need from a way to get a
    new page, interpreted for the three modes.
  \<^item> \<open>Gc_Manager\<close> (\<^verbatim>\<open>ftl_gc_manager.c\<close>): victim selection, the copy loop, collection.
  \<^item> \<open>Ftl_Tables\<close>: creating, saving and loading the tables.
  \<^item> \<open>Ftl\<close> (\<^verbatim>\<open>ftl.c\<close>, \<^verbatim>\<open>ssd.c\<close>): start, stop, read and write of the whole device (record \<open>ssd\<close>).
  \<^item> \<open>Ftl_Runs\<close>: starting, stopping, the states reached by a device (\<open>reached\<close>), and a device
    without free pages. \<open>Provisioning\<close>: with spare blocks, garbage collection always finds
    enough. \<open>Host_Spec\<close>: the specification the host sees, as an instance of \<open>implements\<close>.
  \<^item> \<open>Firm_Buffer\<close> (\<^verbatim>\<open>firm_buffer_manager.c\<close>): the events, the queues and the two ring buffers
    (record \<open>io_buffer\<close>; a pointer into a buffer is a frame number, a queue the list of its
    entries) and the functions that work on them alone. \<open>Firm_Device\<close>: the functions that also call
    the FTL (\<open>firm\<close> is the pair of buffer and device), and the functions of \<^verbatim>\<open>ftl.c\<close> and
    \<^verbatim>\<open>ssd.c\<close> as compiled with the buffer, with the suffix \<open>_buffered\<close>.
  \<^item> \<open>Firm_Ring\<close> and \<open>Firm_Layout\<close>: the buffer read from its limit pointer on, what the
    loops over its marks do (locale \<open>marking_loop\<close>), and how the pending events lie in it.
    \<open>Firm_Inv\<close>: the invariant \<open>firm_inv\<close> and that every operation keeps it. \<open>Firm_Spec\<close>: what the
    host sees, as an instance of \<open>implements\<close>. \<open>Firm_Accounts\<close>: what the invariant says of the
    counters and pointers, flushing, and writes that are too long.
  \<^item> \<open>Firm_Threads\<close>: host and device thread as inductive step relations, the wait of mode 1, and
    the simulation between mode 2 and the build without threads.
  \<^item> \<open>Ftl_Cache\<close> (\<^verbatim>\<open>ftl_cache.c\<close>): the cache (record \<open>cached_ftl\<close>) and its clock algorithm.
    \<open>Cache_Spec\<close>: its invariant, and lookups and updates as an instance of \<open>implements\<close>.
  \<^item> \<open>Small_Device\<close>, \<open>Small_Buffered\<close>, \<open>Small_Threads\<close>, \<open>Small_Cache\<close>: concrete devices,
    buffers and caches on which the theorems below are instantiated.

  \<^bold>\<open>Results.\<close> C1 to C9 are about the whole device: it implements the set of written pages as
  long as there are spare blocks, its tables stay consistent, requests return, a restart keeps
  everything, and a full device stays full. C10 to C15 are about the device with the firmware
  buffer: no write is lost, no read overtakes a write, the counters and pointers agree, and two
  ways in which the buffer goes wrong. C16 to C18 are about the thread: mode 2 computes what
  the build without threads computes, mode 1 can wait forever. C19 to C21 are about garbage
  collection, C22 to C25 about page allocation and block lists, C26 to C28 about the mapping, C29 about the
  configuration, C30 to C35 about requests and statistics, C36 and C37 about the chips, C38 to C40
  about the map cache.

  \<^bold>\<open>Bounds.\<close> Requests have between 1 and 32767 pages and lie inside the device
  (\<open>in_range\<close>): the size of a request is a signed 16-bit field. Runs have fewer than 4294967295
  requests between two starts: then the code would use a request number that equals its
  marker -1, and after it numbers that may still be in use. Garbage collection is verified for one plane
  per chip, the value of the shipped configuration; C24 shows why not for two. With the firmware
  buffer a request fits into its buffer, and the pages of a full write buffer are no more than
  the \<open>n\<close> pages that spare blocks are provided for (\<open>buffer_pages\<close>): a pending write must find
  its pages when it is flushed. C15 shows what longer requests do. The map cache covers
  \<^verbatim>\<open>MAP_ENTRY_NB * MAP_ENTRIES_PER_PAGE\<close> logical pages, and every operation on it may use up one free page.

  \<^bold>\<open>Not modelled.\<close> \<^verbatim>\<open>CELL_READ\<close> and \<^verbatim>\<open>CELL_WRITE\<close>, which the map cache calls and no compiled source
  defines, are parameters. The steps of the threads are their critical sections: data races
  inside of them and the scheduler are not modelled. The calls of \<^verbatim>\<open>SSD_UPDATE_QEMU_OVERHEAD\<close> from
  the delay functions are compiled for QEMU only. The trim manager has its bodies commented out. The printing
  functions, the log sockets, the monitor, and the vendored QEMU have no state that the device reads.
\<close>

section \<open>The device and its host\<close>

text \<open>
  C1. Refinement. With spare blocks for the logical pages \<open>U\<close>, the device implements its
  specification: for every sequence of reads, of writes to at most \<open>n\<close> pages of \<open>U\<close> each, and
  of restarts, all operations return, with the results the specification gives for the set of
  logical pages written so far, and afterwards exactly the pages in that set are mapped. In
  particular no write ever fails, and a read succeeds iff all its pages were written.
\<close>

theorem device_implements_spec:
  assumes "surroundings gt c conf s0 n U" and "ready_for c U (length xs) s"
    and "\<forall>x\<in>set xs. allowed c n U x"
  shows "returns (run_steps (run_op gt c conf d0 s0) xs s) (\<lambda>(rs, s').
    ready_for c U 0 s' \<and> (rs, mapped c (tables s')) = spec_steps (spec_op c) xs (mapped c (tables s)))"
  by (rule returns_mono [OF host.run_refines]) (use assms in auto)

theorem device_implements_spec_witness:
  "\<exists>s'. run_steps (run_op tick small (Some small_text) no_files off_ssd)
      [Host_Read 0 2, Host_Write 0 2, Host_Read 0 2, Host_Write 0 2, Host_Restart, Host_Write 2 2, Host_Read 1 2] small_ssd =
    Some ([FAIL, SUCCESS, SUCCESS, SUCCESS, SUCCESS, SUCCESS, SUCCESS], s') \<and> mapped small (tables s') = {0, 1}"
  using device_implements_spec [OF small_surroundings, of
      "[Host_Read 0 2, Host_Write 0 2, Host_Read 0 2, Host_Write 0 2, Host_Restart, Host_Write 2 2, Host_Read 1 2]" small_ssd no_files]
  by (auto simp: small_ready small_in_range small_pages small_mapped returns_def)

text \<open>
  C2. Invariant. In every state that a device with one plane per chip reaches from its first
  start by reads, successful writes and restarts, the tables are consistent, and all pending
  requests and all registers belong to requests with a smaller number than the next one.
\<close>

theorem reached_consistent:
  assumes "wf_config c" "PLANES_PER_FLASH c = 1" "clock_advances gt" "reached gt c n s"
  shows "ftl_inv c (tables s) \<and> idle c (dev s)"
  using reached_inv [OF assms] by simp

theorem reached_consistent_witness: "ftl_inv small (tables small_one) \<and> idle small (dev small_one)"
  using reached_consistent [OF small_derived(2,7) tick_advances small_one_reached] .

text \<open>
  C3. Liveness. In every reached state every read or write of existing sectors returns: none of
  the busy-waiting, retry and search loops of the code runs forever, and no array is accessed
  out of bounds.
\<close>

theorem requests_return:
  assumes "wf_config c" "PLANES_PER_FLASH c = 1" "clock_advances gt" "reached gt c n s"
    and "n < 4294967295" "in_range c sector_nb len"
  shows "(\<exists>r s'. FTL_READ_impl gt c sector_nb len s = Some (r, s')) \<and>
    (\<exists>r s'. FTL_WRITE_impl gt c sector_nb len s = Some (r, s'))"
proof -
  have i: "ftl_inv c (tables s)" "idle c (dev s)" "unat (io_request_seq_nb (dev s)) \<le> n"
    using reached_inv [OF assms(1-4)] by simp_all
  note q = seq_step(1) [OF i(3) assms(5)]
  show ?thesis
    using FTL_READ_impl_result [OF assms(1,3) i(1,2) q assms(6)] FTL_WRITE_impl_result [OF assms(1-3) i(1,2) q assms(6)]
    by (auto elim!: returnsE)
qed

theorem requests_return_witness:
  "(\<exists>r s'. FTL_READ_impl tick small 1 2 small_one = Some (r, s')) \<and>
    (\<exists>r s'. FTL_WRITE_impl tick small 1 2 small_one = Some (r, s'))"
  using requests_return [OF small_derived(2,7) tick_advances small_one_reached _ small_in_range(4)] by simp

text \<open>
  C4. Invariant. In every reached state the mapping table is one to one: a mapped logical page
  has a physical page of the device, which is marked valid and whose inverse mapping leads
  back to it, so that no two logical pages share a physical page; and it is not among the
  pages handed out to writes.
\<close>

theorem mapping_one_to_one:
  assumes "wf_config c" "PLANES_PER_FLASH c = 1" "clock_advances gt" "reached gt c n s"
    and "in_ssd c l" "ppn_of (tables s) l \<noteq> -1"
  shows "in_ssd c (ppn_of (tables s) l) \<and> lpn_of (tables s) (ppn_of (tables s) l) = l \<and>
    page_state c (tables s) (ppn_of (tables s) l) = CHR ''V'' \<and> ppn_of (tables s) l \<notin> free_pages c (tables s) \<and>
    (\<forall>l'. in_ssd c l' \<longrightarrow> ppn_of (tables s) l' = ppn_of (tables s) l \<longrightarrow> l' = l)"
proof -
  have "ftl_inv c (tables s)" using reached_inv [OF assms(1-4)] by simp
  then have m: "map_ok c UNIV (listed_pages c (tables s)) (tables s)"
    and f: "\<forall>q\<in>free_pages c (tables s). page_state c (tables s) q = CHR ''0''"
    by (simp_all add: ftl_inv_def pages_ok_def)
  have inv: "lpn_of (tables s) (ppn_of (tables s) l') = l'"
    if "in_ssd c l'" "ppn_of (tables s) l' \<noteq> -1" for l' using map_okD(2) [OF m] that by simp
  note v = map_okD(1,3) [OF m UNIV_I assms(5,6)] inv [OF assms(5,6)]
  have "ppn_of (tables s) l \<notin> free_pages c (tables s)" using f v(2) by force
  moreover have "l' = l" if "in_ssd c l'" "ppn_of (tables s) l' = ppn_of (tables s) l" for l'
    using inv [OF that(1)] that(2) assms(6) v(3) by simp
  ultimately show ?thesis using v by blast
qed

theorem mapping_one_to_one_witness:
  "in_ssd small (ppn_of (tables small_one) 0) \<and> lpn_of (tables small_one) (ppn_of (tables small_one) 0) = 0"
proof -
  have "0 \<in> mapped small (tables small_one)" using small_write(3) by simp
  then have "in_ssd small 0" "ppn_of (tables small_one) 0 \<noteq> -1" unfolding mapped_def mem_Collect_eq by blast+
  from mapping_one_to_one [OF small_derived(2,7) tick_advances small_one_reached this] show ?thesis by blast
qed

text \<open>
  C5. Functional. A write of existing sectors succeeds iff there are as many free pages as it
  touches. If it succeeds, exactly its pages become mapped and the next request number is
  used. If it fails, the free pages are used up, other pages keep their place and no page
  loses its mapping. The tables stay consistent in both cases.
\<close>

theorem write_behaviour:
  assumes "wf_config c" "PLANES_PER_FLASH c = 1" "clock_advances gt"
    and "ftl_inv c (tables s)" "idle c (dev s)" "io_request_seq_nb (dev s) \<noteq> -1"
    and "in_range c sector_nb len"
  shows "returns (FTL_WRITE_impl gt c sector_nb len s) (\<lambda>(ret, s'). ftl_inv c (tables s') \<and>
    (if card (request_pages c sector_nb len) \<le> card (free_pages c (tables s))
     then ret = SUCCESS \<and> idle c (dev s') \<and>
       io_request_seq_nb (dev s') = io_request_seq_nb (dev s) + 1 \<and>
       (\<forall>l. in_ssd c l \<longrightarrow>
          (ppn_of (tables s') l \<noteq> -1 \<longleftrightarrow> l \<in> request_pages c sector_nb len \<or> ppn_of (tables s) l \<noteq> -1))
     else ret = FAIL \<and> free_pages c (tables s') = {} \<and> io_inv c (dev s') \<and>
       io_request_seq_nb (dev s') = io_request_seq_nb (dev s) \<and>
       (\<forall>l. in_ssd c l \<longrightarrow> l \<notin> request_pages c sector_nb len \<longrightarrow> ppn_of (tables s') l = ppn_of (tables s) l) \<and>
       (\<forall>l. in_ssd c l \<longrightarrow> ppn_of (tables s) l \<noteq> -1 \<longrightarrow> ppn_of (tables s') l \<noteq> -1)))"
  using FTL_WRITE_impl_result [OF assms] by (simp add: write_result_def)

theorem write_behaviour_witness:
  "returns (FTL_WRITE_impl tick small 0 4 worn_ssd) (\<lambda>(ret, s'). ret = SUCCESS \<and> ftl_inv small (tables s'))"
  using write_behaviour [OF small_derived(2,7) tick_advances, of worn_ssd 0 4] worn_inv worn_idle small_in_range(2)
  by (auto simp: small_pages worn_free returns_def)

text \<open>
  C6. Functional. A read of existing sectors succeeds iff all its pages are mapped. It then
  leaves the tables as they are and uses the next request number; otherwise it changes nothing.
\<close>

theorem read_behaviour:
  assumes "wf_config c" "clock_advances gt" "ftl_inv c (tables s)" "idle c (dev s)"
    and "io_request_seq_nb (dev s) \<noteq> -1" "in_range c sector_nb len"
  shows "returns (FTL_READ_impl gt c sector_nb len s) (\<lambda>(ret, s').
    if \<forall>l\<in>request_pages c sector_nb len. ppn_of (tables s) l \<noteq> -1
    then ret = SUCCESS \<and> tables s' = tables s \<and> idle c (dev s') \<and>
      io_request_seq_nb (dev s') = io_request_seq_nb (dev s) + 1
    else ret = FAIL \<and> s' = s)"
  using FTL_READ_impl_result [OF assms] .

theorem read_behaviour_witness:
  "returns (FTL_READ_impl tick small 0 4 worn_ssd) (\<lambda>(ret, s'). ret = SUCCESS \<and> tables s' = worn)"
  using read_behaviour [OF small_derived(2) tick_advances, of worn_ssd 0 4] worn_inv worn_idle small_in_range(2)
  by (auto simp: small_pages returns_def)

text \<open>
  C7. Round trip. Stopping the device writes files from which the next start restores the
  tables: mapping, inverse mapping, block states and block lists. Only the rotating index of
  the block search starts again at 0 and the two counters are those of the new process.
\<close>

theorem restart_restores_tables:
  assumes "INIT_SSD_CONFIG False conf c0 = Some c" "wf_config c" "g_init s0 = 0" "ftl_inv c (tables s)"
  shows "\<exists>d. SSD_TERM c s d0 = Some d \<and>
    returns (SSD_INIT conf d (c0, s0)) (\<lambda>(c', s'). c' = c \<and> idle c (dev s') \<and>
      tables s' = (tables s)\<lparr>empty_block_table_index := 0,
        gc_count := gc_count (tables s0), fail_cnt := fail_cnt (tables s0)\<rparr>)"
proof -
  obtain d where d: "FTL_TERM c s d0 = Some d"
    using term_tables_saves [OF assms(2,4)] by (simp add: FTL_TERM_def)
  then show ?thesis
    using FTL_INIT_restart [OF assms d] by (auto simp: SSD_TERM_def SSD_INIT_def returns_def)
qed

theorem restart_restores_tables_witness:
  "\<exists>d. SSD_TERM small worn_ssd no_files = Some d \<and>
    returns (SSD_INIT (Some small_text) d (zero_config, off_ssd)) (\<lambda>(c', s'). c' = small \<and> idle small (dev s') \<and>
      mapping_table (tables s') = mapping_table worn)"
  using restart_restores_tables [OF small_config small_derived(2), of off_ssd worn_ssd no_files] worn_inv
  by (auto simp: off_ssd_def returns_def)

text \<open>
  C8. Functional. The first start, without saved files, gives a device on which every page is
  erased and free and no logical page is mapped.
\<close>

theorem first_start:
  assumes "INIT_SSD_CONFIG False conf c0 = Some c" "wf_config c" "g_init s0 = 0"
  shows "returns (SSD_INIT conf no_files (c0, s0)) (\<lambda>(c', s). c' = c \<and> ftl_inv c (tables s) \<and> idle c (dev s) \<and>
    (\<forall>q. in_ssd c q \<longrightarrow> q \<in> free_pages c (tables s) \<and> page_state c (tables s) q = CHR ''0'' \<and> ppn_of (tables s) q = -1))"
  unfolding SSD_INIT_def
  by (rule returns_mono [OF FTL_INIT_new [OF assms]])
    (use new_device_inv [OF assms(2)] new_device_free [OF assms(2)] in \<open>auto simp: new_device_def\<close>)

theorem first_start_witness:
  "returns (SSD_INIT (Some small_text) no_files (zero_config, off_ssd)) (\<lambda>(c', s). c' = small \<and> ftl_inv small (tables s) \<and>
    5 \<in> free_pages small (tables s))"
proof -
  have "g_init off_ssd = 0" "in_ssd small 5" by (simp_all add: off_ssd_def small_in_ssd)
  then show ?thesis by (intro returns_mono [OF first_start [OF small_config small_derived(2)]]) auto
qed



section \<open>The device with the firmware buffer\<close>

text \<open>
  C10. Refinement. With the firmware buffer the device implements the set of written pages:
  for every sequence of reads, of writes to pages of \<open>U\<close> and of restarts, all operations
  return, and the pages written so far are exactly those that are mapped or wait in the
  write buffer. No write is lost, neither when a later write replaces it in the buffer, nor
  when the buffer is flushed because it is full, nor at a restart.
\<close>

theorem buffered_device_implements_spec:
  assumes "firm_surroundings gt c conf f0 n U" and "firm_ready c U (length xs) f"
    and "\<forall>x\<in>set xs. buffered_allowed c U x"
  shows "returns (run_steps (run_buffered gt c conf d0 f0) xs f) (\<lambda>(rs, f').
    firm_ready c U 0 f' \<and> (rs, written_pages c f') = spec_steps (spec_buffered c) xs (written_pages c f))"
  by (rule returns_mono [OF buffered.run_refines]) (use assms in auto)

theorem buffered_device_implements_spec_witness:
  "\<exists>rs f'. run_steps (run_buffered tick buf (Some buf_text) no_files (off_buffer, off_ssd))
      [Host_Write 0 4, Host_Write 2 4, Host_Read 4 1, Host_Write 0 4, Host_Restart] buf_firm = Some (rs, f') \<and>
    written_pages buf f' = {0, 1, 2}"
proof -
  let ?xs = "[Host_Write 0 4, Host_Write 2 4, Host_Read 4 1, Host_Write 0 4, Host_Restart]"
  have "firm_ready buf {0, 1, 2, 3} (length ?xs) buf_firm" "\<forall>x\<in>set ?xs. buffered_allowed buf {0, 1, 2, 3} x"
    by (simp_all add: buf_ready buf_in_range buf_pages buf_frames)
  from buffered_device_implements_spec [OF buf_surroundings this, of no_files] obtain rs f' where
    f: "run_steps (run_buffered tick buf (Some buf_text) no_files (off_buffer, off_ssd)) ?xs buf_firm = Some (rs, f')"
    "(rs, written_pages buf f') = spec_steps (spec_buffered buf) ?xs (written_pages buf buf_firm)"
    by (auto simp: returns_def simp del: run_steps.simps spec_steps.simps)
  from f(2) have "written_pages buf f' = {0, 1, 2}" by (auto simp: buf_ready buf_pages)
  then show ?thesis using f(1) by blast
qed

text \<open>
  C11. Safety. No read overtakes a write: when a read that follows any sequence of requests
  has been accepted, it stands in the queue behind the earlier reads and before all pending
  writes, and none of these writes touches its sectors. Writes it depends on have left
  the queue before.
\<close>

theorem read_follows_writes:
  assumes "firm_surroundings gt c conf f0 n U" and "firm_ready c U (length xs + 1) f"
    and "\<forall>x\<in>set xs. buffered_allowed c U x" and "in_range c sec len" "len \<le> READ_BUFFER_FRAME_NB c"
  shows "returns (run_steps (run_buffered gt c conf d0 f0) xs f) (\<lambda>(rs, f1).
    returns (SSD_READ_buffered gt c len sec f1) (\<lambda>f'. read_issued c sec len (fst f') \<and>
      written_pages c f' = written_pages c f1))"
proof -
  have env: "firm_env gt c n U" using assms(1) by (simp add: firm_surroundings_def)
  have "returns (run_steps (run_buffered gt c conf d0 f0) xs f) (\<lambda>(rs, f1). firm_ready c U (Suc 0) f1)"
    by (rule returns_mono [OF buffered.run_refines_more [where k = 1]]) (use assms in auto)
  then show ?thesis
    by (rule returns_mono) (use SSD_READ_buffered_ready [OF env _ assms(4,5)] in \<open>fastforce elim: returns_mono\<close>)
qed

theorem read_follows_writes_witness:
  "\<exists>rs f1 f'. run_steps (run_buffered tick buf (Some buf_text) no_files (off_buffer, off_ssd))
      [Host_Write 0 4, Host_Write 2 4] buf_firm = Some (rs, f1) \<and>
    SSD_READ_buffered tick buf 1 4 f1 = Some f' \<and> read_issued buf 4 1 (fst f')"
  using read_follows_writes [OF buf_surroundings, of "[Host_Write 0 4, Host_Write 2 4]" buf_firm 4 1 no_files]
  by (auto simp: buf_ready buf_in_range buf_pages buf_frames returns_def simp del: run_steps.simps)

text \<open>
  C12. Type. After any sequence of requests the state of the firmware is well formed: all
  pointers lie inside their buffers, the counter of free write frames is the number of
  frames marked free, the frames marked valid are as many as the sectors of the pending
  valid writes, the queue holds its reads before its writes, the entry counters are the
  lengths of the queues, and the next frame the host takes belongs to the first completed
  read, so that the error message of \<^verbatim>\<open>READ_DATA_FROM_BUFFER_TO_HOST\<close> is never printed for it.
\<close>

theorem firmware_state_well_formed:
  assumes "firm_surroundings gt c conf f0 n U" and "firm_ready c U (length xs) f"
    and "\<forall>x\<in>set xs. buffered_allowed c U x"
  shows "returns (run_steps (run_buffered gt c conf d0 f0) xs f) (\<lambda>(rs, f'). accounted c (fst f'))"
  by (rule returns_mono [OF buffered.run_refines]) (use assms firm_ready_accounted in auto)

theorem firmware_state_well_formed_witness:
  "\<exists>rs f'. run_steps (run_buffered tick buf (Some buf_text) no_files (off_buffer, off_ssd))
      [Host_Write 0 4, Host_Write 2 4, Host_Read 4 1] buf_firm = Some (rs, f') \<and> accounted buf (fst f')"
  using firmware_state_well_formed [OF buf_surroundings, of "[Host_Write 0 4, Host_Write 2 4, Host_Read 4 1]" buf_firm no_files]
  by (auto simp: buf_ready buf_in_range buf_pages buf_frames returns_def simp del: run_steps.simps)

text \<open>
  C13. Liveness. Flushing a full write buffer returns with an empty queue and all frames free,
  and every page that waited in the buffer is mapped.
\<close>

theorem flush_writes_everything:
  assumes "firm_env gt c n U" "firm_ready c U k f"
  shows "returns (SECURE_WRITE_BUFFER gt c f) (\<lambda>f'. firm_ready c U k f' \<and> q_entries (e_queue (fst f')) = [] \<and>
    empty_write_buffer_frame (fst f') = WRITE_BUFFER_FRAME_NB c \<and> mapped c (tables (snd f')) = written_pages c f)"
  by (rule SECURE_WRITE_BUFFER_empties [OF assms])

theorem flush_writes_everything_witness:
  "\<exists>f'. SECURE_WRITE_BUFFER tick buf (overlap_buffer, buf_ssd) = Some f' \<and> q_entries (e_queue (fst f')) = [] \<and>
    empty_write_buffer_frame (fst f') = 8 \<and> {0, 1, 2} \<subseteq> mapped buf (tables (snd f'))"
  using flush_writes_everything [OF buf_env overlap_ready] overlap_written by (auto simp: returns_def buf_frames)

text \<open>
  C14. Functional. A read that is covered by the last pending write it depends on is served
  from the frames of that write: sector \<open>i\<close> of the read is copied from the frame that
  stands as far behind the first frame of the write as the sector behind its first sector.
  Frames that were invalidated by an overlapping write are counted too, because the
  flush that precedes the copy has removed their marks. The instance below is a read of a
  sector that was written twice: it is copied from the older of its two frames.
\<close>

theorem read_copies_by_position:
  assumes "firm_env gt c n U" "firm_inv c rs ws b" "ready_for c U (length rs + length ws + k) s"
    and "pending_pages c ws \<subseteq> U" "in_range c sec len" "len \<le> empty_read_buffer_frame b" "covering sec len b = Some w"
  shows "returns (ENQUEUE_READ gt c sec len (b, s)) (\<lambda>(b', s'). \<exists>f p.
    ev_buf (q_entries (e_queue b') ! the (last_read_entry b')) = Read_Frame f \<and> ev_buf w = Write_Frame p \<and>
    (\<forall>i<nat len. read_buffer b' ! nat ((f + int i) mod READ_BUFFER_FRAME_NB c) =
       write_buffer b ! nat ((p + (sec - ev_sector_nb w) + int i) mod WRITE_BUFFER_FRAME_NB c)))"
  by (rule returns_mono [OF ENQUEUE_READ_added [OF assms(1-6)]])
    (use assms(7) in \<open>auto simp: read_added_def firm_inv_def queued_def copied_def\<close>)

theorem read_copies_by_position_witness:
  "ENQUEUE_WRITE buf 0 3 fresh_buffer = Some first_buffer \<and> ENQUEUE_WRITE buf 1 4 first_buffer = Some overlap_buffer \<and>
   write_buffer overlap_buffer ! 3 = ''new 1'' \<and>
   (\<exists>b' s' f. ENQUEUE_READ tick buf 1 1 (overlap_buffer, buf_ssd) = Some (b', s') \<and>
     ev_buf (q_entries (e_queue b') ! the (last_read_entry b')) = Read_Frame f \<and>
     read_buffer b' ! nat (f mod 4) = ''old 1'')"
  using read_copies_by_position [OF buf_env overlap_inv _ overlap_pages, of 0 buf_ssd 1 1] first_write second_write
    overlap_covers overlap_contents buf_ssd_ready [of 1] buf_in_range(4)
  by (auto simp: returns_def buf_frames ALLOC_NEW_EVENT_def)



section \<open>The device with a thread of its own\<close>

text \<open>
  C16. Equivalence. In mode 2 the two threads compute what the build without threads computes:
  from an idle host, they can complete a sequence of requests and come back to an idle host
  with the state \<open>f'\<close> if and only if serving the requests one after the other without threads
  gives \<open>f'\<close>, however the threads interleave.
\<close>

theorem threads_equal_sequential:
  assumes "idle_at f t" "\<forall>(io_type, len, sec)\<in>set ls. io_type = READ \<or> io_type = WRITE"
  shows "(\<exists>t'. thread_run SSD_THREAD_MODE_2 gt c t ls t' \<and> idle_at f' t') \<longleftrightarrow> ofold (serve gt c) ls f = Some f'"
proof
  assume "\<exists>t'. thread_run SSD_THREAD_MODE_2 gt c t ls t' \<and> idle_at f' t'"
  then obtain t' where t': "thread_run SSD_THREAD_MODE_2 gt c t ls t'" "idle_at f' t'" by blast
  then show "ofold (serve gt c) ls f = Some f'"
    using mode_2_sequential [OF t'(1)] assms(1) by (auto simp: idle_at_def)
qed (use mode_2_serves [OF assms(1) _ assms(2)] in blast)

theorem threads_equal_sequential_witness:
  "\<exists>t' f'. thread_run SSD_THREAD_MODE_2 tick buf buf_threads [(WRITE, 4, 0), (READ, 1, 4)] t' \<and> idle_at f' t' \<and>
    Option.bind (SSD_WRITE_buffered tick buf 4 0 buf_firm) (SSD_READ_buffered tick buf 1 4) = Some f'"
proof -
  let ?ls = "[(WRITE, 4, 0), (READ, 1, 4)]"
  obtain f' where f': "ofold (serve tick buf) ?ls buf_firm = Some f'"
    using serve_refines [OF buf_surroundings, of ?ls buf_firm]
    by (auto simp: buf_ready buf_in_range buf_pages buf_frames returns_def simp del: ofold.simps)
  then have "Option.bind (SSD_WRITE_buffered tick buf 4 0 buf_firm) (SSD_READ_buffered tick buf 1 4) = Some f'"
    by (cases "SSD_WRITE_buffered tick buf 4 0 buf_firm"; cases "SSD_READ_buffered tick buf 1 4 (the (SSD_WRITE_buffered tick buf 4 0 buf_firm))") simp_all
  moreover have "\<exists>t'. thread_run SSD_THREAD_MODE_2 tick buf buf_threads ?ls t' \<and> idle_at f' t'"
    using threads_equal_sequential [OF buf_threads_idle, of ?ls tick buf f'] f' by simp
  ultimately show ?thesis by blast
qed

text \<open>
  C17. Liveness. In mode 2 no request gets stuck: wherever a run of the two threads has come to,
  the request the host is waiting for, if any, can still be completed, and then the pages
  written are those of all writes of the run.
\<close>

theorem threads_complete:
  assumes "firm_surroundings gt c conf f0 n U" "idle_at f t" "thread_run SSD_THREAD_MODE_2 gt c t ls t'"
    and "firm_ready c U (length (ls @ pending (host t'))) f" "\<forall>p\<in>set (ls @ pending (host t')). buffered_allowed c U (as_host_op p)"
  shows "\<exists>t'' f'. thread_run SSD_THREAD_MODE_2 gt c t' (pending (host t')) t'' \<and> idle_at f' t'' \<and> firm_ready c U 0 f' \<and>
    written_pages c f' = snd (spec_steps (spec_buffered c) (map as_host_op (ls @ pending (host t'))) (written_pages c f))"
proof -
  obtain f1 where f1: "ofold (serve gt c) ls f = Some f1" "progress gt c f1 (host t') t'"
    using mode_2_sequential [OF assms(3)] assms(2) by (auto simp: idle_at_def)
  obtain f' where f': "ofold (serve gt c) (ls @ pending (host t')) f = Some f'" "firm_ready c U 0 f'"
    "written_pages c f' = snd (spec_steps (spec_buffered c) (map as_host_op (ls @ pending (host t'))) (written_pages c f))"
    using serve_refines [OF assms(1,4,5)] unfolding returns_def by blast
  have "ofold (serve gt c) (pending (host t')) f1 = Some f'" using f'(1) f1(1) by (simp add: ofold_app)
  from mode_2_completes [OF f1(2) this] show ?thesis using f'(2,3) by blast
qed

theorem threads_complete_witness:
  "\<exists>t'' f'. thread_run SSD_THREAD_MODE_2 tick buf (buf_threads\<lparr>host := At_Completed WRITE 4 0\<rparr>) [(WRITE, 4, 0)] t'' \<and>
    idle_at f' t'' \<and> written_pages buf f' = {0, 1}"
  using threads_complete [OF buf_surroundings buf_threads_idle buf_threads_called]
  by (auto simp: buf_threads_def buf_ready buf_in_range buf_pages buf_frames)

text \<open>
  C18. Error. In mode 1 a host that finds the buffer full waits forever: once it waits for the
  flag it has set, no run of the two threads completes its request or clears the flag.
\<close>

theorem mode_1_host_waits_forever:
  assumes "host t = At_Check io_type len sec" "EVENT_QUEUE_IS_FULL io_type len (fst (fw t)) = SUCCESS"
    and "host_step gt c t l t'" "thread_run SSD_THREAD_MODE_1 gt c t' ls t''"
  shows "host t'' = At_Wait io_type len sec \<and> full_flag io_type t'' \<and> ls = []"
  by (rule mode_1_waits [OF assms(4)]) (use assms(1-3) in \<open>auto elim!: host_stepE simp: full_flag_def set_full_flag_def\<close>)

theorem mode_1_host_waits_forever_witness:
  "thread_run SSD_THREAD_MODE_1 tick buf full_threads [] waiting_threads \<and>
   (\<exists>t. thread_run SSD_THREAD_MODE_1 tick buf waiting_threads [] t \<and> q_entries (e_queue (fst (fw t))) = [] \<and>
     host t = At_Wait WRITE 2 0 \<and> w_queue_full t)"
proof -
  obtain f where f: "thread_run SSD_THREAD_MODE_1 tick buf waiting_threads [] (waiting_threads\<lparr>fw := f\<rparr>)"
    "q_entries (e_queue (fst f)) = []"
    using overlap_emptied by blast
  then show ?thesis
    using mode_1_host_waits_forever [OF _ _ overlap_waits f(1), of WRITE 2 0] overlap_called overlap_full
    by (fastforce simp: full_flag_def)
qed

section \<open>Garbage collection\<close>

text \<open>
  C19. Functional. One collection returns and keeps the tables consistent and every logical
  page mapped. If it succeeds, a victim block with the fewest valid pages was emptied: no
  mapping points into it, all its pages are free, and the number of free pages grew by the
  pages of the block that were not valid. It fails only if every victim block is fully valid or
  has more valid pages than there are free pages.
\<close>

theorem collection_behaviour:
  assumes "wf_config c" "PLANES_PER_FLASH c = 1" "clock_advances gt"
    and "ftl_inv c (tables s)" "io_inv c (dev s)"
  shows "returns (GARBAGE_COLLECTION gt c s) (\<lambda>(r, s'). ftl_inv c (tables s') \<and> io_inv c (dev s') \<and>
    same_mapped c (tables s) (tables s') \<and>
    (case r of
       SUCCESS \<Rightarrow> \<exists>e. reclaimed c (tables s) (tables s') e
     | FAIL \<Rightarrow> stuck c (tables s)))"
  by (rule returns_mono [OF GARBAGE_COLLECTION_collects [OF assms]])
    (auto simp: collected_def io_quiet_def split: status.splits)

theorem collection_behaviour_witness:
  "returns (GARBAGE_COLLECTION tick small worn_ssd) (\<lambda>(r, s'). r = SUCCESS \<and> ftl_inv small (tables s') \<and>
    card (free_pages small (tables s')) = 8)"
proof -
  have "\<not> stuck small worn" by (simp add: stuck_def all_valid_def worn_victims worn_free small_derived)
  moreover have "card (free_pages small t) = 8" if "reclaimed small worn t e" for t e
  proof -
    have "valid_of small worn e \<le> 1" "e \<in> set (all_victims worn)" "int (card (free_pages small t)) =
        int (card (free_pages small worn)) + PAGE_NB small - valid_of small worn e"
      using that worn_victims by (auto simp: reclaimed_def)
    then show ?thesis by (auto simp: worn_victims worn_free small_derived)
  qed
  moreover obtain r s' where "GARBAGE_COLLECTION tick small worn_ssd = Some (r, s')" "ftl_inv small (tables s')"
    "case r of SUCCESS \<Rightarrow> \<exists>e. reclaimed small worn (tables s') e | FAIL \<Rightarrow> stuck small worn"
    using collection_behaviour [OF small_derived(2,7) tick_advances, of worn_ssd, unfolded worn_ssd_tables] worn_inv worn_idle
    by (auto simp: returns_def)
  ultimately show ?thesis by (cases r) auto
qed

text \<open>
  C20. Liveness. Garbage collection frees what a write used: if no block is lost, at most \<open>n\<close>
  pages of a block's worth of free pages were used, and the mapped pages are among \<open>U\<close> with
  spare blocks for them, then after \<^verbatim>\<open>GC_CHECK\<close> at least a block's worth of pages is free.
\<close>

theorem collection_refills:
  assumes "wf_config c" "PLANES_PER_FLASH c = 1" "clock_advances gt"
    and "ftl_inv c (tables s)" "io_inv c (dev s)" "spare c n U"
    and "listed c (tables s) = {0..<BLOCK_NB c * FLASH_NB c}"
    and "\<forall>l. in_ssd c l \<longrightarrow> ppn_of (tables s) l \<noteq> -1 \<longrightarrow> l \<in> U"
    and "PAGE_NB c - n \<le> int (card (free_pages c (tables s)))"
  shows "returns (GC_CHECK gt c s) (\<lambda>s'. PAGE_NB c \<le> int (card (free_pages c (tables s'))) \<and>
    listed c (tables s') = listed c (tables s))"
  by (rule GC_CHECK_refills [OF assms])

theorem collection_refills_witness:
  "returns (GC_CHECK tick small worn_ssd) (\<lambda>s'. 2 \<le> card (free_pages small (tables s')))"
proof -
  have "listed small worn = {0..<6}" by (auto simp: worn_listed)
  moreover have "\<forall>l. in_ssd small l \<longrightarrow> ppn_of worn l \<noteq> -1 \<longrightarrow> l \<in> {0, 1, 2, 3}" unfolding small_in_ssd by auto
  ultimately show ?thesis
    by (intro returns_mono [OF collection_refills [OF small_derived(2,7) tick_advances _ _ small_spare]])
      (auto simp: small_derived worn_inv worn_idle worn_free)
qed

text \<open>
  C21. Functional. The victim selection is greedy: it ejects from its list a victim block with
  the fewest valid pages of all victim blocks, and selects none only if every victim block is
  fully valid.
\<close>

theorem victim_has_fewest_valid_pages:
  assumes "wf_config c" "lists_ok c s" "blocks_ok c s"
  shows "returns (SELECT_VICTIM_BLOCK c s) (\<lambda>(v, s'). case v of
      None \<Rightarrow> (\<forall>e\<in>set (all_victims s). valid_of c s e = PAGE_NB c) \<and> (\<exists>n. s' = s\<lparr>fail_cnt := n\<rparr>)
    | Some e \<Rightarrow> e \<in> set (all_victims s) \<and> valid_of c s e < PAGE_NB c \<and>
        (\<forall>e'\<in>set (all_victims s). valid_of c s e \<le> valid_of c s e') \<and>
        (\<exists>k<reg_count c. e \<in> set (vchain s k) \<and>
          s' = put_chains k (echain s k) (remove1 e (vchain s k)) s))"
  using SELECT_VICTIM_BLOCK_selects [OF assms] by (simp add: selected_def)

theorem victim_has_fewest_valid_pages_witness:
  "returns (SELECT_VICTIM_BLOCK small worn) (\<lambda>(v, s'). v = Some \<lparr>phy_flash_nb = 0, phy_block_nb = 0\<rparr>)"
proof -
  have "returns (SELECT_VICTIM_BLOCK small worn) (\<lambda>(v, s'). case v of
      None \<Rightarrow> \<forall>e\<in>set (all_victims worn). valid_of small worn e = PAGE_NB small
    | Some e \<Rightarrow> e \<in> set (all_victims worn) \<and> valid_of small worn e < PAGE_NB small)"
    by (rule returns_mono [OF victim_has_fewest_valid_pages [OF small_derived(2) worn_lists worn_blocks]])
      (simp only: split_beta option.case option.inject option.distinct simp_thms split: option.splits; blast)
  then show ?thesis
    by (rule returns_mono) (auto simp: worn_victims small_derived split: option.splits)
qed

section \<open>Free pages and the block lists\<close>

text \<open>
  C22. Functional. Page allocation over all chips returns: it takes one page out of the set of
  free pages, or fails when that set is empty. Block states, mappings and the set of listed
  blocks do not change.
\<close>

theorem page_from_all_chips:
  assumes "wf_config c" "lists_ok c s"
  shows "returns (GET_NEW_PAGE c VICTIM_OVERALL i s) (\<lambda>(r, s').
    lists_ok c s' \<and> same_tables s s' \<and> listed c s' = listed c s \<and>
    (case r of
       None \<Rightarrow> free_pages c s = {}
     | Some ppn \<Rightarrow> ppn \<in> free_pages c s \<and> free_pages c s' = free_pages c s - {ppn}))"
  by (rule returns_mono [OF GET_NEW_PAGE_overall [OF assms]]) (auto simp: new_page_def split: option.splits)

theorem page_from_all_chips_witness:
  "returns (GET_NEW_PAGE small VICTIM_OVERALL 2 worn) (\<lambda>(r, s'). \<exists>ppn\<in>{2, 3, 4, 5, 9, 10, 11}. r = Some ppn)"
  by (rule returns_mono [OF page_from_all_chips [OF small_derived(2) worn_lists]]) (auto simp: worn_free split: option.splits)

text \<open>
  C23. Functional. Page allocation for a copy during garbage collection looks at one chip
  first and falls back to all chips: with one plane per chip it too returns, and fails only
  when no page of the device is free.
\<close>

theorem page_from_one_chip:
  assumes "wf_config c" "PLANES_PER_FLASH c = 1" "lists_ok c s" "0 \<le> i" "i < int (reg_count c)"
  shows "returns (GET_NEW_PAGE c VICTIM_INCHIP i s) (\<lambda>(r, s').
    lists_ok c s' \<and> same_tables s s' \<and> listed c s' = listed c s \<and>
    (case r of
       None \<Rightarrow> free_pages c s = {}
     | Some ppn \<Rightarrow> ppn \<in> free_pages c s \<and> free_pages c s' = free_pages c s - {ppn}))"
  by (rule returns_mono [OF GET_NEW_PAGE_inchip [OF assms]]) (auto simp: new_page_def split: option.splits)

theorem page_from_one_chip_witness:
  "returns (GET_NEW_PAGE small VICTIM_INCHIP 1 worn) (\<lambda>(r, s'). \<exists>ppn\<in>{2, 3, 4, 5, 9, 10, 11}. r = Some ppn)"
  by (rule returns_mono [OF page_from_one_chip [OF small_derived(2,7) worn_lists]])
    (auto simp: worn_free small_derived split: option.splits)

text \<open>
  Page allocation without chip parallelism, which starts at the rotating
  index, returns and fails only when no page is free, for any number of planes.
\<close>

theorem page_without_parallelism:
  assumes "wf_config c" "lists_ok c s"
  shows "returns (GET_NEW_PAGE c VICTIM_NOPARAL (empty_block_table_index s) s) (\<lambda>(r, s').
    lists_ok c s' \<and> same_tables s s' \<and> listed c s' = listed c s \<and>
    (case r of
       None \<Rightarrow> free_pages c s = {}
     | Some ppn \<Rightarrow> ppn \<in> free_pages c s \<and> free_pages c s' = free_pages c s - {ppn}))"
  by (rule returns_mono [OF GET_NEW_PAGE_noparal [OF assms]]) (auto simp: new_page_def split: option.splits)

theorem page_without_parallelism_witness:
  "returns (GET_NEW_PAGE small VICTIM_NOPARAL (empty_block_table_index worn) worn)
    (\<lambda>(r, s'). \<exists>ppn\<in>{2, 3, 4, 5, 9, 10, 11}. r = Some ppn)"
  by (rule returns_mono [OF page_without_parallelism [OF small_derived(2) worn_lists]])
    (auto simp: worn_free split: option.splits)

text \<open>
  C24. Termination. With two planes per chip the search for a block on one chip can run
  forever: when the wrap-around of the plane index is reached with both lists empty, the index
  moves to the odd list and stays there, although the device has empty blocks.
\<close>

theorem chip_search_may_not_end:
  assumes "PLANES_PER_FLASH c = 2" "even i" "0 \<le> i" "total_empty_block_nb s \<noteq> 0"
    and "empty_block_nb (empty_block_list s ! nat i) = 0"
    and "empty_block_nb (empty_block_list s ! nat (i + 1)) = 0"
  shows "GET_NEW_PAGE c VICTIM_INCHIP i s = None"
  using inchip_two_planes_diverges [OF assms] by (simp add: GET_NEW_PAGE_def GET_EMPTY_BLOCK_def)

theorem chip_search_may_not_end_witness:
  "GET_NEW_PAGE (small\<lparr>PLANES_PER_FLASH := 2\<rparr>) VICTIM_INCHIP 0
     (worn\<lparr>empty_block_list := [mk_empty [], mk_empty [],
        mk_empty [\<lparr>phy_flash_nb = 0, phy_block_nb = 1, curr_phy_page_nb = 0\<rparr>], mk_empty []],
        total_empty_block_nb := 1\<rparr>) = None"
  by (rule chip_search_may_not_end) simp_all

text \<open>
  Inserting an erased block appends it to the empty list of its plane, and
  nothing else changes but the counters of the lists.
\<close>

theorem insert_empty_block_appends:
  assumes "lists_ok c s" "k < reg_count c" "root_index c f b = int k"
  shows "INSERT_EMPTY_BLOCK c f b s = Some (put_chains k
    (echain s k @ [\<lparr>phy_flash_nb = f, phy_block_nb = b, curr_phy_page_nb = 0\<rparr>]) (vchain s k) s)"
  by (rule INSERT_EMPTY_BLOCK_eq [OF assms])

theorem insert_empty_block_appends_witness:
  "INSERT_EMPTY_BLOCK small 1 0 worn = Some (put_chains 1
    (echain worn 1 @ [\<lparr>phy_flash_nb = 1, phy_block_nb = 0, curr_phy_page_nb = 0\<rparr>]) (vchain worn 1) worn)"
  by (rule insert_empty_block_appends [OF worn_lists]) (simp_all add: root_index_def small_derived)



section \<open>Mapping and block state\<close>

text \<open>
  C26. Functional. Entering a new page number for a logical page changes exactly that entry of
  the mapping table, makes the inverse mapping of the page lead back, and marks the page valid.
\<close>

theorem update_new_page_mapping:
  assumes "wf_config c" "blocks_ok c s" "map_ok c M L s" "in_ssd c lpn" "in_ssd c ppn"
  shows "returns (UPDATE_NEW_PAGE_MAPPING c lpn ppn s) (\<lambda>s'. blocks_ok c s' \<and>
    mapping_table s' = (mapping_table s)[nat lpn := ppn] \<and>
    inverse_mapping_table s' = (inverse_mapping_table s)[nat ppn := lpn] \<and>
    (\<forall>q. in_ssd c q \<longrightarrow> page_state c s' q = (if q = ppn then CHR ''V'' else page_state c s q)))"
  by (rule returns_mono [OF UPDATE_NEW_PAGE_MAPPING_moves [OF assms]]) (simp add: moved_def)

theorem update_new_page_mapping_witness:
  "returns (UPDATE_NEW_PAGE_MAPPING small 0 9 worn) (\<lambda>s'. mapping_table s' = [9, 6, 7, 8, -1, -1, -1, -1, -1, -1, -1, -1] \<and>
    page_state small s' 9 = CHR ''V'')"
proof -
  have "in_ssd small 0" "in_ssd small 9" by (simp_all add: small_in_ssd)
  then show ?thesis
    by (intro returns_mono [OF update_new_page_mapping [OF small_derived(2) worn_blocks worn_map]]) auto
qed

text \<open>
  C27. Functional. Before a logical page is written anew, its old physical page is marked
  invalid and its inverse mapping is removed; no other page is touched. For an unmapped
  logical page nothing happens.
\<close>

theorem update_old_page_mapping:
  assumes "wf_config c" "blocks_ok c s" "map_ok c M L s" "in_ssd c lpn" "lpn \<in> M"
  shows "returns (UPDATE_OLD_PAGE_MAPPING c lpn s) (\<lambda>s'. blocks_ok c s' \<and> mapping_table s' = mapping_table s \<and>
    (\<forall>q. in_ssd c q \<longrightarrow> lpn_of s' q = (if q = ppn_of s lpn then -1 else lpn_of s q) \<and>
      page_state c s' q = (if q = ppn_of s lpn then CHR ''I'' else page_state c s q)))"
  by (rule returns_mono [OF UPDATE_OLD_PAGE_MAPPING_forgets [OF assms]]) (simp add: forgotten_def)

theorem update_old_page_mapping_witness:
  "returns (UPDATE_OLD_PAGE_MAPPING small 1 worn) (\<lambda>s'. lpn_of s' 6 = -1 \<and> page_state small s' 6 = CHR ''I'')"
proof -
  have "in_ssd small 1" "in_ssd small 6" by (simp_all add: small_in_ssd)
  then show ?thesis
    by (intro returns_mono [OF update_old_page_mapping [OF small_derived(2) worn_blocks worn_map [of UNIV]]]) auto
qed

text \<open>
  C28. Round trip. Chip, block and page computed from a physical page number are in range and
  determine the number again.
\<close>

theorem page_number_round_trip:
  assumes "wf_config c" "in_ssd c ppn"
  shows "in_chip c (CALC_FLASH c ppn) (CALC_BLOCK c ppn) \<and> 0 \<le> CALC_PAGE c ppn \<and> CALC_PAGE c ppn < PAGE_NB c \<and>
    (CALC_FLASH c ppn * BLOCK_NB c + CALC_BLOCK c ppn) * PAGE_NB c + CALC_PAGE c ppn = ppn"
  using calc_ppn [OF assms] by (simp add: block_index_def)

theorem page_number_round_trip_witness:
  "(CALC_FLASH small 9 * 3 + CALC_BLOCK small 9) * 2 + CALC_PAGE small 9 = 9"
  using page_number_round_trip [OF small_derived(2), of 9] by (simp add: small_in_ssd small_derived)

text \<open>
  Marking one page of a block changes the mark of that page alone, and the
  number of valid pages stored for each block stays the number of its valid marks.
\<close>

theorem mark_page:
  assumes "wf_config c" "blocks_ok c s" "in_chip c f b" "0 \<le> p" "p < PAGE_NB c"
  shows "returns (UPDATE_BLOCK_STATE_ENTRY c f b p m s) (\<lambda>(r, s'). r = SUCCESS \<and> blocks_ok c s' \<and>
    s' = s\<lparr>block_state_table := block_state_table s'\<rparr> \<and>
    (\<forall>q. in_ssd c q \<longrightarrow> page_state c s' q =
      (if q = block_index c f b * PAGE_NB c + p then mark_char m else page_state c s q)))"
  using UPDATE_BLOCK_STATE_ENTRY_marks [OF assms] by (simp add: marked_def)

theorem mark_page_witness:
  "returns (UPDATE_BLOCK_STATE_ENTRY small 1 0 1 INVALID worn) (\<lambda>(r, s'). blocks_ok small s' \<and> page_state small s' 7 = CHR ''I'')"
proof -
  have "in_chip small 1 0" "in_ssd small 7" by (simp_all add: in_chip_def small_derived small_in_ssd)
  then show ?thesis
    by (intro returns_mono [OF mark_page [OF small_derived(2) worn_blocks]])
      (auto simp: small_derived block_index_def)
qed

text \<open>Erasing a block marks all its pages as erased and no other page.\<close>

theorem erase_marks:
  assumes "wf_config c" "blocks_ok c s" "in_chip c f b"
  shows "returns (UPDATE_BLOCK_STATE c f b EMPTY_BLOCK s) (\<lambda>s'. blocks_ok c s' \<and>
    (\<forall>q. in_ssd c q \<longrightarrow> page_state c s' q =
      (if q div PAGE_NB c = block_index c f b then CHR ''0'' else page_state c s q)))"
  by (rule returns_mono [OF UPDATE_BLOCK_STATE_erases [OF assms]]) (simp add: marked_def)

theorem erase_marks_witness:
  "returns (UPDATE_BLOCK_STATE small 1 0 EMPTY_BLOCK worn) (\<lambda>s'. page_state small s' 6 = CHR ''0'' \<and> page_state small s' 7 = CHR ''0'')"
proof -
  have "in_chip small 1 0" "in_ssd small 6" "in_ssd small 7" by (simp_all add: in_chip_def small_derived small_in_ssd)
  then show ?thesis
    by (intro returns_mono [OF erase_marks [OF small_derived(2) worn_blocks]]) (auto simp: small_derived block_index_def)
qed

section \<open>Configuration\<close>

text \<open>
  C29. Functional. For a configuration whose sizes are positive, divide evenly and fit into 31
  bits, the derived values are computed without overflow or division by zero and are those
  the other components rely on.
\<close>

theorem configuration_derived:
  assumes "valid_conf c"
  shows "returns (derive_config False c) (\<lambda>c'. wf_config c' \<and> PAGE_NB c' = PAGE_NB c \<and> BLOCK_NB c' = BLOCK_NB c \<and>
    FLASH_NB c' = FLASH_NB c \<and> CHANNEL_NB c' = CHANNEL_NB c \<and> PLANES_PER_FLASH c' = PLANES_PER_FLASH c \<and>
    SECTORS_PER_PAGE c' = PAGE_SIZE c div SECTOR_SIZE c \<and>
    GC_VICTIM_NB c' = (if OVP c \<noteq> 0 then (FLASH_NB c * BLOCK_NB c * OVP c) sdiv 100 sdiv 2 else 20))"
  by (rule derive_config_wf [OF assms])

theorem configuration_derived_witness: "returns (derive_config False small_conf) (\<lambda>c'. SECTORS_PER_PAGE c' = 2 \<and> GC_VICTIM_NB c' = 20)"
  by (rule returns_mono [OF configuration_derived [OF small_valid]]) (simp add: small_conf_def zero_config_def)

section \<open>Requests\<close>

text \<open>
  C30. Bounds. The range check of reads and writes computes with 32 bits: for a signed sector
  number and an unsigned length it also accepts ranges that start at a negative sector or
  whose end wraps around.
\<close>

theorem range_check_wraps:
  assumes "wf_config c" "- 2147483648 \<le> sector_nb" "sector_nb < 2147483648" "0 \<le> len" "len < 4294967296"
  shows "\<not> exceeds_sectors c sector_nb len \<longleftrightarrow>
    0 \<le> sector_nb + len \<and> sector_nb + len \<le> SECTOR_NB c \<or>
    4294967296 \<le> sector_nb + len \<and> sector_nb + len - 4294967296 \<le> SECTOR_NB c"
proof -
  have S: "0 \<le> SECTOR_NB c" "SECTOR_NB c < 2147483648" using wf_sectors(2,3) [OF assms(1)] wf_configD(1) [OF assms(1)] by simp_all
  consider "sector_nb + len < 0" | "0 \<le> sector_nb + len" "sector_nb + len < 4294967296" | "4294967296 \<le> sector_nb + len"
    by linarith
  then show ?thesis
  proof cases
    case 1
    then have "u32 (sector_nb + len) = sector_nb + len + 4294967296"
      using assms u32_id [of "sector_nb + len + 4294967296"] by (simp add: u32_def)
    then show ?thesis using 1 assms S by (simp add: exceeds_sectors_def)
  next
    case 2
    then show ?thesis using S by (auto simp: exceeds_sectors_def u32_id)
  next
    case 3
    then have "u32 (sector_nb + len) = sector_nb + len - 4294967296"
      using assms u32_id [of "sector_nb + len - 4294967296"] by (simp add: u32_def)
    then show ?thesis using 3 S by (auto simp: exceeds_sectors_def)
  qed
qed

theorem range_check_wraps_witness: "\<not> exceeds_sectors small (-2) 4 \<and> \<not> exceeds_sectors small 2 4294967294"
  using range_check_wraps [OF small_derived(2), of "-2" 4] range_check_wraps [OF small_derived(2), of 2 4294967294]
  by (simp add: small_sectors)

text \<open>
  C31. Equivalence. The loop that counts the pages of a request counts the distinct logical
  pages its sectors lie in.
\<close>

theorem request_size_is_page_count:
  assumes "wf_config c" "in_range c sector_nb len"
  shows "count_pages (SECTORS_PER_PAGE c) len (sector_nb mod SECTORS_PER_PAGE c) =
    Some (int (card (request_pages c sector_nb len)))"
proof -
  have spp: "0 < SECTORS_PER_PAGE c" "SECTORS_PER_PAGE c < 4294967296"
    using wf_configD(1) [OF assms(1)] wf_sectors(2,3) [OF assms(1)] by simp_all
  have b: "0 \<le> sector_nb" "0 < len" "len < 4294967296"
    using assms(2) wf_sectors(2) [OF assms(1)] by (simp_all add: in_range_def)
  show ?thesis using count_pages_span [of "sector_nb mod SECTORS_PER_PAGE c"] spp b
      card_request_pages [OF spp(1), of sector_nb len] by simp
qed

theorem request_size_is_page_count_witness: "count_pages 2 2 1 = Some 2"
  using request_size_is_page_count [OF small_derived(2) small_in_range(4)] by (simp add: small_derived small_pages)

text \<open>
  C32. Functional. The latency of a request is the time from its first start stamp to its last
  end stamp, divided by its number of pages; a page without an end stamp counts with its
  nominal delay.
\<close>

theorem latency_of_request:
  assumes "req_ok q"
  shows "CALC_IO_LATENCY c q =
    Some ((Max (set (completed_ends c q)) - Min (set (start_time q))) sdiv sint (request_size q))"
  by (rule CALC_IO_LATENCY_eq [OF assms])

theorem latency_of_request_witness:
  "CALC_IO_LATENCY small \<lparr>request_nb = 0, request_type = READ, request_size = 2, start_count = 2, end_count = 2,
     start_time = [10, 20], end_time = [70, 50]\<rparr> = Some 30"
  by (subst latency_of_request) (simp_all add: req_ok_def completed_ends_def sdiv_nonneg)

text \<open>
  C33. Functional. A request is completed by its last stamp and not before: after any sequence
  of start and end stamps for its pages, no more than one of each kind per page, the first
  pending request with that number is removed, and its latency counted, exactly if there were
  as many start and end stamps as it has pages. Other requests are not touched.
\<close>

theorem request_completed_by_last_stamp:
  assumes "reqs_ok s" "io_requests s = pre @ q # post"
    and "nb \<noteq> -1" "request_nb q = nb" "\<forall>p\<in>set pre. request_nb p \<noteq> nb"
    and "start_count q = 0" "end_count q = 0" "n = nat (sint (request_size q))"
    and "\<forall>(off, t, ty)\<in>set xs. 0 \<le> off \<and> off < int n"
    and "stamps_of UPDATE_START_TIME xs \<le> n" "stamps_of UPDATE_END_TIME xs \<le> n"
  shows "returns (stamp_pages gt c nb xs s) (\<lambda>s'. reqs_ok s' \<and>
    (if stamps_of UPDATE_START_TIME xs = n \<and> stamps_of UPDATE_END_TIME xs = n
     then io_requests s' = pre @ post \<and>
       (request_type q \<in> {READ, WRITE} \<longrightarrow> latency_count (request_type q) s' = latency_count (request_type q) s + 1)
     else \<exists>q'. io_requests s' = pre @ q' # post \<and> request_nb q' = nb \<and> request_size q' = request_size q))"
proof -
  have c: "counted q 0 0" using assms(6,7) by (simp add: counted_def)
  have "0 < n" using assms(1,2,8) by (simp add: reqs_ok_def req_ok_def)
  then show ?thesis using stamp_pages_life [OF assms(1-5,8,9) c, of gt c] assms(10,11) by simp
qed

theorem request_completed_by_last_stamp_witness:
  "returns (stamp_pages tick small 0 [(0, 5, UPDATE_START_TIME), (0, 9, UPDATE_END_TIME)]
      ((dev small_ssd)\<lparr>io_request_nb := 1, io_requests := [\<lparr>request_nb = 0, request_type = READ, request_size = 1,
         start_count = 0, end_count = 0, start_time = [0], end_time = [0]\<rparr>]\<rparr>))
    (\<lambda>s'. io_requests s' = [])"
  by (rule returns_mono [OF request_completed_by_last_stamp [of _ "[]" "\<lparr>request_nb = 0, request_type = READ, request_size = 1,
         start_count = 0, end_count = 0, start_time = [0], end_time = [0]\<rparr>" "[]" 0 1]])
    (simp_all add: reqs_ok_def req_ok_def)

text \<open>
  C34. Error. A stamp for a page that the request does not have is an access beyond the end of
  its time array.
\<close>

theorem stamp_out_of_bounds:
  assumes "reqs_ok s" "io_requests s = pre @ q # post"
    and "nb \<noteq> -1" "request_nb q = nb" "\<forall>p\<in>set pre. request_nb p \<noteq> nb"
    and "off < 0 \<or> sint (request_size q) \<le> off"
  shows "UPDATE_IO_REQUEST gt c nb off t ty s = None"
proof -
  have ok: "io_request_nb s = int (length (pre @ q # post))" "req_ok q"
    using assms(1,2) by (auto simp: reqs_ok_def)
  have "LOOKUP_IO_REQUEST nb (s\<lparr>ticks := ticks s + 1\<rparr>) = Some (length pre)"
    using lookup_first [OF assms(5,4), of "nat (io_request_nb s)" 0 post] ok(1) assms(2)
    by (simp add: LOOKUP_IO_REQUEST_def)
  moreover have "stamp_request off t ty q = None"
    using assms(6) ok(2) by (cases ty) (auto simp: stamp_request_def aset_def req_ok_def)
  ultimately show ?thesis using assms(2,3) by (simp add: UPDATE_IO_REQUEST_def get_usec_def)
qed

theorem stamp_out_of_bounds_witness:
  "UPDATE_IO_REQUEST tick small 0 1 5 UPDATE_START_TIME
     ((dev small_ssd)\<lparr>io_request_nb := 1, io_requests := [\<lparr>request_nb = 0, request_type = READ, request_size = 1,
         start_count = 0, end_count = 0, start_time = [0], end_time = [0]\<rparr>]\<rparr>) = None"
  by (rule stamp_out_of_bounds [of _ "[]" "\<lparr>request_nb = 0, request_type = READ, request_size = 1,
         start_count = 0, end_count = 0, start_time = [0], end_time = [0]\<rparr>" "[]"])
    (simp_all add: reqs_ok_def req_ok_def)



section \<open>The timing of the flash chips\<close>

text \<open>
  A busy wait ends, changes nothing but the clock, and if it had to wait at
  all, the last time it read is at least the requested delay after the time stamp, less the
  overhead already spent.
\<close>

theorem busy_wait_waits:
  assumes "clock_advances gt" "diff < delay"
  shows "\<exists>n. busy_wait gt time_stamp overhead delay diff s = Some (s\<lparr>ticks := n\<rparr>) \<and> ticks s < n \<and>
    time_stamp + delay - overhead \<le> usec_at gt (n - 1)"
  using busy_wait_result [OF assms(1), of time_stamp overhead delay diff s] assms(2) by (force simp: algebra_simps)

theorem busy_wait_waits_witness:
  "\<exists>n. busy_wait tick 3 0 5 1 off_dev = Some (off_dev\<lparr>ticks := n\<rparr>) \<and> 0 < n \<and> 8 \<le> usec_at tick (n - 1)"
  using busy_wait_waits [OF tick_advances, of 1 5 3 0 off_dev] by (auto simp: off_dev_def)

text \<open>
  Writing a page returns success whatever the chip and its channel are doing,
  keeps the device consistent, and at most stamps or completes pending requests.
\<close>

theorem page_write_returns:
  assumes "wf_config c" "0 \<le> f" "f < FLASH_NB c" "clock_advances gt" "io_inv c s"
    and "off_ok (io_request_seq_nb s) off s"
  shows "returns (SSD_PAGE_WRITE gt c f b off type s) (\<lambda>(r, s'). r = SUCCESS \<and> io_inv c s' \<and> reqs_from s s' \<and>
    io_request_seq_nb s' = io_request_seq_nb s)"
  by (rule returns_mono [OF SSD_PAGE_WRITE_good [OF assms(1-5), where off = off and k = off]])
    (use assms(6) in \<open>auto simp: io_good_def\<close>)

theorem page_write_returns_witness:
  "returns (SSD_PAGE_WRITE tick small 1 2 0 WRITE (dev worn_ssd)) (\<lambda>(r, s'). r = SUCCESS \<and> io_inv small s')"
  by (rule returns_mono [OF page_write_returns [OF small_derived(2) _ _ tick_advances]])
    (use worn_idle small_reqs in \<open>auto simp: small_derived off_ok_def worn_ssd_def\<close>)

text \<open>The same for reading a page.\<close>

theorem page_read_returns:
  assumes "wf_config c" "0 \<le> f" "f < FLASH_NB c" "clock_advances gt" "io_inv c s"
    and "off_ok (io_request_seq_nb s) off s"
  shows "returns (SSD_PAGE_READ gt c f b off type s) (\<lambda>(r, s'). r = SUCCESS \<and> io_inv c s' \<and> reqs_from s s' \<and>
    io_request_seq_nb s' = io_request_seq_nb s)"
  by (rule returns_mono [OF SSD_PAGE_READ_good [OF assms(1-5), where off = off and k = off]])
    (use assms(6) in \<open>auto simp: io_good_def\<close>)

theorem page_read_returns_witness:
  "returns (SSD_PAGE_READ tick small 1 2 0 READ (dev worn_ssd)) (\<lambda>(r, s'). r = SUCCESS \<and> io_inv small s')"
  by (rule returns_mono [OF page_read_returns [OF small_derived(2) _ _ tick_advances]])
    (use worn_idle small_reqs in \<open>auto simp: small_derived off_ok_def worn_ssd_def\<close>)

text \<open>Erasing a block returns success and keeps the device consistent.\<close>

theorem block_erase_returns:
  assumes "wf_config c" "0 \<le> f" "f < FLASH_NB c" "clock_advances gt" "io_inv c s"
  shows "returns (SSD_BLOCK_ERASE gt c f b s) (\<lambda>(r, s'). r = SUCCESS \<and> io_inv c s' \<and> reqs_from s s')"
  by (rule returns_mono [OF SSD_BLOCK_ERASE_good [OF assms, where off = 0]]) (auto simp: io_good_def)

theorem block_erase_returns_witness:
  "returns (SSD_BLOCK_ERASE tick small 1 2 (dev worn_ssd)) (\<lambda>(r, s'). r = SUCCESS \<and> io_inv small s')"
  by (rule returns_mono [OF block_erase_returns [OF small_derived(2) _ _ tick_advances]])
    (auto simp: small_derived worn_idle)

text \<open>
  C36. Functional. The time from which a read may use its channel is the latest of the end of
  its own cell read and the ends of all transfers of the registers on that channel.
\<close>

theorem read_waits_for_channel:
  assumes "wf_config c" "0 \<le> channel" "channel < CHANNEL_NB c" "io_inv c s" "reg_in c r"
  shows "SSD_GET_CH_ACCESS_TIME_FOR_READ c channel r s =
    Some (Max (insert (cell_io_time s ! nat r + CELL_READ_DELAY c) (channel_end c s ` set (ch_regs c channel))))"
  by (rule SSD_GET_CH_ACCESS_TIME_FOR_READ_max [OF assms])

theorem read_waits_for_channel_witness:
  "SSD_GET_CH_ACCESS_TIME_FOR_READ small 0 1
     ((dev worn_ssd)\<lparr>reg_io_cmd := [WRITE, NOOP], reg_io_time := [40, -1], cell_io_time := [-1, 25]\<rparr>) = Some 40"
proof -
  let ?s = "(dev worn_ssd)\<lparr>reg_io_cmd := [WRITE, NOOP], reg_io_time := [40, -1], cell_io_time := [-1, 25]\<rparr>"
  have "io_inv small ?s" using worn_idle(2) by (simp add: io_inv_def reqs_ok_def off_ok_def small_derived)
  moreover have "set (ch_regs small 0) = {0, 1}" by (simp add: ch_regs_def small_derived small_sectors upto_small)
  ultimately show ?thesis
    using read_waits_for_channel [OF small_derived(2), of 0 ?s 1]
    by (simp add: small_derived small_delays reg_in_def channel_end_def)
qed

text \<open>
  C37. Equivalence. A partial write waits for the channel of the page it reads, but not for
  the channel of the page it writes: the result of the first wait is never reset, so that the
  second waiting loop is left at once.
\<close>

theorem partial_write_waits_once: "SSD_PAGE_PARTIAL_WRITE = partial_write_one_wait"
  by (rule SSD_PAGE_PARTIAL_WRITE_one_wait)

section \<open>The map cache\<close>

text \<open>
  C38. Refinement. A new map cache is transparent: after \<^verbatim>\<open>INIT_CACHE\<close>, every sequence of lookups
  and updates of covered logical pages returns, and answers and leaves the mapping table as
  the table alone would do, whatever the cache holds and evicts on the way and whatever the
  flash cells do. A free page for every operation is enough for the map pages that
  evictions write back.
\<close>

theorem map_cache_transparent:
  fixes io :: "'d cell_io"
  assumes "wf_config c" "cells_return io" "cache_sizes g" "lists_ok c (ftl s)"
    and "nat (MAP_ENTRY_NB g) + length xs \<le> card (free_pages c (ftl s))"
    and "MAP_ENTRY_NB g * MAP_ENTRIES_PER_PAGE g \<le> int (length (mapping_table (ftl s)))"
    and "MAP_ENTRY_NB g * MAP_ENTRIES_PER_PAGE g \<le> int (length (inverse_page_mapping_table s))"
    and "\<forall>x\<in>set xs. map_allowed g x"
  shows "returns (INIT_CACHE c g False s) (\<lambda>s1. returns (run_steps (map_step c g io) xs s1) (\<lambda>(rs, s').
    (rs, mapping_table (ftl s')) = spec_steps map_spec xs (mapping_table (ftl s))))"
proof (rule returns_mono [OF INIT_CACHE_ready [OF assms(1,3-7)]])
  fix s1
  assume "cache_ready c g (length xs) s1 \<and> same_maps s s1 \<and>
    (\<forall>m kind. 0 \<le> m \<longrightarrow> m < MAP_ENTRY_NB g \<longrightarrow> LOOKUP_CACHE m kind s1 = Some None)"
  then have s1: "cache_ready c g (length xs) s1" "mapping_table (ftl s1) = mapping_table (ftl s)"
    by (simp_all add: same_maps_def same_tables_def)
  show "returns (run_steps (map_step c g io) xs s1) (\<lambda>(rs, s').
      (rs, mapping_table (ftl s')) = spec_steps map_spec xs (mapping_table (ftl s)))"
    by (rule returns_mono [OF cached_map.run_refines]) (use assms s1 in auto)
qed

theorem map_cache_transparent_witness:
  "\<exists>s1 s'. INIT_CACHE small small_geometry False no_cache = Some s1 \<and>
    run_steps (map_step small small_geometry small_cells) [Update_Ppn 5 7, Get_Ppn 9, Get_Ppn 1, Get_Ppn 5] s1 =
      Some ([None, Some (mapping_table worn ! 9), Some (mapping_table worn ! 1), Some 7], s') \<and>
    mapping_table (ftl s') = (mapping_table worn)[5 := 7]"
  using map_cache_transparent [OF small_derived(2) small_cells_return small_geometry_sizes,
      of no_cache "[Update_Ppn 5 7, Get_Ppn 9, Get_Ppn 1, Get_Ppn 5]"]
  by (auto simp: no_cache_def worn_lists worn_free small_geometry_def covered_def returns_def simp del: run_steps.simps)

text \<open>
  C39. Equivalence. The selection of the cache entry to evict is the clock algorithm, and it
  ends: counted from the hand, the entries before the first one whose clock bit is clear lose
  their bits, that one is the victim, its bit is set and the hand moves behind it. If all
  bits are set, they are cleared once around and the entry under the hand is the victim.
\<close>

theorem victim_selection_is_clock:
  assumes "h < length es" "CACHE_IDX_SIZE g = int (length es)" "CACHE_IDX_SIZE g < 2147483648"
  shows "CACHE_SELECT_VICTIM g (at_hand h es s) = Some (clock_victim h es s)"
  by (rule CACHE_SELECT_VICTIM_eq [OF assms])

theorem victim_selection_is_clock_witness:
  "CACHE_SELECT_VICTIM small_geometry (at_hand 1 [bit_entry 0 True, bit_entry 1 False] no_cache) =
     Some (0, at_hand 1 [bit_entry 0 False, bit_entry 1 True] no_cache) \<and>
   CACHE_SELECT_VICTIM small_geometry (at_hand 1 [bit_entry 0 True, bit_entry 1 True] no_cache) =
     Some (1, at_hand 0 [bit_entry 1 False, bit_entry 0 True] no_cache)"
  using victim_selection_is_clock [of 1 "[bit_entry 0 True, bit_entry 1 False]" small_geometry no_cache]
    victim_selection_is_clock [of 1 "[bit_entry 0 True, bit_entry 1 True]" small_geometry no_cache]
  by (simp add: small_geometry_def clock_victim_def bit_entry_def Let_def mod_Suc)

text \<open>
  C40. Functional. An update of a logical page whose map page is not cached changes the mapping
  table and marks the cached copy of the map page as changed, but the copy keeps the old
  page number. It is the copy that an eviction writes to flash.
\<close>

theorem update_leaves_stale_copy:
  fixes io :: "'d cell_io"
  assumes "wf_config c" "cells_return io" "cache_ready c g (Suc k) s" "covered g lpn"
    and "LOOKUP_CACHE (lpn div MAP_ENTRIES_PER_PAGE g) MAP s = Some None"
  shows "returns (CACHE_UPDATE_PPN c g io lpn ppn s) (\<lambda>s'.
    mapping_table (ftl s') = (mapping_table (ftl s))[nat lpn := ppn] \<and>
    (\<exists>i. LOOKUP_CACHE (lpn div MAP_ENTRIES_PER_PAGE g) MAP s' = Some (Some i) \<and> update_bit (cache_idx_table s' ! nat i) \<and>
      idx_data (cache_idx_table s' ! nat i) ! nat (lpn mod MAP_ENTRIES_PER_PAGE g) = mapping_table (ftl s) ! nat lpn))"
  by (rule returns_mono [OF CACHE_UPDATE_PPN_ok [OF assms(1-4)]]) (use assms(5) in auto)

theorem update_leaves_stale_copy_witness:
  "\<exists>s' i. CACHE_UPDATE_PPN small small_geometry small_cells 5 77 small_cache = Some s' \<and>
    mapping_table (ftl s') = (mapping_table worn)[5 := 77] \<and> LOOKUP_CACHE 1 MAP s' = Some (Some i) \<and>
    update_bit (cache_idx_table s' ! nat i) \<and> idx_data (cache_idx_table s' ! nat i) ! 1 = mapping_table worn ! 5"
proof -
  have "MAP_ENTRIES_PER_PAGE small_geometry = 4" by (simp add: small_geometry_def)
  moreover have "cache_ready small small_geometry (Suc 3) small_cache" using small_cache_ready(2) by (simp add: numeral_nat)
  ultimately show ?thesis
    using update_leaves_stale_copy [OF small_derived(2) small_cells_return _ small_covered, of 3 small_cache 5 77]
      small_cache_ready(4) [of 1 MAP]
    by (auto simp: returns_def small_cache_ready(3))
qed

end
